(* ===== verification/Dice_Prelude.thy ===== *)
theory Dice_Prelude
  imports Main "HOL-Library.Word"
begin

text \<open>
  Prelude of the development: machine integers, the faults a piece of kernel code can run
  into, the result type that carries them, and the generic lemmas the components share.

  A kernel function of the driver either runs to its end, and then gives a value, or meets
  a \<^emph>\<open>fault\<close>: a BUG, an access outside an object, a dereference of NULL or of a pointer
  that points to no live object, an attempt to take a spin lock that the same thread holds,
  or a busy-wait that never ends. A fault is the left value of a sum.
\<close>

unbundle bit_operations_syntax

section \<open>Machine integers\<close>

type_synonym u32 = "32 word"
type_synonym u64 = "64 word"
type_synonym ptr = nat

lemma unat_of_nat_u32: "n < 2 ^ 32 \<Longrightarrow> unat (of_nat n :: u32) = n"
  by (simp add: unat_of_nat take_bit_nat_eq_self)

lemma unat_of_nat_u64: "n < 2 ^ 64 \<Longrightarrow> unat (of_nat n :: u64) = n"
  by (simp add: unat_of_nat take_bit_nat_eq_self)

lemma unat_widen: "unat (ucast a :: u64) = unat a" for a :: u32
proof -
  have "unat a < 2 ^ 32" using unsigned_less [of a] by simp
  then show ?thesis by (simp add: unsigned_ucast_eq take_bit_nat_eq_self)
qed

lemma unat_Suc_less: "unat x < unat y \<Longrightarrow> unat (x + 1 :: u64) = Suc (unat x)" for x y :: u64
proof -
  assume "unat x < unat y"
  moreover have "unat y < 2 ^ 64" using unsigned_less [of y] by simp
  ultimately show ?thesis using unat_add_lem [of x 1] by simp
qed

named_theorems run_simps \<open>equations that execute the kernel code symbolically\<close>
named_theorems abi_defs \<open>the constants of the device interface\<close>

section \<open>Faults and results\<close>

datatype fault =
    BUG         \<comment> \<open>a failed \<open>BUG_ON\<close> or \<open>BUG()\<close>\<close>
  | OOB         \<comment> \<open>an array access outside the array\<close>
  | NULL_DEREF  \<comment> \<open>a dereference of NULL\<close>
  | WILD        \<comment> \<open>a dereference of an uninitialised, freed or ill-typed pointer\<close>
  | DEADLOCK    \<comment> \<open>taking a spin lock the same thread already holds\<close>
  | SPIN        \<comment> \<open>a busy-wait that never ends\<close>

type_synonym 'a result = "fault + 'a"

definition bindR :: "'a result \<Rightarrow> ('a \<Rightarrow> 'b result) \<Rightarrow> 'b result" where
  "bindR m f = (case m of Inl e \<Rightarrow> Inl e | Inr x \<Rightarrow> f x)"

lemma bindR_Inr [simp, run_simps]: "bindR (Inr x) f = f x"
  by (simp add: bindR_def)

lemma bindR_Inl [simp, run_simps]: "bindR (Inl e) f = Inl e"
  by (simp add: bindR_def)

lemma bindR_eq_Inr [simp]: "bindR m f = Inr y \<longleftrightarrow> (\<exists>x. m = Inr x \<and> f x = Inr y)"
  by (simp add: bindR_def split: sum.splits)

lemma bindR_eq_Inl: "bindR m f = Inl e \<longleftrightarrow> m = Inl e \<or> (\<exists>x. m = Inr x \<and> f x = Inl e)"
  by (auto simp: bindR_def split: sum.splits)

lemma bindR_assoc: "bindR (bindR m f) g = bindR m (\<lambda>x. bindR (f x) g)"
  by (simp add: bindR_def split: sum.splits)

lemma bindR_cong [fundef_cong]:
  "m = m' \<Longrightarrow> (\<And>x. m' = Inr x \<Longrightarrow> f x = f' x) \<Longrightarrow> bindR m f = bindR m' f'"
  by (simp add: bindR_def split: sum.splits)

definition bug_on :: "bool \<Rightarrow> unit result" where
  "bug_on c = (if c then Inl BUG else Inr ())"

lemma bug_on_simps [simp, run_simps]:
  "bug_on True = Inl BUG" "bug_on False = Inr ()"
  by (simp_all add: bug_on_def)

lemma bug_on_eq_Inr [simp]: "bug_on c = Inr u \<longleftrightarrow> \<not> c"
  by (simp add: bug_on_def)

text \<open>Reading through a typed pointer, and reading an array element.\<close>

definition deref :: "(ptr \<rightharpoonup> 'a) \<Rightarrow> ptr \<Rightarrow> 'a result" where
  "deref h p = (case h p of None \<Rightarrow> Inl WILD | Some x \<Rightarrow> Inr x)"

lemma deref_Some [simp, run_simps]: "h p = Some x \<Longrightarrow> deref h p = Inr x"
  by (simp add: deref_def)

lemma deref_None [simp]: "h p = None \<Longrightarrow> deref h p = Inl WILD"
  by (simp add: deref_def)

lemma deref_eq_Inr [simp]: "deref h p = Inr x \<longleftrightarrow> h p = Some x"
  by (simp add: deref_def split: option.splits)

definition not_null :: "'a option \<Rightarrow> 'a result" where
  "not_null p = (case p of None \<Rightarrow> Inl NULL_DEREF | Some x \<Rightarrow> Inr x)"

lemma not_null_simps [simp, run_simps]:
  "not_null None = Inl NULL_DEREF" "not_null (Some x) = Inr x"
  by (simp_all add: not_null_def)

lemma not_null_eq_Inr [simp]: "not_null p = Inr x \<longleftrightarrow> p = Some x"
  by (simp add: not_null_def split: option.splits)

definition index :: "'a list \<Rightarrow> nat \<Rightarrow> 'a result" where
  "index xs i = (if i < length xs then Inr (xs ! i) else Inl OOB)"

lemma index_less [simp, run_simps]: "i < length xs \<Longrightarrow> index xs i = Inr (xs ! i)"
  by (simp add: index_def)

lemma index_ge [simp, run_simps]: "length xs \<le> i \<Longrightarrow> index xs i = Inl OOB"
  by (simp add: index_def)

lemma index_eq_Inr [simp]: "index xs i = Inr x \<longleftrightarrow> i < length xs \<and> xs ! i = x"
  by (auto simp: index_def)

definition store :: "'a list \<Rightarrow> nat \<Rightarrow> 'a \<Rightarrow> 'a list result" where
  "store xs i x = (if i < length xs then Inr (xs[i := x]) else Inl OOB)"

lemma store_less [simp, run_simps]: "i < length xs \<Longrightarrow> store xs i x = Inr (xs[i := x])"
  by (simp add: store_def)

lemma store_ge [simp]: "length xs \<le> i \<Longrightarrow> store xs i x = Inl OOB"
  by (simp add: store_def)

lemma store_eq_Inr [simp]: "store xs i x = Inr ys \<longleftrightarrow> i < length xs \<and> ys = xs[i := x]"
  by (auto simp: store_def)

section \<open>Error returns\<close>

datatype errno = EPERM | EIO | ENOMEM | EFAULT | EINVAL | ENOTTY | ENOSPC | Errno nat

section \<open>Counting in arrays\<close>

lemma count_list_update_remove:
  "i < length xs \<Longrightarrow> xs ! i = x \<Longrightarrow> y \<noteq> x \<Longrightarrow> Suc (count_list (xs[i := y]) x) = count_list xs x"
  by (induction xs arbitrary: i) (auto split: nat.splits)

lemma count_list_update_add:
  "i < length xs \<Longrightarrow> xs ! i \<noteq> x \<Longrightarrow> count_list (xs[i := x]) x = Suc (count_list xs x)"
  by (induction xs arbitrary: i) (auto split: nat.splits)

lemma count_list_pos: "i < length xs \<Longrightarrow> xs ! i = x \<Longrightarrow> 0 < count_list xs x"
  by (metis count_list_0_iff gr_zeroI nth_mem)

lemma ran_del_inj:
  assumes "m i = Some b" "\<And>j. m j = Some b \<Longrightarrow> j = i"
  shows "ran (m(i := None)) = ran m - {b}"
proof (intro equalityI subsetI)
  fix x assume "x \<in> ran m - {b}"
  then obtain a where "m a = Some x" "x \<noteq> b" by (auto simp: ran_def)
  with assms(1) have "(m(i := None)) a = Some x" by auto
  then show "x \<in> ran (m(i := None))" by (rule ranI)
next
  fix x assume "x \<in> ran (m(i := None))"
  then obtain a where "a \<noteq> i" "m a = Some x" by (auto simp: ran_def split: if_splits)
  then show "x \<in> ran m - {b}" using assms(2) by (auto intro: ranI)
qed

lemma length_concat_same: "\<forall>l \<in> set ls. length l = n \<Longrightarrow> length (concat ls) = length ls * n"
  by (induction ls) auto

lemma nth_concat_same:
  "\<forall>l \<in> set ls. length l = n \<Longrightarrow> i < length ls \<Longrightarrow> j < n \<Longrightarrow> concat ls ! (i * n + j) = ls ! i ! j"
proof (induction ls arbitrary: i)
  case (Cons l ls)
  then show ?case by (cases i) (auto simp: nth_append)
qed simp

text \<open>A store whose addresses all lie below a bound has nothing at or above it.\<close>

lemma fresh_None: "dom m \<subseteq> {..<n} \<Longrightarrow> n \<le> x \<Longrightarrow> m x = None" for n :: nat
  by (auto simp: dom_def subset_eq)

lemma dom_below:
  fixes n n' :: nat
  assumes "dom f \<subseteq> {..<n}" "n \<le> n'"
  shows "dom f \<subseteq> {..<n'}" "x < n' \<Longrightarrow> dom (f(x \<mapsto> y)) \<subseteq> {..<n'}"
proof -
  show "dom f \<subseteq> {..<n'}" using assms by (meson lessThan_subset_iff subset_trans)
  then show "x < n' \<Longrightarrow> dom (f(x \<mapsto> y)) \<subseteq> {..<n'}" by simp
qed

lemma dom_subI: "(\<And>x. f x = None \<Longrightarrow> g x = None) \<Longrightarrow> dom g \<subseteq> dom f"
  by (metis domIff subsetI)

text \<open>Reading \<open>n\<close> values from a source that is stepped once for each.\<close>

fun read_n :: "('b \<Rightarrow> ('a \<times> 'b) result) \<Rightarrow> nat \<Rightarrow> 'b \<Rightarrow> ('a list \<times> 'b) result" where
  "read_n nxt 0 b = Inr ([], b)"
| "read_n nxt (Suc n) b = bindR (nxt b) (\<lambda>(x, b). bindR (read_n nxt n b) (\<lambda>(xs, b). Inr (x # xs, b)))"

text \<open>
  The contract of a source of values with a list of values still to come, and what a client
  that reads several of them gets.
\<close>

locale value_source =
  fixes nxt :: "'b \<Rightarrow> ('a \<times> 'b) result" and ok :: "'b \<Rightarrow> bool" and rest :: "'b \<Rightarrow> 'a list"
  assumes nxt_Cons: "ok b \<Longrightarrow> rest b = x # xs \<Longrightarrow> \<exists>b'. nxt b = Inr (x, b') \<and> ok b' \<and> rest b' = xs"
begin

lemma read_prefix:
  "ok b \<Longrightarrow> n \<le> length (rest b) \<Longrightarrow>
   \<exists>b'. read_n nxt n b = Inr (take n (rest b), b') \<and> ok b' \<and> rest b' = drop n (rest b)"
proof (induction n arbitrary: b)
  case (Suc n)
  then obtain x xs where r: "rest b = x # xs" by (cases "rest b") auto
  then obtain b' where b': "nxt b = Inr (x, b')" "ok b'" "rest b' = xs" using nxt_Cons Suc.prems by blast
  then show ?case using Suc.IH [of b'] Suc.prems r by auto
qed simp

end

fun put_all :: "('a \<Rightarrow> 'b \<Rightarrow> 'b result) \<Rightarrow> 'a list \<Rightarrow> 'b \<Rightarrow> 'b result" where
  "put_all put [] b = Inr b"
| "put_all put (x # xs) b = bindR (put x b) (put_all put xs)"

text \<open>Sizes in bytes of arrays of 32-bit words.\<close>

lemma unat_bytes [simp]: "n < 4611686018427387904 \<Longrightarrow> unat (4 * word_of_nat n :: u64) = 4 * n"
  using unat_of_nat_u64 [of "4 * n"] by simp

end
