(* ===== verification/Dicedev_Abi.thy ===== *)
theory Dicedev_Abi
  imports Dice_Prelude
begin

text \<open>
  The device interface of \<^verbatim>\<open>dicedev.h\<close>: register offsets, interrupt bits, command types
  and the macros that build the headers of commands, with the fields a header carries.
\<close>

section \<open>Registers and constants\<close>

definition DICEDEV_INTR :: u32 where [abi_defs]: "DICEDEV_INTR = 0x0000"
definition DICEDEV_INTR_ENABLE :: u32 where [abi_defs]: "DICEDEV_INTR_ENABLE = 0x0004"
definition DICEDEV_ENABLE :: u32 where [abi_defs]: "DICEDEV_ENABLE = 0x0008"
definition DICEDEV_INCREMENT_SEED :: u32 where [abi_defs]: "DICEDEV_INCREMENT_SEED = 0x000c"
definition CMD_MANUAL_FEED :: u32 where [abi_defs]: "CMD_MANUAL_FEED = 0x008c"
definition CMD_MANUAL_FREE :: u32 where [abi_defs]: "CMD_MANUAL_FREE = 0x0094"
definition DICEDEV_CMD_FENCE_LAST :: u32 where [abi_defs]: "DICEDEV_CMD_FENCE_LAST = 0x009c"
definition DICEDEV_CMD_FENCE_WAIT :: u32 where [abi_defs]: "DICEDEV_CMD_FENCE_WAIT = 0x00A4"

definition DICEDEV_IOCTL_CREATE_SET :: u32 where [simp, abi_defs]: "DICEDEV_IOCTL_CREATE_SET = 0x0"
definition DICEDEV_IOCTL_RUN :: u32 where [simp, abi_defs]: "DICEDEV_IOCTL_RUN = 0x1"
definition DICEDEV_IOCTL_WAIT :: u32 where [simp, abi_defs]: "DICEDEV_IOCTL_WAIT = 0x3"
definition DICEDEV_IOCTL_ENABLE_SEED_INCREMENT :: u32 where
  [simp, abi_defs]: "DICEDEV_IOCTL_ENABLE_SEED_INCREMENT = 0x4"
definition DICEDEV_BUFFER_IOCTL_SEED :: u32 where [simp, abi_defs]: "DICEDEV_BUFFER_IOCTL_SEED = 0x0"

definition DICEDEV_INTR_FENCE_WAIT :: u32 where [simp, abi_defs]: "DICEDEV_INTR_FENCE_WAIT = 0x1"
definition DICEDEV_INTR_FEED_ERROR :: u32 where [simp, abi_defs]: "DICEDEV_INTR_FEED_ERROR = 0x2"
definition DICEDEV_INTR_CMD_ERROR :: u32 where [simp, abi_defs]: "DICEDEV_INTR_CMD_ERROR = 0x4"
definition DICEDEV_INTR_MEM_ERROR :: u32 where [simp, abi_defs]: "DICEDEV_INTR_MEM_ERROR = 0x8"
definition DICEDEV_INTR_SLOT_ERROR :: u32 where [simp, abi_defs]: "DICEDEV_INTR_SLOT_ERROR = 0x10"

definition DICEDEV_PAGE_SIZE :: nat where [simp, abi_defs]: "DICEDEV_PAGE_SIZE = 0x1000"

definition DICEDEV_USER_CMD_TYPE_NOP :: u32 where [simp, abi_defs]: "DICEDEV_USER_CMD_TYPE_NOP = 0x0"
definition DICEDEV_USER_CMD_TYPE_BIND_SLOT :: u32 where
  [simp, abi_defs]: "DICEDEV_USER_CMD_TYPE_BIND_SLOT = 0x1"
definition DICEDEV_USER_CMD_TYPE_GET_DIE :: u32 where
  [simp, abi_defs]: "DICEDEV_USER_CMD_TYPE_GET_DIE = 0x2"
definition DICEDEV_USER_CMD_TYPE_FENCE :: u32 where [simp, abi_defs]: "DICEDEV_USER_CMD_TYPE_FENCE = 0x3"
definition DICEDEV_USER_CMD_TYPE_NEW_SET :: u32 where
  [simp, abi_defs]: "DICEDEV_USER_CMD_TYPE_NEW_SET = 0x4"
definition DICEDEV_USER_CMD_TYPE_UNBIND_SLOT :: u32 where
  [simp, abi_defs]: "DICEDEV_USER_CMD_TYPE_UNBIND_SLOT = 0x5"

text \<open>Only one register feeds the command queue.\<close>

lemma feed_register [simp]:
  "DICEDEV_INTR \<noteq> CMD_MANUAL_FEED" "DICEDEV_INTR_ENABLE \<noteq> CMD_MANUAL_FEED"
  "DICEDEV_ENABLE \<noteq> CMD_MANUAL_FEED" "DICEDEV_INCREMENT_SEED \<noteq> CMD_MANUAL_FEED"
  "DICEDEV_CMD_FENCE_LAST \<noteq> CMD_MANUAL_FEED" "DICEDEV_CMD_FENCE_WAIT \<noteq> CMD_MANUAL_FEED"
  by (simp_all add: abi_defs)

section \<open>Structures passed by user programs\<close>

text \<open>
  The fields of the structures are prefixed with the structure's name, since Isabelle's
  record fields share one name space.
\<close>

record dicedev_ioctl_create_set =
  cs_size :: int
  cs_allowed :: u64

record dicedev_ioctl_run =
  run_cfd :: int
  run_addr :: u32
  run_size :: u32
  run_bfd :: int

record dicedev_ioctl_wait =
  wait_cnt :: u32

record dicedev_ioctl_seed =
  ioctl_seed :: u32

record dicedev_ioctl_seed_increment =
  enable_increment :: u32

record dice =
  dice_value :: u32
  dice_type :: u32

section \<open>Command headers\<close>

text \<open>
  A macro argument that the callers pass as \<^verbatim>\<open>int\<close> is an \<^typ>\<open>int\<close>, converted where C
  converts it; \<^verbatim>\<open>buff->seed\<close> is a \<^verbatim>\<open>size_t\<close>, so the bind header is computed in 64 bits
  and cut to the 32 bits of the command word it is stored in.
\<close>

definition DICEDEV_USER_CMD_BIND_SLOT_HEADER :: "int \<Rightarrow> u64 \<Rightarrow> u32" where
  "DICEDEV_USER_CMD_BIND_SLOT_HEADER SLOT SEED =
     ucast ((1 :: u64) OR push_bit 4 (word_of_int SLOT) OR push_bit 12 SEED)"

definition DICEDEV_USER_CMD_GET_DIE_HEADER :: "u32 \<Rightarrow> u32 \<Rightarrow> u32" where
  "DICEDEV_USER_CMD_GET_DIE_HEADER NUM OUTPUT_TYPE =
     DICEDEV_USER_CMD_TYPE_GET_DIE OR push_bit 4 NUM OR push_bit 20 OUTPUT_TYPE"

definition DICEDEV_USER_CMD_GET_DIE_HEADER_WSLOT :: "u32 \<Rightarrow> u32 \<Rightarrow> u32 \<Rightarrow> u32" where
  "DICEDEV_USER_CMD_GET_DIE_HEADER_WSLOT NUM OUTPUT_TYPE SLOT =
     DICEDEV_USER_CMD_TYPE_GET_DIE OR push_bit 4 NUM OR push_bit 20 OUTPUT_TYPE OR push_bit 24 SLOT"

definition DICEDEV_USER_CMD_FENCE_HEADER :: "u32 \<Rightarrow> u32" where
  "DICEDEV_USER_CMD_FENCE_HEADER NUM = DICEDEV_USER_CMD_TYPE_FENCE OR push_bit 4 NUM"

definition DICEDEV_USER_CMD_UNBIND_SLOT_HEADER :: "int \<Rightarrow> u32" where
  "DICEDEV_USER_CMD_UNBIND_SLOT_HEADER SLOT =
     DICEDEV_USER_CMD_TYPE_UNBIND_SLOT OR push_bit 4 (word_of_int SLOT)"

text \<open>A field of a command word: \<open>n\<close> bits from bit \<open>lo\<close> on.\<close>

definition field :: "nat \<Rightarrow> nat \<Rightarrow> u32 \<Rightarrow> u32" where
  "field lo n w = take_bit n (drop_bit lo w)"

lemma bit_field: "bit (field lo n w) k \<longleftrightarrow> k < n \<and> bit w (lo + k)"
  by (simp add: field_def bit_simps)

text \<open>The bits of the small numerals that name command types, and of small slot numbers.\<close>

lemma bit_small_numerals [simp]:
  "bit (1::'a::len word) k \<longleftrightarrow> k = 0"
  "bit (2::int) k \<longleftrightarrow> k = 1"
  "bit (3::int) k \<longleftrightarrow> k = 0 \<or> k = 1"
  "bit (4::int) k \<longleftrightarrow> k = 2"
  "bit (5::int) k \<longleftrightarrow> k = 0 \<or> k = 2"
  "bit (15::int) k \<longleftrightarrow> k < 4"
proof -
  show "bit (1::'a::len word) k \<longleftrightarrow> k = 0" by (simp add: bit_1_iff)
  have e: "(2::int) = 2 ^ 1" "(4::int) = 2 ^ 2" "(3::int) = mask 2" "(15::int) = mask 4"
      "(5::int) = 1 OR 4" by (simp_all add: mask_eq_exp_minus_1)
  show 2: "bit (2::int) k \<longleftrightarrow> k = 1" by (subst e(1), subst bit_exp_iff) auto
  show 4: "bit (4::int) k \<longleftrightarrow> k = 2" by (subst e(2), subst bit_exp_iff) auto
  show "bit (3::int) k \<longleftrightarrow> k = 0 \<or> k = 1" by (subst e(3), subst bit_mask_iff) auto
  show "bit (15::int) k \<longleftrightarrow> k < 4" by (subst e(4), subst bit_mask_iff) auto
  show "bit (5::int) k \<longleftrightarrow> k = 0 \<or> k = 2" 
    unfolding e(5) bit_or_iff using 4 by (auto simp: bit_1_iff)
qed

lemma bit_small_intD: "bit i k \<Longrightarrow> 0 \<le> i \<Longrightarrow> i < 2 ^ n \<Longrightarrow> k < n" for i :: int
  by (metis bit_take_bit_iff take_bit_int_eq_self)

lemma bind_header_fields:
  assumes "0 \<le> slot" "slot < 256"
  shows "field 0 4 (DICEDEV_USER_CMD_BIND_SLOT_HEADER slot seed) = 1"
    and "field 4 8 (DICEDEV_USER_CMD_BIND_SLOT_HEADER slot seed) = word_of_int slot"
    and "field 12 20 (DICEDEV_USER_CMD_BIND_SLOT_HEADER slot seed) = ucast (take_bit 20 seed)"
  using assms bit_small_intD [of slot _ 8]
  by (fastforce intro!: bit_word_eqI simp: bit_field DICEDEV_USER_CMD_BIND_SLOT_HEADER_def bit_simps)+

lemma unbind_header_fields:
  assumes "0 \<le> slot" "slot < 256"
  shows "field 0 4 (DICEDEV_USER_CMD_UNBIND_SLOT_HEADER slot) = 5"
    and "field 4 8 (DICEDEV_USER_CMD_UNBIND_SLOT_HEADER slot) = word_of_int slot"
  using assms bit_small_intD [of slot _ 8]
  by (fastforce intro!: bit_word_eqI simp: bit_field DICEDEV_USER_CMD_UNBIND_SLOT_HEADER_def bit_simps)+

end
