(* ===== verification/Dicedev_Types.thy ===== *)
theory Dicedev_Types
  imports Dicedev_Abi
begin

text \<open>
  The structures of \<^verbatim>\<open>dicedev_types.h\<close> and \<^verbatim>\<open>dicedev_pt.h\<close> and the kernel state they live
  in. A pointer to a structure is an address in the typed store of that structure
  (\<open>devs\<close>, \<open>ctxs\<close>, \<open>buffs\<close>, \<open>tasks\<close>, \<open>pts\<close>, \<open>files\<close>); \<open>kfree\<close> removes the address, so
  that a later access through a stale pointer is the fault \<^const>\<open>WILD\<close>.
\<close>

section \<open>Constants\<close>

definition DICEDEV_NUM_SLOTS :: nat where [simp, abi_defs]: "DICEDEV_NUM_SLOTS = 16"
definition DICEDEV_BUFFER_NO_SLOT :: int where [simp, abi_defs]: "DICEDEV_BUFFER_NO_SLOT = -1"
definition DICEDEV_DEFAULT_SEED :: u64 where [simp, abi_defs]: "DICEDEV_DEFAULT_SEED = 42"

definition DICEDEV_ACTIVE_INTR :: u32 where
  "DICEDEV_ACTIVE_INTR = DICEDEV_INTR_FENCE_WAIT OR DICEDEV_INTR_CMD_ERROR
     OR DICEDEV_INTR_MEM_ERROR OR DICEDEV_INTR_SLOT_ERROR"

definition DICEDEV_ALL_INTR :: u32 where
  "DICEDEV_ALL_INTR = DICEDEV_INTR_FENCE_WAIT OR DICEDEV_INTR_FEED_ERROR OR DICEDEV_INTR_CMD_ERROR
     OR DICEDEV_INTR_MEM_ERROR OR DICEDEV_INTR_SLOT_ERROR"

section \<open>The environment\<close>

text \<open>
  The driver talks to three things outside the repository: the device, through the
  registers of its BAR; the kernel's allocators; and the DMA mapping that gives an allocated
  page a bus address. The accesses to the BAR are kept as a list, oldest first. What a read
  returns is an arbitrary function of the accesses made so far, which covers every device:
  a reading may depend on the driver's writes, and on time through the reads before it.
  Whether the \<open>n\<close>-th allocation request succeeds is an arbitrary function of \<open>n\<close>.
\<close>

datatype mmio = IoRead u32 u32 | IoWrite u32 u32

record env =
  ioread :: "mmio list \<Rightarrow> u32 \<Rightarrow> u32"
  alloc_ok :: "nat \<Rightarrow> bool"
  dma_addr :: "ptr \<Rightarrow> u64"

section \<open>Structures\<close>

record dicedev_page =
  page :: "ptr option"
  dma_handler :: u64

record dicedev_page_table =
  pt_page :: dicedev_page
  pages :: "dicedev_page list"
  num_pages :: nat
  max_size :: u64

datatype dicedev_fence_state =
  DICEDEV_FENCE_STATE_NONE | DICEDEV_FENCE_STATE_WAITING | DICEDEV_FENCE_STATE_REACHED

text \<open>
  A spin lock is a flag that says whether it is held. A wait queue is the number of
  \<open>wake_up_interruptible\<close> calls made on it so far. The worker thread is what
  \<open>kthread_stop\<close> and \<open>kthread_park\<close> have asked of it.
\<close>

record kthread =
  should_stop :: bool
  should_park :: bool

record dicedev_device =
  idx :: nat
  dev_node :: bool
  bar :: "mmio list"
  slock :: bool
  feed_lock :: bool
  fence_state :: dicedev_fence_state
  dev_failed :: bool
  buff_slots :: "ptr option list"
  free_slots :: u64
  wt_thread :: kthread
  event_cond :: nat
  pending_tasks :: "ptr list"
  running_task :: "ptr option"

record dicedev_context =
  ctx_dev :: ptr
  ctx_failed :: bool
  task_count :: u64
  wq :: nat
  allocated_buffers :: "ptr list"

record dicedev_reader =
  reader_result_count :: u64
  reader_offset :: u64

record dicedev_buffer =
  buff_pt :: ptr
  buff_dev :: ptr
  buff_ctx :: ptr
  buff_file :: ptr
  destroyed :: bool
  seed :: u64
  seed_chg :: bool
  allowed :: u32
  usage_count :: u64
  binded_slot :: int
  reader :: dicedev_reader

record dicedev_task_write =
  w_cmd :: ptr
  w_cmd_size :: u64
  w_it_offset :: nat

record dicedev_task_run =
  r_cBuff :: ptr
  r_offset :: u64
  r_size :: u64
  r_curr_pg :: "ptr option"
  r_curr_pg_no :: nat
  r_curr_pg_off :: nat
  r_bytes_left :: u64

text \<open>The type tag of a task and its union are one datatype.\<close>

datatype dicedev_task_body =
    DICEDEV_TASK_TYPE_WRITE dicedev_task_write
  | DICEDEV_TASK_TYPE_RUN dicedev_task_run

record dicedev_task =
  t_ctx :: ptr
  t_result_count :: u64
  t_buff_out :: ptr
  t_body :: dicedev_task_body

text \<open>
  An open file of the kernel: what its \<open>private_data\<close> points to and its reference count.
  \<open>PrivOther\<close> is a file of another driver.
\<close>

datatype private_data = PrivNull | PrivCtx ptr | PrivBuff ptr | PrivOther

record kfile =
  private_data :: private_data
  f_count :: nat

section \<open>The kernel state\<close>

text \<open>
  Memory: the pages given out by \<open>dma_alloc_coherent\<close>, as 1024 words of 32 bits each, the
  next unused address, and the number of allocation requests made so far.
\<close>

record kmem =
  page_mem :: "ptr \<rightharpoonup> u32 list"
  next_ptr :: ptr
  clock :: nat

record kstate =
  mem :: kmem
  pts :: "ptr \<rightharpoonup> dicedev_page_table"
  devs :: "ptr \<rightharpoonup> dicedev_device"
  ctxs :: "ptr \<rightharpoonup> dicedev_context"
  buffs :: "ptr \<rightharpoonup> dicedev_buffer"
  tasks :: "ptr \<rightharpoonup> dicedev_task"
  cmds :: "ptr \<rightharpoonup> u32 list"
  files :: "ptr \<rightharpoonup> kfile"
  fds :: "int \<rightharpoonup> ptr"

subsection \<open>Assignments through a pointer\<close>

definition modify_dev :: "ptr \<Rightarrow> (dicedev_device \<Rightarrow> dicedev_device) \<Rightarrow> kstate \<Rightarrow> kstate result" where
  "modify_dev p f s = bindR (deref (devs s) p) (\<lambda>x. Inr (s\<lparr>devs := (devs s)(p \<mapsto> f x)\<rparr>))"

definition modify_ctx :: "ptr \<Rightarrow> (dicedev_context \<Rightarrow> dicedev_context) \<Rightarrow> kstate \<Rightarrow> kstate result" where
  "modify_ctx p f s = bindR (deref (ctxs s) p) (\<lambda>x. Inr (s\<lparr>ctxs := (ctxs s)(p \<mapsto> f x)\<rparr>))"

definition modify_buff :: "ptr \<Rightarrow> (dicedev_buffer \<Rightarrow> dicedev_buffer) \<Rightarrow> kstate \<Rightarrow> kstate result" where
  "modify_buff p f s = bindR (deref (buffs s) p) (\<lambda>x. Inr (s\<lparr>buffs := (buffs s)(p \<mapsto> f x)\<rparr>))"

definition modify_task :: "ptr \<Rightarrow> (dicedev_task \<Rightarrow> dicedev_task) \<Rightarrow> kstate \<Rightarrow> kstate result" where
  "modify_task p f s = bindR (deref (tasks s) p) (\<lambda>x. Inr (s\<lparr>tasks := (tasks s)(p \<mapsto> f x)\<rparr>))"

lemma modify_Some [simp, run_simps]:
  "devs s p = Some dv \<Longrightarrow> modify_dev p f s = Inr (s\<lparr>devs := (devs s)(p \<mapsto> f dv)\<rparr>)"
  "ctxs s p = Some c \<Longrightarrow> modify_ctx p g s = Inr (s\<lparr>ctxs := (ctxs s)(p \<mapsto> g c)\<rparr>)"
  "buffs s p = Some b \<Longrightarrow> modify_buff p h s = Inr (s\<lparr>buffs := (buffs s)(p \<mapsto> h b)\<rparr>)"
  "tasks s p = Some t \<Longrightarrow> modify_task p k s = Inr (s\<lparr>tasks := (tasks s)(p \<mapsto> k t)\<rparr>)"
  by (simp_all add: modify_dev_def modify_ctx_def modify_buff_def modify_task_def)

lemma modify_eq_Inr:
  "modify_dev p f s = Inr s' \<longleftrightarrow> (\<exists>dv. devs s p = Some dv \<and> s' = s\<lparr>devs := (devs s)(p \<mapsto> f dv)\<rparr>)"
  "modify_ctx p g s = Inr s' \<longleftrightarrow> (\<exists>c. ctxs s p = Some c \<and> s' = s\<lparr>ctxs := (ctxs s)(p \<mapsto> g c)\<rparr>)"
  "modify_buff p h s = Inr s' \<longleftrightarrow> (\<exists>b. buffs s p = Some b \<and> s' = s\<lparr>buffs := (buffs s)(p \<mapsto> h b)\<rparr>)"
  "modify_task p k s = Inr s' \<longleftrightarrow> (\<exists>t. tasks s p = Some t \<and> s' = s\<lparr>tasks := (tasks s)(p \<mapsto> k t)\<rparr>)"
  by (auto simp: modify_dev_def modify_ctx_def modify_buff_def modify_task_def)

subsection \<open>Spin locks and wait queues\<close>

text \<open>
  A handler runs while no other thread is inside the same critical section, so a lock found
  held was taken by the handler itself: spinning on it never ends.
\<close>

definition spin_lock_irqsave :: "ptr \<Rightarrow> kstate \<Rightarrow> kstate result" where
  "spin_lock_irqsave d s = bindR (deref (devs s) d) (\<lambda>dv.
     if slock dv then Inl DEADLOCK else modify_dev d (\<lambda>dv. dv\<lparr>slock := True\<rparr>) s)"

definition spin_unlock_irqrestore :: "ptr \<Rightarrow> kstate \<Rightarrow> kstate result" where
  "spin_unlock_irqrestore d s = modify_dev d (\<lambda>dv. dv\<lparr>slock := False\<rparr>) s"

definition wake_up_ctx :: "ptr \<Rightarrow> kstate \<Rightarrow> kstate result" where
  "wake_up_ctx c s = modify_ctx c (\<lambda>cx. cx\<lparr>wq := Suc (wq cx)\<rparr>) s"

definition wake_up_event_cond :: "ptr \<Rightarrow> kstate \<Rightarrow> kstate result" where
  "wake_up_event_cond d s = modify_dev d (\<lambda>dv. dv\<lparr>event_cond := Suc (event_cond dv)\<rparr>) s"

lemma spin_lock_free [simp, run_simps]:
  "devs s d = Some dv \<Longrightarrow> \<not> slock dv \<Longrightarrow>
   spin_lock_irqsave d s = Inr (s\<lparr>devs := (devs s)(d \<mapsto> dv\<lparr>slock := True\<rparr>)\<rparr>)"
  by (simp add: spin_lock_irqsave_def)

lemma spin_lock_held [simp, run_simps]:
  "devs s d = Some dv \<Longrightarrow> slock dv \<Longrightarrow> spin_lock_irqsave d s = Inl DEADLOCK"
  by (simp add: spin_lock_irqsave_def)

lemma spin_unlock_Some [simp, run_simps]:
  "devs s d = Some dv \<Longrightarrow>
   spin_unlock_irqrestore d s = Inr (s\<lparr>devs := (devs s)(d \<mapsto> dv\<lparr>slock := False\<rparr>)\<rparr>)"
  by (simp add: spin_unlock_irqrestore_def)

lemma wake_up_Some [simp, run_simps]:
  "ctxs s c = Some cx \<Longrightarrow>
   wake_up_ctx c s = Inr (s\<lparr>ctxs := (ctxs s)(c \<mapsto> cx\<lparr>wq := Suc (wq cx)\<rparr>)\<rparr>)"
  "devs s d = Some dv \<Longrightarrow>
   wake_up_event_cond d s = Inr (s\<lparr>devs := (devs s)(d \<mapsto> dv\<lparr>event_cond := Suc (event_cond dv)\<rparr>)\<rparr>)"
  by (simp_all add: wake_up_ctx_def wake_up_event_cond_def)

subsection \<open>Allocation\<close>

text \<open>
  \<open>alloc\<close> is a request to \<open>kmalloc\<close>, \<open>kzalloc\<close> or \<open>dma_alloc_coherent\<close>: a fresh address,
  or nothing. \<open>dma_alloc_coherent\<close> with \<open>__GFP_ZERO\<close> gives a page of zeros.
\<close>

definition alloc :: "env \<Rightarrow> kmem \<Rightarrow> ptr option \<times> kmem" where
  "alloc E m = (if alloc_ok E (clock m)
     then (Some (next_ptr m), m\<lparr>next_ptr := Suc (next_ptr m), clock := Suc (clock m)\<rparr>)
     else (None, m\<lparr>clock := Suc (clock m)\<rparr>))"

definition dma_alloc_coherent :: "env \<Rightarrow> kmem \<Rightarrow> (ptr \<times> u64) option \<times> kmem" where
  "dma_alloc_coherent E m = (case alloc E m of
     (None, m) \<Rightarrow> (None, m)
   | (Some p, m) \<Rightarrow> (Some (p, dma_addr E p), m\<lparr>page_mem := (page_mem m)(p \<mapsto> replicate 1024 0)\<rparr>))"

definition dma_free_coherent :: "ptr option \<Rightarrow> kmem \<Rightarrow> kmem result" where
  "dma_free_coherent p m = bindR (not_null p) (\<lambda>p.
     bindR (deref (page_mem m) p) (\<lambda>_. Inr (m\<lparr>page_mem := (page_mem m)(p := None)\<rparr>)))"

end
