(* ===== verification/Dicedev_Pt.thy ===== *)
theory Dicedev_Pt
  imports Dicedev_Types
begin

text \<open>
  The page tables of \<^verbatim>\<open>dicedev_pt.c\<close>: a table page whose 32-bit entries hold the bus
  addresses of the data pages of a buffer. The lemmas show what a table owns after a
  successful initialisation, that a failed one gives back every page it took, and that
  freeing a table gives back exactly the pages it owns.
\<close>

section \<open>Entries\<close>

definition PRESENT :: "u32 \<Rightarrow> bool" where
  "PRESENT x \<longleftrightarrow> x AND 0x1 \<noteq> 0"

definition MAKE_PT_ENTRY :: "u64 \<Rightarrow> u32" where
  "MAKE_PT_ENTRY addr = ucast (0x1 OR drop_bit 8 addr :: u64)"

section \<open>Operations\<close>

text \<open>
  An \<open>int\<close> return that is 0 or a negative error number is an \<^typ>\<open>errno option\<close>. A pointer
  argument that the code tests for NULL is an option; the structure it points to is
  returned updated.
\<close>

definition page_init :: "env \<Rightarrow> dicedev_page option \<Rightarrow> kmem \<Rightarrow> errno option \<times> dicedev_page option \<times> kmem" where
  "page_init E p m = (case p of
     None \<Rightarrow> (Some EINVAL, None, m)
   | Some p \<Rightarrow> (case dma_alloc_coherent E m of
       (None, m) \<Rightarrow> (Some ENOMEM, Some (p\<lparr>page := None\<rparr>), m)
     | (Some (a, h), m) \<Rightarrow> (None, Some (p\<lparr>page := Some a, dma_handler := h\<rparr>), m)))"

definition page_free :: "dicedev_page option \<Rightarrow> kmem \<Rightarrow> kmem result" where
  "page_free p m = (case p of None \<Rightarrow> Inr m | Some p \<Rightarrow> dma_free_coherent (page p) m)"

text \<open>The accesses \<open>page_entries[i]\<close>, where \<open>page_entries\<close> is the table page.\<close>

definition read_entry :: "ptr option \<Rightarrow> nat \<Rightarrow> kmem \<Rightarrow> u32 result" where
  "read_entry ep i m = bindR (not_null ep) (\<lambda>ep. bindR (deref (page_mem m) ep) (\<lambda>es. index es i))"

definition write_entry :: "ptr option \<Rightarrow> nat \<Rightarrow> u32 \<Rightarrow> kmem \<Rightarrow> kmem result" where
  "write_entry ep i v m = bindR (not_null ep) (\<lambda>ep. bindR (deref (page_mem m) ep) (\<lambda>es.
     bindR (store es i v) (\<lambda>es. Inr (m\<lparr>page_mem := (page_mem m)(ep \<mapsto> es)\<rparr>))))"

text \<open>The loop that allocates the data pages; its flag says whether every page was obtained.\<close>

fun pt_fill :: "env \<Rightarrow> ptr option \<Rightarrow> nat list \<Rightarrow> dicedev_page list \<Rightarrow> kmem \<Rightarrow>
    (bool \<times> dicedev_page list \<times> kmem) result" where
  "pt_fill E ep [] ps m = Inr (True, ps, m)"
| "pt_fill E ep (i # is) ps m = bindR (index ps i) (\<lambda>p.
     case page_init E (Some p) m of
       (Some _, p', m) \<Rightarrow> bindR (not_null p') (\<lambda>p'. bindR (store ps i p') (\<lambda>ps. Inr (False, ps, m)))
     | (None, p', m) \<Rightarrow> bindR (not_null p') (\<lambda>p'. bindR (store ps i p') (\<lambda>ps.
         bindR (write_entry ep i (MAKE_PT_ENTRY (dma_handler p')) m) (\<lambda>m.
           pt_fill E ep is ps m))))"

text \<open>The loop that frees the data pages up to the first entry that is not present.\<close>

fun pt_free_pages :: "ptr option \<Rightarrow> nat list \<Rightarrow> dicedev_page list \<Rightarrow> kmem \<Rightarrow> kmem result" where
  "pt_free_pages ep [] ps m = Inr m"
| "pt_free_pages ep (i # is) ps m = bindR (read_entry ep i m) (\<lambda>e.
     if PRESENT e
     then bindR (index ps i) (\<lambda>p. bindR (page_free (Some p) m) (\<lambda>m. pt_free_pages ep is ps m))
     else Inr m)"

definition dicedev_pt_init :: "env \<Rightarrow> dicedev_page_table option \<Rightarrow> u64 \<Rightarrow> kmem \<Rightarrow>
    (errno option \<times> dicedev_page_table option \<times> kmem) result" where
  "dicedev_pt_init E page_table sz m = (case page_table of
     None \<Rightarrow> Inr (Some EINVAL, None, m)
   | Some t \<Rightarrow> (case page_init E (Some (pt_page t)) m of
       (Some _, p, m) \<Rightarrow> bindR (not_null p) (\<lambda>p. Inr (Some ENOMEM, Some (t\<lparr>pt_page := p\<rparr>), m))
     | (None, p, m) \<Rightarrow> bindR (not_null p) (\<lambda>p.
         let n = unat ((sz + 0x1000 - 1) div 0x1000);
             t = t\<lparr>pt_page := p, max_size := sz, num_pages := n\<rparr>
         in case alloc E m of
              (None, m) \<Rightarrow> bindR (page_free (Some (pt_page t)) m) (\<lambda>m.
                Inr (Some ENOMEM, Some (t\<lparr>pages := []\<rparr>), m))
            | (Some _, m) \<Rightarrow>
                bindR (pt_fill E (page p) [0..<n] (replicate n \<lparr>page = None, dma_handler = 0\<rparr>) m)
                  (\<lambda>(ok, ps, m).
                     if ok then Inr (None, Some (t\<lparr>pages := ps\<rparr>), m)
                     else bindR (pt_free_pages (page p) [0..<n] ps m) (\<lambda>m.
                          bindR (page_free (Some (pt_page t)) m) (\<lambda>m.
                          Inr (Some ENOMEM, Some (t\<lparr>pages := []\<rparr>), m)))))))"

definition dicedev_pt_free :: "dicedev_page_table option \<Rightarrow> kmem \<Rightarrow> kmem result" where
  "dicedev_pt_free page_table m = (case page_table of
     None \<Rightarrow> Inr m
   | Some t \<Rightarrow> bindR (pt_free_pages (page (pt_page t)) [0..<num_pages t] (pages t) m) (\<lambda>m.
       page_free (Some (pt_page t)) m))"

section \<open>Entries: the address survives\<close>

lemma PRESENT_iff: "PRESENT x \<longleftrightarrow> bit x 0"
  by (simp add: PRESENT_def and_one_eq odd_iff_mod_2_eq_one bit_0)

lemma MAKE_PT_ENTRY_present [simp]: "PRESENT (MAKE_PT_ENTRY a)"
  by (simp add: PRESENT_iff MAKE_PT_ENTRY_def bit_simps)

lemma zero_not_present [simp]: "\<not> PRESENT 0"
  by (simp add: PRESENT_def)

text \<open>The bus address an entry stands for: the entry without its flag bits, shifted back.\<close>

definition pt_entry_addr :: "u32 \<Rightarrow> u64" where
  "pt_entry_addr e = push_bit 8 (ucast (e AND NOT 0xF))"

section \<open>What a table owns\<close>

definition kmem_ok :: "kmem \<Rightarrow> bool" where
  "kmem_ok m \<longleftrightarrow> (\<forall>p w. page_mem m p = Some w \<longrightarrow> p < next_ptr m \<and> length w = 1024)"

definition mk_page :: "env \<Rightarrow> ptr \<Rightarrow> dicedev_page" where
  "mk_page E q = \<lparr>page = Some q, dma_handler = dma_addr E q\<rparr>"

definition entries :: "env \<Rightarrow> ptr list \<Rightarrow> u32 list" where
  "entries E qs = map (\<lambda>q. MAKE_PT_ENTRY (dma_addr E q)) qs @ replicate (1024 - length qs) 0"

definition pt_owns :: "env \<Rightarrow> kmem \<Rightarrow> dicedev_page_table \<Rightarrow> ptr \<Rightarrow> ptr list \<Rightarrow> bool" where
  "pt_owns E m t ep qs \<longleftrightarrow>
     pt_page t = mk_page E ep \<and> pages t = map (mk_page E) qs \<and> num_pages t = length qs \<and>
     length qs \<le> 1024 \<and> distinct (ep # qs) \<and> page_mem m ep = Some (entries E qs) \<and>
     (\<forall>q \<in> set qs. \<exists>w. page_mem m q = Some w \<and> length w = 1024)"

lemma page_mk_page [simp]: "page (mk_page E q) = Some q" "dma_handler (mk_page E q) = dma_addr E q"
  by (simp_all add: mk_page_def)

lemma length_entries [simp]: "length qs \<le> 1024 \<Longrightarrow> length (entries E qs) = 1024"
  by (simp add: entries_def)

lemma entries_nth:
  "i < length qs \<Longrightarrow> entries E qs ! i = MAKE_PT_ENTRY (dma_addr E (qs ! i))"
  "length qs \<le> i \<Longrightarrow> i < 1024 \<Longrightarrow> entries E qs ! i = 0"
  by (simp_all add: entries_def nth_append)

lemma entries_snoc:
  "length qs < 1024 \<Longrightarrow>
   (entries E qs)[length qs := MAKE_PT_ENTRY (dma_addr E q)] = entries E (qs @ [q])"
  by (rule nth_equalityI) (auto simp: entries_def nth_append nth_list_update)

lemma kmem_ok_fresh: "kmem_ok m \<Longrightarrow> page_mem m (next_ptr m) = None"
  by (metis kmem_ok_def less_irrefl option.exhaust)

lemma kmem_ok_restrict: "kmem_ok m \<Longrightarrow> kmem_ok (m\<lparr>page_mem := page_mem m |` A\<rparr>)"
  by (auto simp: kmem_ok_def restrict_map_def split: if_splits)

subsection \<open>Freeing\<close>

lemma pt_free_pages_owned:
  assumes "page_mem m ep = Some es" "length es = 1024" "n \<le> 1024" "length xs \<le> n"
    and "\<forall>i < length xs. PRESENT (es ! i)" "\<forall>i. length xs \<le> i \<longrightarrow> i < n \<longrightarrow> \<not> PRESENT (es ! i)"
    and "\<forall>i < length xs. i < length ps \<and> page (ps ! i) = Some (xs ! i)"
    and "distinct (ep # xs)" "k \<le> length xs" "\<forall>q \<in> set (drop k xs). page_mem m q \<noteq> None"
  shows "pt_free_pages (Some ep) [k..<n] ps m
       = Inr (m\<lparr>page_mem := (page_mem m) |` (- set (drop k xs))\<rparr>)"
  using assms
proof (induction "length xs - k" arbitrary: k m)
  case 0
  then have k: "k = length xs" by simp
  show ?case
  proof (cases "k < n")
    case True
    with 0 k show ?thesis by (simp add: upt_conv_Cons read_entry_def)
  qed (use k in simp)
next
  case (Suc j)
  then have k: "k < length xs" "k < n" by simp_all
  let ?q = "xs ! k" and ?m = "m\<lparr>page_mem := (page_mem m)(xs ! k := None)\<rparr>"
  have dr: "drop k xs = ?q # drop (Suc k) xs" using k by (simp add: Cons_nth_drop_Suc)
  have ds: "?q \<noteq> ep" "?q \<notin> set (drop (Suc k) xs)"
    using Suc.prems(8) k dr by (auto dest: distinct_drop [where i = k])
  obtain w where w: "page_mem m ?q = Some w" using Suc.prems(10) dr by auto
  have "pt_free_pages (Some ep) [Suc k..<n] ps ?m
      = Inr (?m\<lparr>page_mem := (page_mem ?m) |` (- set (drop (Suc k) xs))\<rparr>)"
    using Suc.hyps(2) Suc.prems k ds by (intro Suc.hyps(1)) (auto simp: dr)
  moreover have "(page_mem ?m) |` (- set (drop (Suc k) xs)) = (page_mem m) |` (- set (drop k xs))"
    by (auto simp: fun_eq_iff restrict_map_def dr)
  ultimately show ?case
    using Suc.prems k w by (simp add: upt_conv_Cons read_entry_def page_free_def dma_free_coherent_def)
qed

lemma pt_free_owned:
  assumes "pt_owns E m t ep qs"
  shows "dicedev_pt_free (Some t) m = Inr (m\<lparr>page_mem := (page_mem m) |` (- set (ep # qs))\<rparr>)"
proof -
  let ?m = "m\<lparr>page_mem := (page_mem m) |` (- set qs)\<rparr>"
  have "pt_free_pages (Some ep) [0..<length qs] (map (mk_page E) qs) m = Inr ?m"
    using assms pt_free_pages_owned [of m ep "entries E qs" "length qs" qs "map (mk_page E) qs" 0]
    by (fastforce simp: pt_owns_def entries_nth)
  moreover have "?m\<lparr>page_mem := (page_mem ?m)(ep := None)\<rparr> = m\<lparr>page_mem := (page_mem m) |` (- set (ep # qs))\<rparr>"
    by (auto simp: fun_eq_iff restrict_map_def)
  ultimately show ?thesis
    using assms by (simp add: dicedev_pt_free_def pt_owns_def page_free_def dma_free_coherent_def)
qed

subsection \<open>Filling\<close>

text \<open>
  While the table is filled: \<open>base\<close> is the memory before the call, \<open>qs\<close> the data pages
  obtained so far.
\<close>

definition filled :: "env \<Rightarrow> (ptr \<rightharpoonup> u32 list) \<Rightarrow> ptr \<Rightarrow> ptr list \<Rightarrow> kmem \<Rightarrow> bool" where
  "filled E base ep qs m \<longleftrightarrow>
     distinct (ep # qs) \<and> base ep = None \<and> (\<forall>q \<in> set qs. base q = None) \<and>
     page_mem m = (\<lambda>p. if p \<in> set qs then Some (replicate 1024 0)
                       else if p = ep then Some (entries E qs) else base p)"

abbreviation zero_page :: dicedev_page where
  "zero_page \<equiv> \<lparr>page = None, dma_handler = 0\<rparr>"

lemma kmem_ok_alloc: "kmem_ok m \<Longrightarrow> alloc E m = (r, m') \<Longrightarrow> kmem_ok m' \<and> page_mem m' = page_mem m"
  by (auto simp: alloc_def kmem_ok_def less_SucI split: if_splits)

lemma filled_step:
  assumes "filled E base ep qs m" "kmem_ok m" "length qs < 1024" "alloc_ok E (clock m)"
  defines "q \<equiv> next_ptr m"
  defines "m1 \<equiv> m\<lparr>next_ptr := Suc q, clock := Suc (clock m),
                   page_mem := (page_mem m)(q \<mapsto> replicate 1024 0)\<rparr>"
  shows "\<exists>m2. write_entry (Some ep) (length qs) (MAKE_PT_ENTRY (dma_addr E q)) m1 = Inr m2
       \<and> filled E base ep (qs @ [q]) m2 \<and> kmem_ok m2"
proof -
  have fresh: "page_mem m q = None" using assms(2) by (simp add: q_def kmem_ok_fresh)
  then have q: "q \<notin> set qs" "q \<noteq> ep" "base q = None"
    using assms(1) by (auto simp: filled_def split: if_splits)
  have e: "page_mem m1 ep = Some (entries E qs)"
    using assms(1) q by (simp add: filled_def m1_def)
  let ?m2 = "m1\<lparr>page_mem := (page_mem m1)(ep \<mapsto> entries E (qs @ [q]))\<rparr>"
  have "write_entry (Some ep) (length qs) (MAKE_PT_ENTRY (dma_addr E q)) m1 = Inr ?m2"
    using assms(3) e by (simp add: write_entry_def entries_snoc)
  moreover have "filled E base ep (qs @ [q]) ?m2"
    using assms(1) q by (auto simp: filled_def m1_def fun_eq_iff)
  moreover have "kmem_ok ?m2"
    using assms(2,3) q by (auto simp: kmem_ok_def m1_def q_def filled_def less_SucI split: if_splits)
      (use assms(1) in \<open>auto simp: filled_def intro: less_SucI\<close>)
  ultimately show ?thesis by blast
qed

lemma pt_fill_spec:
  assumes "filled E base ep qs m" "kmem_ok m" "length qs \<le> n" "n \<le> 1024"
  shows "\<exists>ok ps m' rs.
     pt_fill E (Some ep) [length qs..<n] (map (mk_page E) qs @ replicate (n - length qs) zero_page) m
       = Inr (ok, ps, m') \<and> filled E base ep rs m' \<and> kmem_ok m' \<and>
     (if ok then length rs = n \<and> ps = map (mk_page E) rs
      else length rs < n \<and> ps = map (mk_page E) rs @ replicate (n - length rs) zero_page)"
  using assms
proof (induction "n - length qs" arbitrary: qs m)
  case 0
  then show ?case by (intro exI [of _ True]) auto
next
  case (Suc k)
  let ?ps = "map (mk_page E) qs @ replicate (n - length qs) zero_page"
  have n: "length qs < n" using Suc.hyps(2) by simp
  have zp: "?ps ! length qs = zero_page" using n by (simp add: nth_append)
  show ?case
  proof (cases "alloc_ok E (clock m)")
    case False
    have "filled E base ep qs (m\<lparr>clock := Suc (clock m)\<rparr>)" "kmem_ok (m\<lparr>clock := Suc (clock m)\<rparr>)"
      using Suc.prems by (simp_all add: filled_def kmem_ok_def)
    moreover have "?ps[length qs := zero_page] = ?ps" using zp by (metis list_update_id)
    ultimately show ?thesis
      using False n zp
      by (intro exI [of _ False]) (auto simp: upt_conv_Cons page_init_def dma_alloc_coherent_def alloc_def)
  next
    case True
    let ?q = "next_ptr m"
    obtain m2 where m2: "write_entry (Some ep) (length qs) (MAKE_PT_ENTRY (dma_addr E ?q))
        (m\<lparr>next_ptr := Suc ?q, clock := Suc (clock m),
           page_mem := (page_mem m)(?q \<mapsto> replicate 1024 0)\<rparr>) = Inr m2" "filled E base ep (qs @ [?q]) m2" "kmem_ok m2"
      using filled_step [OF Suc.prems(1,2) _ True] n Suc.prems(4) by auto
    have up: "?ps[length qs := mk_page E ?q]
        = map (mk_page E) (qs @ [?q]) @ replicate (n - length (qs @ [?q])) zero_page"
      using n by (cases "n - length qs") (auto simp: list_update_append)
    have "pt_fill E (Some ep) [length qs..<n] ?ps m = pt_fill E (Some ep) [length (qs @ [?q])..<n]
        (map (mk_page E) (qs @ [?q]) @ replicate (n - length (qs @ [?q])) zero_page) m2"
      using n True zp up m2(1)
      by (simp add: upt_conv_Cons page_init_def dma_alloc_coherent_def alloc_def mk_page_def)
    then show ?thesis
      using Suc.hyps(1) [of "qs @ [?q]" m2] Suc.hyps(2) n Suc.prems(4) m2(2,3) by simp
  qed
qed

section \<open>Initialisation\<close>

lemma num_pages_bound: "unat sz \<le> 0x400000 \<Longrightarrow> unat ((sz + 0x1000 - 1) div 0x1000 :: u64) \<le> 1024"
  and num_pages_ceil: "unat sz \<le> 0x400000 \<Longrightarrow>
    unat ((sz + 0x1000 - 1) div 0x1000 :: u64) = (unat sz + 4095) div 4096"
proof -
  assume sz: "unat sz \<le> 0x400000"
  have "unat (sz + 0xFFF) = unat sz + 0xFFF"
    using sz by (subst unat_add_lem [THEN iffD1]) simp_all
  moreover have "sz + 0x1000 - 1 = sz + 0xFFF" by simp
  ultimately show "unat ((sz + 0x1000 - 1) div 0x1000 :: u64) = (unat sz + 4095) div 4096"
    by (simp only: unat_div) simp
  then show "unat ((sz + 0x1000 - 1) div 0x1000 :: u64) \<le> 1024" using sz by simp
qed

text \<open>The memory after the table page has been obtained.\<close>

definition with_page :: "kmem \<Rightarrow> kmem" where
  "with_page m = m\<lparr>next_ptr := Suc (next_ptr m), clock := Suc (clock m),
     page_mem := (page_mem m)(next_ptr m \<mapsto> replicate 1024 0)\<rparr>"

lemma page_init_ok:
  "alloc_ok E (clock m) \<Longrightarrow> page_init E (Some p) m = (None, Some (mk_page E (next_ptr m)), with_page m)"
  by (simp add: page_init_def dma_alloc_coherent_def alloc_def with_page_def mk_page_def)

lemma filled_start:
  assumes "kmem_ok m"
  shows "filled E (page_mem m) (next_ptr m) [] (with_page m)" and "kmem_ok (with_page m)"
  using kmem_ok_fresh [OF assms] assms
  by (auto simp: with_page_def filled_def entries_def fun_eq_iff kmem_ok_def less_SucI)

lemma filled_owns:
  "filled E base ep qs m \<Longrightarrow> length qs \<le> 1024 \<Longrightarrow> pt_page t = mk_page E ep \<Longrightarrow>
   pages t = map (mk_page E) qs \<Longrightarrow> num_pages t = length qs \<Longrightarrow> pt_owns E m t ep qs"
  by (auto simp: filled_def pt_owns_def)

lemma filled_frame:
  "filled E base ep qs m \<Longrightarrow> set (ep # qs) \<inter> dom base = {} \<and> page_mem m |` (- set (ep # qs)) = base
     \<and> (\<forall>q \<in> set qs. page_mem m q = Some (replicate 1024 0))"
  by (auto simp: filled_def fun_eq_iff restrict_map_def)

lemma filled_release:
  assumes "filled E base ep qs m" "length qs < n" "n \<le> 1024"
  shows "bindR (pt_free_pages (Some ep) [0..<n]
            (map (mk_page E) qs @ replicate (n - length qs) zero_page) m)
            (page_free (Some (mk_page E ep))) = Inr (m\<lparr>page_mem := base\<rparr>)"
proof -
  let ?m = "m\<lparr>page_mem := (page_mem m) |` (- set qs)\<rparr>"
  have "pt_free_pages (Some ep) [0..<n] (map (mk_page E) qs @ replicate (n - length qs) zero_page) m = Inr ?m"
    using assms pt_free_pages_owned [of m ep "entries E qs" n qs
        "map (mk_page E) qs @ replicate (n - length qs) zero_page" 0]
    by (fastforce simp: filled_def entries_nth nth_append)
  moreover have "page_mem ?m ep = Some (entries E qs)" "(page_mem ?m)(ep := None) = base"
    using assms(1) by (auto simp: filled_def fun_eq_iff restrict_map_def)
  ultimately show ?thesis by (simp add: page_free_def dma_free_coherent_def)
qed

text \<open>Giving back what was taken leaves a well-formed memory.\<close>

lemma kmem_ok_restore:
  assumes "kmem_ok m'" "filled E base ep qs m'"
  shows "kmem_ok (m'\<lparr>page_mem := base\<rparr>)"
proof -
  have "base p = Some w \<Longrightarrow> page_mem m' p = Some w" for p w
    using assms(2) by (auto simp: filled_def)
  then show ?thesis using assms(1) by (auto simp: kmem_ok_def)
qed

text \<open>The two outcomes of an initialisation.\<close>

lemma pt_init_spec:
  assumes "kmem_ok m" "unat sz \<le> 0x400000"
  shows "\<exists>err t' m'. dicedev_pt_init E (Some t) sz m = Inr (err, Some t', m') \<and> kmem_ok m' \<and>
    (case err of
       None \<Rightarrow> \<exists>ep qs. pt_owns E m' t' ep qs \<and> num_pages t' = (unat sz + 4095) div 4096
         \<and> max_size t' = sz \<and> (\<forall>q \<in> set qs. page_mem m' q = Some (replicate 1024 0))
         \<and> set (ep # qs) \<inter> dom (page_mem m) = {} \<and> page_mem m' |` (- set (ep # qs)) = page_mem m
     | Some e \<Rightarrow> e = ENOMEM \<and> page_mem m' = page_mem m)"
proof (cases "alloc_ok E (clock m)")
  case False
  then show ?thesis using assms(1)
    by (auto simp: dicedev_pt_init_def page_init_def dma_alloc_coherent_def alloc_def kmem_ok_def)
next
  case True
  let ?ep = "next_ptr m" and ?n = "unat ((sz + 0x1000 - 1) div 0x1000)"
  obtain r m2 where a: "alloc E (with_page m) = (r, m2)" by fastforce
  then have m2: "kmem_ok m2" "page_mem m2 = page_mem (with_page m)"
    using kmem_ok_alloc filled_start(2) assms(1) by blast+
  then have f2: "filled E (page_mem m) ?ep [] m2"
    using filled_start(1) [OF assms(1)] by (simp add: filled_def)
  note run = dicedev_pt_init_def page_init_ok [OF True] a
  show ?thesis
  proof (cases r)
    case None
    moreover have "page_free (Some (mk_page E ?ep)) m2 = Inr (m2\<lparr>page_mem := page_mem m\<rparr>)"
      using filled_release [OF f2, of 1] m2 by (simp add: read_entry_def with_page_def)
    ultimately show ?thesis using kmem_ok_restore [OF m2(1) f2] by (simp add: run)
  next
    case (Some x)
    have n: "?n \<le> 1024" using assms(2) by (rule num_pages_bound)
    obtain ok ps m3 qs where fill: "pt_fill E (Some ?ep) [0..<?n] (replicate ?n zero_page) m2 = Inr (ok, ps, m3)"
      and f3: "filled E (page_mem m) ?ep qs m3" "kmem_ok m3"
      and ok: "if ok then length qs = ?n \<and> ps = map (mk_page E) qs
          else length qs < ?n \<and> ps = map (mk_page E) qs @ replicate (?n - length qs) zero_page"
      using pt_fill_spec [OF f2 m2(1) _ n] by auto
    let ?t = "t\<lparr>pt_page := mk_page E ?ep, max_size := sz, num_pages := ?n, pages := ps\<rparr>"
    show ?thesis
    proof (cases ok)
      case True
      then have "pt_owns E m3 ?t ?ep qs" using ok n f3 by (intro filled_owns) auto
      then show ?thesis
        using True Some fill f3(2) filled_frame [OF f3(1)] num_pages_ceil [OF assms(2)]
        by (auto simp: run simp del: set_simps)
    next
      case False
      then show ?thesis
        using Some fill ok filled_release [OF f3(1) _ n] kmem_ok_restore [OF f3(2,1)]
        by (auto simp: run bindR_def split: sum.splits)
    qed
  qed
qed

text \<open>Addresses are never given out again.\<close>

lemma alloc_mono: "alloc E m = (r, m') \<Longrightarrow> next_ptr m \<le> next_ptr m'"
  by (auto simp: alloc_def split: if_splits)

lemma page_init_mono: "page_init E p m = (e, p', m') \<Longrightarrow> next_ptr m \<le> next_ptr m'"
  by (auto simp: page_init_def dma_alloc_coherent_def alloc_def split: option.splits prod.splits if_splits)

lemma free_keeps_ptr:
  "page_free p m = Inr m' \<Longrightarrow> next_ptr m' = next_ptr m"
  "pt_free_pages ep is ps m = Inr m' \<Longrightarrow> next_ptr m' = next_ptr m"
proof -
  show f: "page_free p m = Inr m' \<Longrightarrow> next_ptr m' = next_ptr m" for p m m'
    by (auto simp: page_free_def dma_free_coherent_def split: option.splits)
  show "pt_free_pages ep is ps m = Inr m' \<Longrightarrow> next_ptr m' = next_ptr m"
    by (induction "is" arbitrary: m) (auto dest!: f split: if_splits)
qed

lemma pt_fill_mono: "pt_fill E ep is ps m = Inr (ok, ps', m') \<Longrightarrow> next_ptr m \<le> next_ptr m'"
proof (induction "is" arbitrary: ps m)
  case (Cons i "is")
  obtain e p' m1 where p: "page_init E (Some (ps ! i)) m = (e, p', m1)" by (cases "page_init E (Some (ps ! i)) m") auto
  show ?case
  proof (cases e)
    case None
    then obtain ps1 m2 where "pt_fill E ep is ps1 m2 = Inr (ok, ps', m')" "next_ptr m2 = next_ptr m1"
      using Cons.prems p by (auto simp: write_entry_def)
    then show ?thesis using Cons.IH page_init_mono [OF p] by fastforce
  next
    case (Some x)
    then show ?thesis using Cons.prems page_init_mono [OF p] p by auto
  qed
qed simp

lemma pt_init_mono:
  assumes "dicedev_pt_init E (Some t) sz m = Inr (err, t', m')"
  shows "next_ptr m \<le> next_ptr m'"
proof -
  obtain e p m1 where p: "page_init E (Some (pt_page t)) m = (e, p, m1)" by (cases "page_init E (Some (pt_page t)) m") auto
  obtain r m2 where a: "alloc E m1 = (r, m2)" by fastforce
  have le: "next_ptr m \<le> next_ptr m1" "next_ptr m1 \<le> next_ptr m2" using page_init_mono [OF p] alloc_mono [OF a] by auto
  then show ?thesis
    using assms p a by (cases e; cases r)
      (auto simp: dicedev_pt_init_def Let_def dest!: pt_fill_mono free_keeps_ptr split: if_splits)
qed

lemma pt_free_keeps_ptr: "dicedev_pt_free t m = Inr m' \<Longrightarrow> next_ptr m' = next_ptr m"
  by (auto simp: dicedev_pt_free_def dest!: free_keeps_ptr split: option.splits)

text \<open>When the next allocations succeed, so do the functions that make them.\<close>

definition plenty :: "env \<Rightarrow> nat \<Rightarrow> kmem \<Rightarrow> bool" where
  "plenty E k m \<longleftrightarrow> (\<forall>n < k. alloc_ok E (clock m + n))"

lemma plenty_Suc: "plenty E (Suc k) m \<longleftrightarrow> alloc_ok E (clock m) \<and> (\<forall>n < k. alloc_ok E (Suc (clock m + n)))"
  unfolding plenty_def by (simp add: All_less_Suc2)

lemma plenty_alloc: "plenty E (Suc k) m \<Longrightarrow> clock m' = Suc (clock m) \<Longrightarrow> plenty E k m'"
  unfolding plenty_Suc by (simp add: plenty_def)

lemma plenty_le: "plenty E k m \<Longrightarrow> j \<le> k \<Longrightarrow> plenty E j m"
  by (simp add: plenty_def)

lemma pt_fill_plenty:
  "plenty E (length is) m \<Longrightarrow> pt_fill E ep is ps m = Inr (ok, ps', m') \<Longrightarrow> ok \<and> clock m' = clock m + length is"
proof (induction "is" arbitrary: ps m)
  case (Cons i "is")
  have a: "alloc_ok E (clock m)" using Cons.prems(1) by (simp add: plenty_Suc)
  obtain ps1 m1 where m1: "clock m1 = Suc (clock m)" "pt_fill E ep is ps1 m1 = Inr (ok, ps', m')"
    using Cons.prems(2) page_init_ok [OF a] by (auto simp: write_entry_def with_page_def intro: that [rotated])
  have "plenty E (length is) m1" by (rule plenty_alloc [OF _ m1(1)]) (use Cons.prems(1) in simp)
  then show ?case using Cons.IH [OF _ m1(2)] m1(1) by simp
qed simp

lemma pt_init_plenty:
  assumes p: "plenty E (unat ((sz + 0x1000 - 1) div 0x1000) + 2) m" and r: "dicedev_pt_init E (Some t) sz m = Inr (err, t', m')"
  shows "err = None \<and> clock m' = clock m + unat ((sz + 0x1000 - 1) div 0x1000) + 2"
proof -
  let ?n = "unat ((sz + 0x1000 - 1) div 0x1000)"
  have a: "alloc_ok E (clock m)" "alloc_ok E (Suc (clock m))" using p unfolding plenty_def by (auto dest: spec [of _ 0] spec [of _ 1])
  let ?m = "(with_page m)\<lparr>next_ptr := Suc (next_ptr (with_page m)), clock := Suc (clock (with_page m))\<rparr>"
  have "plenty E (Suc (Suc ?n)) m" using p by simp
  from plenty_alloc [OF this, of "with_page m"] have "plenty E (Suc ?n) (with_page m)" by (simp add: with_page_def)
  from plenty_alloc [OF this, of ?m] have "plenty E ?n ?m" by simp
  then show ?thesis using r a
    by (auto simp: dicedev_pt_init_def page_init_ok alloc_def Let_def with_page_def split: if_splits dest!: pt_fill_plenty [rotated])
qed

lemma pt_init_alloc_ok:
  assumes "\<forall>n. alloc_ok E n" "dicedev_pt_init E (Some t) sz m = Inr (err, t', m')"
  shows "err = None"
  using pt_init_plenty [OF _ assms(2)] assms(1) by (simp add: plenty_def)

section \<open>Properties\<close>

text \<open>
  C13. Initialising a page table of at most \<open>DICEDEV_MAX_BUFFER_SIZE\<close> bytes never faults. Either it
  succeeds, and then the table has as many pages as the size needs, its entries are present
  and encode the bus addresses of its pages in order, the pages are new and zero, and no other
  page has changed; or it returns \<open>-ENOMEM\<close> and no page remains allocated.
\<close>

theorem pt_init_outcome:
  assumes "kmem_ok m" "unat sz \<le> 0x400000"
  shows "\<exists>err t' m'. dicedev_pt_init E (Some t) sz m = Inr (err, Some t', m') \<and> kmem_ok m' \<and>
    (case err of
       None \<Rightarrow> \<exists>ep qs. pt_owns E m' t' ep qs \<and> num_pages t' = (unat sz + 4095) div 4096
         \<and> max_size t' = sz \<and> (\<forall>q \<in> set qs. page_mem m' q = Some (replicate 1024 0))
         \<and> set (ep # qs) \<inter> dom (page_mem m) = {} \<and> page_mem m' |` (- set (ep # qs)) = page_mem m
     | Some e \<Rightarrow> e = ENOMEM \<and> page_mem m' = page_mem m)"
  using assms by (rule pt_init_spec)

definition mem0 :: kmem where
  "mem0 = \<lparr>page_mem = Map.empty, next_ptr = 0, clock = 0\<rparr>"

definition env0 :: env where
  "env0 = \<lparr>ioread = (\<lambda>_ _. 255), alloc_ok = (\<lambda>_. True), dma_addr = (\<lambda>p. of_nat p * 0x1000)\<rparr>"

definition pt0 :: dicedev_page_table where
  "pt0 = \<lparr>pt_page = zero_page, pages = [], num_pages = 0, max_size = 0\<rparr>"

theorem pt_init_outcome_witness:
  "\<exists>t' m'. dicedev_pt_init env0 (Some pt0) 5000 mem0 = Inr (None, Some t', m') \<and> num_pages t' = 2"
proof -
  have k: "kmem_ok mem0" by (simp add: kmem_ok_def mem0_def)
  obtain err t' m' where r: "dicedev_pt_init env0 (Some pt0) 5000 mem0 = Inr (err, Some t', m')"
    "case err of None \<Rightarrow> num_pages t' = 2 | Some e \<Rightarrow> True"
    using pt_init_outcome [OF k, of 5000 env0 pt0] by (fastforce split: option.splits)
  moreover have "err = None" using pt_init_alloc_ok [OF _ r(1)] by (simp add: env0_def)
  ultimately show ?thesis by simp
qed



text \<open>
  A page table entry holds its page's bus address: for a page-aligned address below
  \<open>2 ^ DICEDEV_ADDR_BITS\<close>, which is what coherent DMA memory under the 40-bit mask has,
  the entry is present and the address can be read back from it.
\<close>

theorem pt_entry_roundtrip:
  assumes "addr AND 0xFFF = 0" "addr < 2 ^ 40"
  shows "PRESENT (MAKE_PT_ENTRY addr) \<and> pt_entry_addr (MAKE_PT_ENTRY addr) = addr"
proof -
  have lo: "\<not> bit addr k" if "k < 12" for k
  proof -
    have "take_bit 12 addr = 0" using assms(1) by (simp add: take_bit_eq_mask mask_eq_exp_minus_1)
    then show ?thesis using that by (metis bit_0_eq bit_take_bit_iff bot_apply bot_bool_def)
  qed
  have hi: "k < 40" if "bit addr k" for k
  proof -
    have "unat addr < 2 ^ 40" using assms(2) by (simp add: word_less_nat_alt)
    then have "take_bit 40 (unat addr) = unat addr" by (rule take_bit_nat_eq_self)
    moreover have "bit (unat addr) k" using that by (simp add: bit_unsigned_iff)
    ultimately show ?thesis by (metis bit_take_bit_iff)
  qed
  have "bit (pt_entry_addr (MAKE_PT_ENTRY addr)) n \<longleftrightarrow> bit addr n" if "n < 64" for n
  proof (cases "8 \<le> n \<and> n < 40")
    case True
    then have "8 + (n - 8) = n" "n - 8 < 4 \<Longrightarrow> \<not> bit addr n" using lo [of n] by auto
    then show ?thesis using True that by (auto simp: pt_entry_addr_def MAKE_PT_ENTRY_def bit_simps)
  next
    case False
    then have "\<not> bit addr n" using lo [of n] hi [of n] by auto
    then show ?thesis using False by (auto simp: pt_entry_addr_def MAKE_PT_ENTRY_def bit_simps)
  qed
  then have "pt_entry_addr (MAKE_PT_ENTRY addr) = addr" by (intro bit_word_eqI) simp
  then show ?thesis by simp
qed

theorem pt_entry_roundtrip_witness: "pt_entry_addr (MAKE_PT_ENTRY 0xFFFFFFF000) = 0xFFFFFFF000"
  using pt_entry_roundtrip [of "0xFFFFFFF000"] by simp

end
