(* ===== verification/Dicedev_Utils.thy ===== *)
theory Dicedev_Utils
  imports Dicedev_Pt
begin

text \<open>
  The hardware access of \<^verbatim>\<open>dicedev_utils.c\<close>: register accesses, the manual command feed,
  and the table of the device's 16 slots.
\<close>

section \<open>Operations\<close>

definition dicedev_iow :: "ptr \<Rightarrow> u32 \<Rightarrow> u32 \<Rightarrow> kstate \<Rightarrow> kstate result" where
  "dicedev_iow d reg val s = modify_dev d (\<lambda>dv. dv\<lparr>bar := bar dv @ [IoWrite reg val]\<rparr>) s"

definition dicedev_ior :: "env \<Rightarrow> ptr \<Rightarrow> u32 \<Rightarrow> kstate \<Rightarrow> (u32 \<times> kstate) result" where
  "dicedev_ior E d reg s = bindR (deref (devs s) d) (\<lambda>dv.
     let v = ioread E (bar dv) reg in
     bindR (modify_dev d (\<lambda>dv. dv\<lparr>bar := bar dv @ [IoRead reg v]\<rparr>) s) (\<lambda>s. Inr (v, s)))"

text \<open>
  The inner loop of \<open>feed_cmd\<close> reads \<open>CMD_MANUAL_FREE\<close> until it is not 0. It may never end;
  then \<open>wait_free\<close> is \<open>None\<close> and \<open>feed_cmd\<close> is the fault \<^const>\<open>SPIN\<close>.
\<close>

partial_function (option) wait_free :: "env \<Rightarrow> mmio list \<Rightarrow> mmio list option" where
  "wait_free E h = (if ioread E h CMD_MANUAL_FREE = 0
     then wait_free E (h @ [IoRead CMD_MANUAL_FREE 0])
     else Some (h @ [IoRead CMD_MANUAL_FREE (ioread E h CMD_MANUAL_FREE)]))"

declare wait_free.simps [code]

fun feed_words :: "env \<Rightarrow> u32 list \<Rightarrow> mmio list \<Rightarrow> mmio list option" where
  "feed_words E [] h = Some h"
| "feed_words E (c # cs) h = (case wait_free E h of
     None \<Rightarrow> None
   | Some h \<Rightarrow> feed_words E cs (h @ [IoWrite CMD_MANUAL_FEED c]))"

definition feed_cmd :: "env \<Rightarrow> ptr \<Rightarrow> u32 list \<Rightarrow> kstate \<Rightarrow> kstate result" where
  "feed_cmd E d cmd s = bindR (deref (devs s) d) (\<lambda>dv.
     if feed_lock dv then Inl DEADLOCK else
     bindR (modify_dev d (\<lambda>dv. dv\<lparr>feed_lock := True\<rparr>) s) (\<lambda>s.
     case feed_words E cmd (bar dv) of
       None \<Rightarrow> Inl SPIN
     | Some h \<Rightarrow> bindR (modify_dev d (\<lambda>dv. dv\<lparr>bar := h\<rparr>) s) (\<lambda>s.
         modify_dev d (\<lambda>dv. dv\<lparr>feed_lock := False\<rparr>) s)))"

text \<open>The search loop of \<open>get_slot\<close>, from index \<open>i\<close> on.\<close>

fun scan_slots :: "nat \<Rightarrow> ptr option list \<Rightarrow> int" where
  "scan_slots i [] = -1"
| "scan_slots i (x # xs) = (if x = None then int i else scan_slots (Suc i) xs)"

definition get_slot :: "ptr \<Rightarrow> kstate \<Rightarrow> int result" where
  "get_slot d s = bindR (deref (devs s) d) (\<lambda>dv.
     Inr (if free_slots dv > 0 then scan_slots 0 (buff_slots dv) else -1))"

text \<open>An access \<open>buff_slots[slot]\<close> with the \<open>int\<close> index of the code.\<close>

definition slot_entry :: "dicedev_device \<Rightarrow> int \<Rightarrow> ptr option result" where
  "slot_entry dv slot = (if slot < 0 then Inl OOB else index (buff_slots dv) (nat slot))"

definition bind_slot :: "env \<Rightarrow> ptr \<Rightarrow> ptr \<Rightarrow> int \<Rightarrow> kstate \<Rightarrow> kstate result" where
  "bind_slot E d b slot s =
     bindR (deref (devs s) d) (\<lambda>dv.
     bindR (slot_entry dv slot) (\<lambda>x.
     bindR (bug_on (x \<noteq> None)) (\<lambda>_.
     bindR (modify_dev d (\<lambda>dv. dv\<lparr>free_slots := free_slots dv - 1,
              buff_slots := (buff_slots dv)[nat slot := Some b]\<rparr>) s) (\<lambda>s.
     bindR (modify_buff b (\<lambda>bf. bf\<lparr>binded_slot := slot, usage_count := 1\<rparr>) s) (\<lambda>s.
     bindR (deref (buffs s) b) (\<lambda>bf.
     bindR (deref (pts s) (buff_pt bf)) (\<lambda>t.
     let h = dma_handler (pt_page t) in
     feed_cmd E d [DICEDEV_USER_CMD_BIND_SLOT_HEADER slot (seed bf), allowed bf,
       ucast h, ucast (drop_bit 32 h)] s)))))))"

definition unbind_slot :: "env \<Rightarrow> ptr \<Rightarrow> ptr \<Rightarrow> kstate \<Rightarrow> kstate result" where
  "unbind_slot E d b s =
     bindR (deref (buffs s) b) (\<lambda>bf.
     bindR (bug_on (binded_slot bf = DICEDEV_BUFFER_NO_SLOT)) (\<lambda>_.
     let slot = binded_slot bf; cmd = DICEDEV_USER_CMD_UNBIND_SLOT_HEADER slot in
     bindR (deref (devs s) d) (\<lambda>dv.
     bindR (slot_entry dv slot) (\<lambda>_.
     bindR (modify_dev d (\<lambda>dv. dv\<lparr>buff_slots := (buff_slots dv)[nat slot := None]\<rparr>) s) (\<lambda>s.
     bindR (modify_buff b (\<lambda>bf. bf\<lparr>binded_slot := DICEDEV_BUFFER_NO_SLOT, usage_count := 0\<rparr>) s) (\<lambda>s.
     bindR (modify_dev d (\<lambda>dv. dv\<lparr>free_slots := free_slots dv + 1\<rparr>) s) (\<lambda>s.
     feed_cmd E d [cmd] s)))))))"

definition restart_device :: "ptr \<Rightarrow> kstate \<Rightarrow> kstate result" where
  "restart_device d s =
     bindR (dicedev_iow d DICEDEV_ENABLE 0 s) (\<lambda>s.
     bindR (dicedev_iow d DICEDEV_INTR_ENABLE 0 s) (\<lambda>s.
     bindR (dicedev_iow d DICEDEV_INTR DICEDEV_ACTIVE_INTR s) (\<lambda>s.
     bindR (dicedev_iow d DICEDEV_INTR_ENABLE DICEDEV_ACTIVE_INTR s) (\<lambda>s.
     dicedev_iow d DICEDEV_ENABLE 1 s))))"

section \<open>What the device sees\<close>

text \<open>The register writes of a history, and the words fed to the command queue.\<close>

fun writes :: "mmio list \<Rightarrow> (u32 \<times> u32) list" where
  "writes [] = []"
| "writes (IoWrite r v # h) = (r, v) # writes h"
| "writes (IoRead r v # h) = writes h"

definition fed :: "mmio list \<Rightarrow> u32 list" where
  "fed h = map snd (filter (\<lambda>(r, v). r = CMD_MANUAL_FEED) (writes h))"

lemma writes_append [simp]: "writes (h @ h') = writes h @ writes h'"
  by (induction h rule: writes.induct) auto

lemma writes_replicate_read [simp]: "writes (replicate n (IoRead r v)) = []"
  by (induction n) auto

lemma fed_simps [simp]:
  "fed [] = []" "fed (h @ h') = fed h @ fed h'"
  "fed [IoWrite CMD_MANUAL_FEED v] = [v]" "fed [IoRead r v] = []"
  "r \<noteq> CMD_MANUAL_FEED \<Longrightarrow> fed [IoWrite r v] = []"
  by (simp_all add: fed_def)

text \<open>
  What the driver relies on of the device: however the history looks, polling the free
  space of the command queue gives a non-zero answer after finitely many reads.
\<close>

definition drains :: "env \<Rightarrow> bool" where
  "drains E \<longleftrightarrow> (\<forall>h. \<exists>n. ioread E (h @ replicate n (IoRead CMD_MANUAL_FREE 0)) CMD_MANUAL_FREE \<noteq> 0)"

lemma wait_free_Some:
  assumes "wait_free E h = Some h'"
  shows "\<exists>n v. v \<noteq> 0 \<and> h' = h @ replicate n (IoRead CMD_MANUAL_FREE 0) @ [IoRead CMD_MANUAL_FREE v]"
proof (rule wait_free.raw_induct [where P = "\<lambda>E h h'. \<exists>n v. v \<noteq> 0 \<and>
    h' = h @ replicate n (IoRead CMD_MANUAL_FREE 0) @ [IoRead CMD_MANUAL_FREE v]", OF _ assms])
  fix f E h h'
  assume IH: "\<And>E h h'. f E h = Some h' \<Longrightarrow> \<exists>n v. v \<noteq> 0 \<and>
      h' = h @ replicate n (IoRead CMD_MANUAL_FREE 0) @ [IoRead CMD_MANUAL_FREE v]"
    and eq: "(if ioread E h CMD_MANUAL_FREE = 0 then f E (h @ [IoRead CMD_MANUAL_FREE 0])
      else Some (h @ [IoRead CMD_MANUAL_FREE (ioread E h CMD_MANUAL_FREE)])) = Some h'"
  show "\<exists>n v. v \<noteq> 0 \<and> h' = h @ replicate n (IoRead CMD_MANUAL_FREE 0) @ [IoRead CMD_MANUAL_FREE v]"
  proof (cases "ioread E h CMD_MANUAL_FREE = 0")
    case True
    with eq have "f E (h @ [IoRead CMD_MANUAL_FREE 0]) = Some h'" by simp
    then obtain n v where "v \<noteq> 0"
      "h' = (h @ [IoRead CMD_MANUAL_FREE 0]) @ replicate n (IoRead CMD_MANUAL_FREE 0) @ [IoRead CMD_MANUAL_FREE v]"
      using IH by blast
    then show ?thesis by (intro exI [of _ "Suc n"] exI [of _ v]) simp
  next
    case False
    with eq show ?thesis
      by (intro exI [of _ 0] exI [of _ "ioread E h CMD_MANUAL_FREE"]) simp
  qed
qed

lemma wait_free_returns: "drains E \<Longrightarrow> \<exists>h'. wait_free E h = Some h'"
proof -
  assume "drains E"
  then obtain n where "ioread E (h @ replicate n (IoRead CMD_MANUAL_FREE 0)) CMD_MANUAL_FREE \<noteq> 0"
    unfolding drains_def by blast
  then show ?thesis
  proof (induction n arbitrary: h)
    case 0
    then show ?case by (subst wait_free.simps) simp
  next
    case (Suc n)
    then show ?case
      by (subst wait_free.simps) (use Suc.IH [of "h @ [IoRead CMD_MANUAL_FREE 0]"] in simp)
  qed
qed

lemma feed_words_writes:
  "feed_words E cs h = Some h' \<Longrightarrow> writes h' = writes h @ map (Pair CMD_MANUAL_FEED) cs"
  by (induction cs arbitrary: h) (auto split: option.splits dest!: wait_free_Some)

lemma feed_words_fed: "feed_words E cs h = Some h' \<Longrightarrow> fed h' = fed h @ cs"
  by (drule feed_words_writes) (simp add: fed_def filter_map comp_def)

lemma feed_words_returns: "drains E \<Longrightarrow> \<exists>h'. feed_words E cs h = Some h'"
proof (induction cs arbitrary: h)
  case (Cons c cs)
  then show ?case using wait_free_returns [OF Cons.prems, of h] by fastforce
qed simp

lemma feed_words_append:
  "feed_words E (cs @ cs') h = Option.bind (feed_words E cs h) (feed_words E cs')"
  by (induction cs arbitrary: h) (auto split: option.splits)

text \<open>A history in which no word is fed unless the device has just announced space for it.\<close>

definition paced :: "mmio list \<Rightarrow> bool" where
  "paced h \<longleftrightarrow> (\<forall>i < length h. \<forall>v. h ! i = IoWrite CMD_MANUAL_FEED v \<longrightarrow>
     0 < i \<and> (\<exists>w. w \<noteq> 0 \<and> h ! (i - 1) = IoRead CMD_MANUAL_FREE w))"

lemma paced_append_feed:
  "paced h \<Longrightarrow> v \<noteq> 0 \<Longrightarrow>
   paced (h @ replicate n (IoRead CMD_MANUAL_FREE 0) @ [IoRead CMD_MANUAL_FREE v] @ [IoWrite CMD_MANUAL_FEED c])"
  by (auto simp: paced_def nth_append less_Suc_eq)

lemma feed_words_paced: "feed_words E cs h = Some h' \<Longrightarrow> paced h \<Longrightarrow> paced h'"
proof (induction cs arbitrary: h)
  case (Cons c cs)
  from Cons.prems(1) obtain h1 where h1: "wait_free E h = Some h1"
      "feed_words E cs (h1 @ [IoWrite CMD_MANUAL_FEED c]) = Some h'"
    by (auto split: option.splits)
  obtain n v where "v \<noteq> 0" "h1 = h @ replicate n (IoRead CMD_MANUAL_FREE 0) @ [IoRead CMD_MANUAL_FREE v]"
    using wait_free_Some [OF h1(1)] by blast
  then have "paced (h1 @ [IoWrite CMD_MANUAL_FEED c])"
    using paced_append_feed [OF Cons.prems(2)] by simp
  then show ?case by (rule Cons.IH [OF h1(2)])
qed simp

subsection \<open>Register writes and feeding, executed\<close>

text \<open>The history after feeding, when the device drains its queue.\<close>

definition fed_hist :: "env \<Rightarrow> u32 list \<Rightarrow> mmio list \<Rightarrow> mmio list" where
  "fed_hist E cs h = the (feed_words E cs h)"

lemma fed_hist:
  assumes "drains E"
  shows "feed_words E cs h = Some (fed_hist E cs h)" "fed (fed_hist E cs h) = fed h @ cs"
    "writes (fed_hist E cs h) = writes h @ map (Pair CMD_MANUAL_FEED) cs"
    "paced h \<Longrightarrow> paced (fed_hist E cs h)"
  using feed_words_returns [OF assms, of cs h] feed_words_fed feed_words_writes feed_words_paced
  by (auto simp: fed_hist_def)

lemma fed_hist_Nil [simp]: "fed_hist E [] h = h"
  by (simp add: fed_hist_def)

lemma fed_hist_fed_hist: "drains E \<Longrightarrow> fed_hist E cs' (fed_hist E cs h) = fed_hist E (cs @ cs') h"
  using feed_words_returns [of E cs h] by (auto simp: fed_hist_def feed_words_append)

lemma dicedev_iow_Some [simp, run_simps]:
  "devs s d = Some dv \<Longrightarrow>
   dicedev_iow d reg v s = Inr (s\<lparr>devs := (devs s)(d \<mapsto> dv\<lparr>bar := bar dv @ [IoWrite reg v]\<rparr>)\<rparr>)"
  by (simp add: dicedev_iow_def)

lemma dicedev_ior_Some [simp, run_simps]:
  "devs s d = Some dv \<Longrightarrow>
   dicedev_ior E d reg s = Inr (ioread E (bar dv) reg,
     s\<lparr>devs := (devs s)(d \<mapsto> dv\<lparr>bar := bar dv @ [IoRead reg (ioread E (bar dv) reg)]\<rparr>)\<rparr>)"
  by (simp add: dicedev_ior_def Let_def)

lemma feed_cmd_Some:
  "devs s d = Some dv \<Longrightarrow> \<not> feed_lock dv \<Longrightarrow> feed_words E cmd (bar dv) = Some h \<Longrightarrow>
   feed_cmd E d cmd s = Inr (s\<lparr>devs := (devs s)(d \<mapsto> dv\<lparr>bar := h\<rparr>)\<rparr>)"
  by (cases dv) (simp add: feed_cmd_def)

lemma feed_cmd_eq_Inr:
  "feed_cmd E d cmd s = Inr s' \<longleftrightarrow> (\<exists>dv h. devs s d = Some dv \<and> \<not> feed_lock dv \<and>
     feed_words E cmd (bar dv) = Some h \<and> s' = s\<lparr>devs := (devs s)(d \<mapsto> dv\<lparr>bar := h\<rparr>)\<rparr>)" (is "?L \<longleftrightarrow> ?R")
proof
  assume ?L
  then obtain dv h where "devs s d = Some dv" "\<not> feed_lock dv" "feed_words E cmd (bar dv) = Some h"
    by (auto simp: feed_cmd_def split: if_splits option.splits)
  with \<open>?L\<close> show ?R using feed_cmd_Some by (metis sum.inject(2))
qed (auto simp: feed_cmd_Some)

lemma feed_cmd_drains [simp, run_simps]:
  "drains E \<Longrightarrow> devs s d = Some dv \<Longrightarrow> \<not> feed_lock dv \<Longrightarrow>
   feed_cmd E d cmd s = Inr (s\<lparr>devs := (devs s)(d \<mapsto> dv\<lparr>bar := fed_hist E cmd (bar dv)\<rparr>)\<rparr>)"
  by (rule feed_cmd_Some) (simp_all add: fed_hist)

section \<open>The slot table\<close>

lemma scan_slots_None: "None \<notin> set xs \<Longrightarrow> scan_slots k xs = -1"
proof (induction xs arbitrary: k)
  case (Cons x xs)
  then show ?case by (cases x) auto
qed simp

lemma scan_slots_least:
  "i < length xs \<Longrightarrow> xs ! i = None \<Longrightarrow> \<forall>j < i. xs ! j \<noteq> None \<Longrightarrow> scan_slots k xs = int (k + i)"
proof (induction xs arbitrary: i k)
  case (Cons x xs)
  show ?case
  proof (cases i)
    case (Suc i')
    then have "x \<noteq> None" "\<forall>j < i'. xs ! j \<noteq> None" using Cons.prems(3) by (auto dest: spec [of _ 0] spec [of _ "Suc _"])
    then show ?thesis using Cons.IH [of i' "Suc k"] Cons.prems Suc by auto
  qed (use Cons.prems in auto)
qed simp

text \<open>
  The invariant of the table: it has 16 entries, \<open>free_slots\<close> counts the empty ones, and an
  entry points to a buffer exactly when the buffer says it is bound to that slot of this
  device.
\<close>

definition slots_ok :: "ptr \<Rightarrow> kstate \<Rightarrow> bool" where
  "slots_ok d s \<longleftrightarrow> (\<exists>dv. devs s d = Some dv \<and> length (buff_slots dv) = DICEDEV_NUM_SLOTS \<and>
     free_slots dv = of_nat (count_list (buff_slots dv) None) \<and>
     (\<forall>i < DICEDEV_NUM_SLOTS. \<forall>b. buff_slots dv ! i = Some b \<longleftrightarrow>
        (\<exists>bf. buffs s b = Some bf \<and> buff_dev bf = d \<and> binded_slot bf = int i)) \<and>
     (\<forall>b bf. buffs s b = Some bf \<and> buff_dev bf = d \<longrightarrow>
        DICEDEV_BUFFER_NO_SLOT \<le> binded_slot bf \<and> binded_slot bf < int DICEDEV_NUM_SLOTS))"

definition slot_owner :: "ptr \<Rightarrow> kstate \<Rightarrow> nat \<rightharpoonup> ptr" where
  "slot_owner d s i = (case devs s d of
     None \<Rightarrow> None
   | Some dv \<Rightarrow> if i < length (buff_slots dv) then buff_slots dv ! i else None)"

lemma bind_slot_run [run_simps]:
  assumes "drains E" "devs s d = Some dv" "\<not> feed_lock dv" "buffs s b = Some bf"
    and "pts s (buff_pt bf) = Some t" "i < length (buff_slots dv)" "buff_slots dv ! i = None"
  shows "bind_slot E d b (int i) s = Inr (s\<lparr>
     devs := (devs s)(d \<mapsto> dv\<lparr>free_slots := free_slots dv - 1, buff_slots := (buff_slots dv)[i := Some b],
       bar := fed_hist E [DICEDEV_USER_CMD_BIND_SLOT_HEADER (int i) (seed bf), allowed bf,
         ucast (dma_handler (pt_page t)), ucast (drop_bit 32 (dma_handler (pt_page t)))] (bar dv)\<rparr>),
     buffs := (buffs s)(b \<mapsto> bf\<lparr>binded_slot := int i, usage_count := 1\<rparr>)\<rparr>)"
  using assms by (simp add: bind_slot_def slot_entry_def Let_def)

lemma unbind_slot_run [run_simps]:
  assumes "drains E" "devs s d = Some dv" "\<not> feed_lock dv" "buffs s b = Some bf"
    and "binded_slot bf = int i" "i < length (buff_slots dv)"
  shows "unbind_slot E d b s = Inr (s\<lparr>
     devs := (devs s)(d \<mapsto> dv\<lparr>buff_slots := (buff_slots dv)[i := None], free_slots := free_slots dv + 1,
       bar := fed_hist E [DICEDEV_USER_CMD_UNBIND_SLOT_HEADER (int i)] (bar dv)\<rparr>),
     buffs := (buffs s)(b \<mapsto> bf\<lparr>binded_slot := DICEDEV_BUFFER_NO_SLOT, usage_count := 0\<rparr>)\<rparr>)"
  using assms by (simp add: unbind_slot_def slot_entry_def Let_def)

lemma slots_ok_bound:
  assumes "slots_ok d s" "devs s d = Some dv" "buffs s b = Some bf" "buff_dev bf = d" "binded_slot bf = int i"
  shows "i < 16" "length (buff_slots dv) = 16" "buff_slots dv ! i = Some b"
proof -
  have "binded_slot bf < 16" using assms(1,3,4) by (fastforce simp: slots_ok_def)
  then show i: "i < 16" using assms(5) by simp
  show "length (buff_slots dv) = 16" using assms(1,2) by (auto simp: slots_ok_def)
  show "buff_slots dv ! i = Some b" using assms i by (auto simp: slots_ok_def)
qed

lemma bound_slot_int:
  assumes "slots_ok d s" "buffs s b = Some bf" "buff_dev bf = d" "binded_slot bf \<noteq> -1"
  shows "\<exists>i. binded_slot bf = int i"
proof -
  have "-1 \<le> binded_slot bf" using assms(1-3) by (auto simp: slots_ok_def)
  then show ?thesis using assms(4) nonneg_int_cases [of "binded_slot bf"] by auto
qed

lemma slots_ok_entry:
  assumes "slots_ok d s" "devs s d = Some dv" "i < 16" "buff_slots dv ! i = Some b"
  obtains bf where "buffs s b = Some bf" "buff_dev bf = d" "binded_slot bf = int i"
  using assms by (fastforce simp: slots_ok_def)

text \<open>Binding a free slot to an unbound buffer, and unbinding, keep the invariant.\<close>

lemma slots_ok_bind:
  assumes "slots_ok d s" "devs s d = Some dv" "buffs s b = Some bf" "buff_dev bf = d"
    and "binded_slot bf = -1" "i < length (buff_slots dv)" "buff_slots dv ! i = None"
  shows "slots_ok d (s\<lparr>
     devs := (devs s)(d \<mapsto> dv\<lparr>free_slots := free_slots dv - 1, buff_slots := (buff_slots dv)[i := Some b], bar := h\<rparr>),
     buffs := (buffs s)(b \<mapsto> bf\<lparr>binded_slot := int i, usage_count := u\<rparr>)\<rparr>)"
proof -
  have len: "length (buff_slots dv) = 16" using assms by (auto simp: slots_ok_def)
  have "Suc (count_list ((buff_slots dv)[i := Some b]) None) = count_list (buff_slots dv) None"
    using assms by (intro count_list_update_remove) auto
  then have "(of_nat (count_list (buff_slots dv) None) :: u64) - 1
      = of_nat (count_list ((buff_slots dv)[i := Some b]) None)"
    by (metis add_diff_cancel_left' of_nat_Suc)
  then show ?thesis using assms len by (auto simp: slots_ok_def nth_list_update)
qed

lemma slots_ok_unbind:
  assumes "slots_ok d s" "devs s d = Some dv" "buffs s b = Some bf" "buff_dev bf = d"
    and "binded_slot bf = int i"
  shows "slots_ok d (s\<lparr>
     devs := (devs s)(d \<mapsto> dv\<lparr>buff_slots := (buff_slots dv)[i := None], free_slots := free_slots dv + 1, bar := h\<rparr>),
     buffs := (buffs s)(b \<mapsto> bf\<lparr>binded_slot := -1, usage_count := u\<rparr>)\<rparr>)"
proof -
  note i = slots_ok_bound [OF assms]
  have "binded_slot bf' \<noteq> int i" if "b' \<noteq> b" "buffs s b' = Some bf'" "buff_dev bf' = d" for b' bf'
    using slots_ok_bound(3) [OF assms(1,2) that(2,3)] i(3) that(1) by auto
  moreover
  have "count_list ((buff_slots dv)[i := None]) None = Suc (count_list (buff_slots dv) None)"
    using i by (intro count_list_update_add) auto
  then have "(of_nat (count_list (buff_slots dv) None) :: u64) + 1
      = of_nat (count_list ((buff_slots dv)[i := None]) None)"
    by (simp add: add.commute)
  ultimately show ?thesis using assms i by (auto simp: slots_ok_def nth_list_update)
qed

lemma slots_ok_free_slots:
  assumes "slots_ok d s" "devs s d = Some dv"
  shows "0 < free_slots dv \<longleftrightarrow> (\<exists>i < 16. buff_slots dv ! i = None)"
proof -
  have len: "length (buff_slots dv) = 16" and f: "free_slots dv = of_nat (count_list (buff_slots dv) None)"
    using assms by (auto simp: slots_ok_def)
  have "count_list (buff_slots dv) None \<le> 16" using count_le_length [of "buff_slots dv" None] len by simp
  then have "0 < free_slots dv \<longleftrightarrow> 0 < count_list (buff_slots dv) None"
    by (simp add: f word_less_nat_alt unat_of_nat)
  also have "\<dots> \<longleftrightarrow> None \<in> set (buff_slots dv)" by (simp add: count_list_0_iff zero_less_iff_neq_zero)
  also have "\<dots> \<longleftrightarrow> (\<exists>i < 16. buff_slots dv ! i = None)" by (auto simp: in_set_conv_nth len)
  finally show ?thesis .
qed

section \<open>The interface of the slot table\<close>

text \<open>
  What the worker thread and the release handlers rely on: binding takes the least free
  slot, unbinding frees the slot of the buffer, and nothing else changes hands.
\<close>

locale slot_table =
  fixes inv :: "'s \<Rightarrow> bool"
    and owner :: "'s \<Rightarrow> nat \<rightharpoonup> ptr"
    and known :: "'s \<Rightarrow> ptr \<Rightarrow> bool"
    and size :: nat
    and bind :: "ptr \<Rightarrow> 's \<Rightarrow> 's result"
    and unbind :: "ptr \<Rightarrow> 's \<Rightarrow> 's result"
  assumes owner_less: "inv s \<Longrightarrow> owner s i = Some b \<Longrightarrow> i < size"
    and owner_inj: "inv s \<Longrightarrow> owner s i = Some b \<Longrightarrow> owner s j = Some b \<Longrightarrow> i = j"
    and bind_law: "inv s \<Longrightarrow> known s b \<Longrightarrow> b \<notin> ran (owner s) \<Longrightarrow> i < size \<Longrightarrow> owner s i = None \<Longrightarrow>
      (\<forall>j < i. owner s j \<noteq> None) \<Longrightarrow>
      \<exists>s'. bind b s = Inr s' \<and> inv s' \<and> owner s' = (owner s)(i \<mapsto> b) \<and> known s' = known s"
    and unbind_law: "inv s \<Longrightarrow> owner s i = Some b \<Longrightarrow>
      \<exists>s'. unbind b s = Inr s' \<and> inv s' \<and> owner s' = (owner s)(i := None) \<and> known s' = known s"
begin

lemma bind_if_room:
  assumes "inv s" "known s b" "b \<notin> ran (owner s)" "\<exists>i < size. owner s i = None"
  shows "\<exists>s' i. bind b s = Inr s' \<and> inv s' \<and> owner s i = None \<and> owner s' = (owner s)(i \<mapsto> b) \<and> known s' = known s"
proof -
  define i where "i = (LEAST i. owner s i = None)"
  have i: "i < size" "owner s i = None" "\<forall>j < i. owner s j \<noteq> None"
    using assms(4) by (auto simp: i_def intro: LeastI dest: not_less_Least)
      (meson Least_le le_less_trans)
  then show ?thesis using bind_law [OF assms(1-3) i] by blast
qed

lemma bind_unbind:
  assumes "inv s" "known s b" "b \<notin> ran (owner s)" "\<exists>i < size. owner s i = None" "bind b s = Inr s'"
  shows "\<exists>s''. unbind b s' = Inr s'' \<and> inv s'' \<and> owner s'' = owner s"
proof -
  obtain i where i: "inv s'" "owner s i = None" "owner s' = (owner s)(i \<mapsto> b)"
    using bind_if_room [OF assms(1-4)] assms(5) by auto
  then obtain s'' where "unbind b s' = Inr s''" "inv s''" "owner s'' = (owner s')(i := None)"
    using unbind_law [of s' i b] by auto
  with i show ?thesis by auto
qed

lemma unbind_not_owner:
  assumes "inv s" "owner s i = Some b" "unbind b s = Inr s'"
  shows "b \<notin> ran (owner s')" "ran (owner s') = ran (owner s) - {b}"
proof -
  have "owner s' = (owner s)(i := None)" using unbind_law [OF assms(1,2)] assms(3) by auto
  moreover have "ran ((owner s)(i := None)) = ran (owner s) - {b}"
    by (rule ran_del_inj) (fact assms(2), rule owner_inj [OF assms(1) _ assms(2)])
  ultimately show "ran (owner s') = ran (owner s) - {b}" by simp
  then show "b \<notin> ran (owner s')" by simp
qed

end

text \<open>
  The provider: the worker's \<open>bind_slot(dev, buff, get_slot(dev))\<close> and \<open>unbind_slot\<close>, in a
  state whose slot table is consistent, with a device that drains its queue.
\<close>

definition bind_free_slot :: "env \<Rightarrow> ptr \<Rightarrow> ptr \<Rightarrow> kstate \<Rightarrow> kstate result" where
  "bind_free_slot E d b s = bindR (get_slot d s) (\<lambda>slot. bind_slot E d b slot s)"

definition known_buffer :: "ptr \<Rightarrow> kstate \<Rightarrow> ptr \<Rightarrow> bool" where
  "known_buffer d s b \<longleftrightarrow> (\<exists>bf t. buffs s b = Some bf \<and> buff_dev bf = d \<and> pts s (buff_pt bf) = Some t)"

definition slot_inv :: "env \<Rightarrow> ptr \<Rightarrow> kstate \<Rightarrow> bool" where
  "slot_inv E d s \<longleftrightarrow> drains E \<and> slots_ok d s \<and> (\<exists>dv. devs s d = Some dv \<and> \<not> feed_lock dv)"

lemma slot_owner_Some:
  assumes "slots_ok d s" "devs s d = Some dv"
  shows "slot_owner d s i = (if i < 16 then buff_slots dv ! i else None)"
  using assms by (auto simp: slots_ok_def slot_owner_def)

lemma slot_owner_iff:
  assumes "slots_ok d s"
  shows "slot_owner d s i = Some b \<longleftrightarrow>
    i < 16 \<and> (\<exists>bf. buffs s b = Some bf \<and> buff_dev bf = d \<and> binded_slot bf = int i)"
  using assms by (auto simp: slots_ok_def slot_owner_def split: if_splits)

lemma unbound_iff:
  assumes "slots_ok d s" "buffs s b = Some bf" "buff_dev bf = d"
  shows "b \<in> ran (slot_owner d s) \<longleftrightarrow> binded_slot bf \<noteq> -1"
proof
  assume "b \<in> ran (slot_owner d s)"
  then obtain i where "slot_owner d s i = Some b" by (auto simp: ran_def)
  then show "binded_slot bf \<noteq> -1" using assms by (auto simp: slot_owner_iff)
next
  assume "binded_slot bf \<noteq> -1"
  moreover have "-1 \<le> binded_slot bf" "binded_slot bf < 16" using assms by (auto simp: slots_ok_def)
  ultimately have "slot_owner d s (nat (binded_slot bf)) = Some b"
    using assms by (subst slot_owner_iff) auto
  then show "b \<in> ran (slot_owner d s)" by (rule ranI)
qed

lemma get_slot_least:
  assumes "slots_ok d s" "i < 16" "slot_owner d s i = None" "\<forall>j < i. slot_owner d s j \<noteq> None"
  shows "get_slot d s = Inr (int i)"
proof -
  obtain dv where dv: "devs s d = Some dv" "length (buff_slots dv) = 16"
    using assms(1) by (auto simp: slots_ok_def)
  note ow = slot_owner_Some [OF assms(1) dv(1)]
  have "buff_slots dv ! i = None" "\<forall>j < i. buff_slots dv ! j \<noteq> None"
    using assms(2-4) by (auto simp: ow split: if_splits)
  then show ?thesis
    using dv assms(2) slots_ok_free_slots [OF assms(1) dv(1)] scan_slots_least [of i "buff_slots dv" 0]
    by (auto simp: get_slot_def)
qed

lemma bind_free_slot_least:
  assumes "slots_ok d s" "devs s d = Some dv" "0 < free_slots dv"
  shows "\<exists>i < 16. slot_owner d s i = None \<and> (\<forall>j < i. slot_owner d s j \<noteq> None) \<and>
    i < length (buff_slots dv) \<and> buff_slots dv ! i = None \<and> bind_free_slot E d b s = bind_slot E d b (int i) s"
proof -
  obtain k where k: "k < 16" "slot_owner d s k = None"
    using slots_ok_free_slots [OF assms(1,2)] assms(3) slot_owner_Some [OF assms(1,2)] by auto
  define i where "i = (LEAST i. slot_owner d s i = None)"
  have i: "i < 16" "slot_owner d s i = None" "\<forall>j < i. slot_owner d s j \<noteq> None"
    using k Least_le [of "\<lambda>i. slot_owner d s i = None" k]
    by (auto simp: i_def intro: LeastI dest: not_less_Least)
  moreover have "i < length (buff_slots dv)" "buff_slots dv ! i = None"
    using assms(1,2) i(1,2) slot_owner_Some [OF assms(1,2)] by (auto simp: slots_ok_def)
  moreover have "bind_free_slot E d b s = bind_slot E d b (int i) s"
    using get_slot_least [OF assms(1) i] by (simp add: bind_free_slot_def)
  ultimately show ?thesis by blast
qed

lemma bind_free_slot_law:
  assumes "slot_inv E d s" "known_buffer d s b" "b \<notin> ran (slot_owner d s)" "i < 16"
    and "slot_owner d s i = None" "\<forall>j < i. slot_owner d s j \<noteq> None"
  shows "\<exists>s'. bind_free_slot E d b s = Inr s' \<and> slot_inv E d s'
    \<and> slot_owner d s' = (slot_owner d s)(i \<mapsto> b) \<and> known_buffer d s' = known_buffer d s"
proof -
  obtain dv where dv: "devs s d = Some dv" "\<not> feed_lock dv" and E: "drains E" and ok: "slots_ok d s"
    using assms(1) by (auto simp: slot_inv_def)
  obtain bf t where bf: "buffs s b = Some bf" "buff_dev bf = d" "pts s (buff_pt bf) = Some t"
    using assms(2) by (auto simp: known_buffer_def)
  have un: "binded_slot bf = -1" using unbound_iff [OF ok bf(1,2)] assms(3) by simp
  have free: "i < length (buff_slots dv)" "buff_slots dv ! i = None"
    using ok dv(1) assms(4,5) slot_owner_Some [OF ok dv(1)] by (auto simp: slots_ok_def)
  note run = bind_slot_run [OF E dv bf(1,3) free]
  let ?s = "projr (bind_slot E d b (int i) s)"
  have eq: "bind_free_slot E d b s = Inr ?s"
    using get_slot_least [OF ok assms(4-6)] by (simp add: bind_free_slot_def run)
  have ok': "slots_ok d ?s" unfolding run using slots_ok_bind [OF ok dv(1) bf(1,2) un free] by simp
  have "slot_owner d ?s = (slot_owner d s)(i \<mapsto> b)"
    using dv(1) free by (auto simp: run slot_owner_def fun_eq_iff nth_list_update)
  moreover have "known_buffer d ?s = known_buffer d s"
    using bf by (auto simp: run known_buffer_def fun_eq_iff)
  moreover have "slot_inv E d ?s" using ok' E dv by (simp add: slot_inv_def run)
  ultimately show ?thesis using eq by blast
qed

lemma unbind_slot_law:
  assumes "slot_inv E d s" "slot_owner d s i = Some b"
  shows "\<exists>s'. unbind_slot E d b s = Inr s' \<and> slot_inv E d s'
    \<and> slot_owner d s' = (slot_owner d s)(i := None) \<and> known_buffer d s' = known_buffer d s"
proof -
  obtain dv where dv: "devs s d = Some dv" "\<not> feed_lock dv" and E: "drains E" and ok: "slots_ok d s"
    using assms(1) by (auto simp: slot_inv_def)
  obtain bf where bf: "buffs s b = Some bf" "buff_dev bf = d" "binded_slot bf = int i"
    using assms(2) slot_owner_iff [OF ok] by auto
  note i = slots_ok_bound [OF ok dv(1) bf]
  have il: "i < length (buff_slots dv)" using i by simp
  note run = unbind_slot_run [OF E dv bf(1,3) il]
  let ?s = "projr (unbind_slot E d b s)"
  have ok': "slots_ok d ?s" unfolding run using slots_ok_unbind [OF ok dv(1) bf] by simp
  have "slot_owner d ?s = (slot_owner d s)(i := None)"
    using dv(1) i by (auto simp: run slot_owner_def fun_eq_iff nth_list_update)
  moreover have "known_buffer d ?s = known_buffer d s"
    using bf by (auto simp: run known_buffer_def fun_eq_iff)
  moreover have "slot_inv E d ?s" using ok' E dv by (simp add: slot_inv_def run)
  ultimately show ?thesis by (auto simp: run)
qed

interpretation slots: slot_table "slot_inv E d" "slot_owner d" "known_buffer d" 16 "bind_free_slot E d" "unbind_slot E d"
  for E :: env and d :: ptr
proof unfold_locales
  fix s i j b
  assume s: "slot_inv E d s" and i: "slot_owner d s i = Some b"
  then have ok: "slots_ok d s" by (simp add: slot_inv_def)
  show "i < 16" using i slot_owner_iff [OF ok] by simp
  assume "slot_owner d s j = Some b"
  then show "i = j" using i slot_owner_iff [OF ok] by auto
qed (simp_all add: bind_free_slot_law unbind_slot_law)

section \<open>A sample state\<close>

text \<open>One device, one context and one buffer of a page, used by the witnesses.\<close>

definition dev0 :: dicedev_device where
  "dev0 = \<lparr>idx = 0, dev_node = True, bar = [], slock = False, feed_lock = False,
     fence_state = DICEDEV_FENCE_STATE_NONE, dev_failed = False, buff_slots = replicate 16 None,
     free_slots = 16, wt_thread = \<lparr>should_stop = False, should_park = False\<rparr>, event_cond = 0,
     pending_tasks = [], running_task = None\<rparr>"

definition ctx0 :: dicedev_context where
  "ctx0 = \<lparr>ctx_dev = 10, ctx_failed = False, task_count = 0, wq = 0, allocated_buffers = [11]\<rparr>"

definition buff0 :: dicedev_buffer where
  "buff0 = \<lparr>buff_pt = 13, buff_dev = 10, buff_ctx = 12, buff_file = 14, destroyed = False, seed = 42,
     seed_chg = False, allowed = 0x20, usage_count = 0, binded_slot = -1,
     reader = \<lparr>reader_result_count = 0, reader_offset = 0\<rparr>\<rparr>"

definition table0 :: dicedev_page_table where
  "table0 = \<lparr>pt_page = mk_page env0 16, pages = [mk_page env0 17], num_pages = 1, max_size = 0x1000\<rparr>"

definition state0 :: kstate where
  "state0 = \<lparr>mem = \<lparr>page_mem = [16 \<mapsto> entries env0 [17], 17 \<mapsto> replicate 1024 0], next_ptr = 18, clock = 0\<rparr>,
     pts = [13 \<mapsto> table0], devs = [10 \<mapsto> dev0], ctxs = [12 \<mapsto> ctx0], buffs = [11 \<mapsto> buff0],
     tasks = Map.empty, cmds = Map.empty,
     files = [14 \<mapsto> \<lparr>private_data = PrivBuff 11, f_count = 2\<rparr>, 15 \<mapsto> \<lparr>private_data = PrivCtx 12, f_count = 1\<rparr>],
     fds = [3 \<mapsto> 15, 4 \<mapsto> 14]\<rparr>"

lemmas sample_defs = dev0_def ctx0_def buff0_def table0_def state0_def

lemma state0_sel [simp]:
  "devs state0 10 = Some dev0" "ctxs state0 12 = Some ctx0" "buffs state0 11 = Some buff0"
  "pts state0 13 = Some table0" "buffs state0 p = Some bf \<longleftrightarrow> p = 11 \<and> bf = buff0"
  by (auto simp: state0_def)

lemma dev0_sel [simp]:
  "bar dev0 = []" "\<not> slock dev0" "\<not> feed_lock dev0" "fence_state dev0 = DICEDEV_FENCE_STATE_NONE"
  "\<not> dev_failed dev0" "buff_slots dev0 = replicate 16 None" "free_slots dev0 = 16"
  "pending_tasks dev0 = []" "running_task dev0 = None" "event_cond dev0 = 0"
  by (simp_all add: dev0_def)

lemma buff0_sel [simp]:
  "buff_pt buff0 = 13" "buff_dev buff0 = 10" "buff_ctx buff0 = 12" "binded_slot buff0 = -1"
  "seed buff0 = 42" "allowed buff0 = 0x20" "\<not> destroyed buff0"
  by (simp_all add: buff0_def)

lemma ctx0_sel [simp]:
  "ctx_dev ctx0 = 10" "\<not> ctx_failed ctx0" "task_count ctx0 = 0" "allocated_buffers ctx0 = [11]"
  by (simp_all add: ctx0_def)

lemma drains_env0 [simp]: "drains env0"
  by (simp add: drains_def env0_def)

lemma count_replicate_same: "count_list (replicate n x) x = n"
  by (induction n) auto

lemma slot_inv_state0 [simp]: "slot_inv env0 10 state0"
  by (auto simp: slot_inv_def slots_ok_def count_replicate_same)

lemma slot_owner_state0 [simp]: "slot_owner 10 state0 = Map.empty"
  by (auto simp: slot_owner_def)

section \<open>Properties\<close>

text \<open>
  C14. If the device drains its queue, \<open>feed_cmd\<close> returns, and the words it was given have
  been written to \<open>CMD_MANUAL_FEED\<close>, all of them, in order and nothing else, each one
  directly after a reading of \<open>CMD_MANUAL_FREE\<close> that was not 0. Only the register history
  of this device changes, and the feed lock is free again.
\<close>

theorem feed_cmd_delivers:
  assumes "drains E" "devs s d = Some dv" "\<not> feed_lock dv" "paced (bar dv)"
  shows "\<exists>h. feed_cmd E d cmd s = Inr (s\<lparr>devs := (devs s)(d \<mapsto> dv\<lparr>bar := h\<rparr>)\<rparr>)
    \<and> writes h = writes (bar dv) @ map (Pair CMD_MANUAL_FEED) cmd \<and> paced h"
  using assms fed_hist [OF assms(1)] feed_cmd_drains [OF assms(1-3)] by blast

theorem feed_cmd_delivers_witness:
  "\<exists>h. feed_cmd env0 10 [0x2a3] state0 = Inr (state0\<lparr>devs := (devs state0)(10 \<mapsto> dev0\<lparr>bar := h\<rparr>)\<rparr>)
    \<and> writes h = [(CMD_MANUAL_FEED, 0x2a3)] \<and> paced h"
  using feed_cmd_delivers [of env0 state0 10 dev0 "[0x2a3]"] by (simp add: paced_def)

text \<open>
  C11. \<open>bind_slot(dev, buff, get_slot(dev))\<close> on an unbound buffer, when a slot is free, never
  hits its \<open>BUG_ON\<close>: the slot it takes is the least free one, the buffer records it, every other
  slot keeps its owner, \<open>free_slots\<close> goes down by one, and the device receives the bind
  command with the slot, the low 20 bits of the seed, the allowed set and the bus address of the buffer's page
  table.
\<close>

theorem bind_free_slot_correct:
  assumes "slot_inv E d s" "devs s d = Some dv" "buffs s b = Some bf" "buff_dev bf = d"
    and "binded_slot bf = DICEDEV_BUFFER_NO_SLOT" "pts s (buff_pt bf) = Some t" "0 < free_slots dv"
  shows "\<exists>s' dv' bf' i hdr. bind_free_slot E d b s = Inr s' \<and> slot_inv E d s' \<and>
    devs s' d = Some dv' \<and> buffs s' b = Some bf' \<and>
    i < 16 \<and> slot_owner d s i = None \<and> (\<forall>j < i. slot_owner d s j \<noteq> None) \<and>
    slot_owner d s' = (slot_owner d s)(i \<mapsto> b) \<and> binded_slot bf' = int i \<and>
    free_slots dv' = free_slots dv - 1 \<and>
    fed (bar dv') = fed (bar dv) @ [hdr, allowed bf, ucast (dma_handler (pt_page t)),
      ucast (drop_bit 32 (dma_handler (pt_page t)))] \<and>
    field 0 4 hdr = DICEDEV_USER_CMD_TYPE_BIND_SLOT \<and> field 4 8 hdr = of_nat i \<and>
    field 12 20 hdr = ucast (take_bit 20 (seed bf))"
proof -
  have E: "drains E" and ok: "slots_ok d s" and fl: "\<not> feed_lock dv"
    using assms(1,2) by (auto simp: slot_inv_def)
  obtain i where i: "i < 16" "slot_owner d s i = None" "\<forall>j < i. slot_owner d s j \<noteq> None"
    and len: "i < length (buff_slots dv)" "buff_slots dv ! i = None"
    and run: "bind_free_slot E d b s = bind_slot E d b (int i) s"
    using bind_free_slot_least [OF ok assms(2,7)] by metis
  have kb: "known_buffer d s b" and ub: "b \<notin> ran (slot_owner d s)"
    using assms unbound_iff [OF ok assms(3,4)] by (auto simp: known_buffer_def)
  obtain s' where s': "bind_free_slot E d b s = Inr s'" "slot_inv E d s'"
      "slot_owner d s' = (slot_owner d s)(i \<mapsto> b)"
    using bind_free_slot_law [OF assms(1) kb ub i] by blast
  show ?thesis
    using s' i bind_slot_run [OF E assms(2) fl assms(3,6) len] bind_header_fields [of "int i" "seed bf"]
    unfolding run by (auto simp: fed_hist [OF E])
qed

theorem bind_free_slot_correct_witness:
  "\<exists>s' bf'. bind_free_slot env0 10 11 state0 = Inr s' \<and> buffs s' 11 = Some bf' \<and> 0 \<le> binded_slot bf'"
  using bind_free_slot_correct [of env0 10 state0 dev0 11 buff0 table0] by fastforce

text \<open>
  C12. \<open>unbind_slot\<close> on a bound buffer frees exactly the slot the buffer records: that slot is
  empty afterwards, every other slot keeps its owner, the buffer is unbound, \<open>free_slots\<close>
  goes up by one, and the device receives the unbind command for that slot.
\<close>

theorem unbind_slot_correct:
  assumes "slot_inv E d s" "devs s d = Some dv" "buffs s b = Some bf" "buff_dev bf = d"
    and "binded_slot bf \<noteq> DICEDEV_BUFFER_NO_SLOT"
  shows "\<exists>s' dv' bf' hdr. unbind_slot E d b s = Inr s' \<and> slot_inv E d s' \<and>
    devs s' d = Some dv' \<and> buffs s' b = Some bf' \<and> binded_slot bf' = DICEDEV_BUFFER_NO_SLOT \<and>
    slot_owner d s (nat (binded_slot bf)) = Some b \<and>
    slot_owner d s' = (slot_owner d s)(nat (binded_slot bf) := None) \<and>
    free_slots dv' = free_slots dv + 1 \<and> fed (bar dv') = fed (bar dv) @ [hdr] \<and>
    field 0 4 hdr = DICEDEV_USER_CMD_TYPE_UNBIND_SLOT \<and> field 4 8 hdr = word_of_int (binded_slot bf)"
proof -
  have E: "drains E" and ok: "slots_ok d s" and fl: "\<not> feed_lock dv"
    using assms(1,2) by (auto simp: slot_inv_def)
  obtain i where bi: "binded_slot bf = int i"
    using bound_slot_int [OF ok assms(3,4)] assms(5) by auto
  note i = slots_ok_bound [OF ok assms(2-4) bi]
  have ow: "slot_owner d s i = Some b" using assms(3,4) bi i(1) by (subst slot_owner_iff [OF ok]) auto
  obtain s' where s': "unbind_slot E d b s = Inr s'" "slot_inv E d s'"
      "slot_owner d s' = (slot_owner d s)(i := None)"
    using unbind_slot_law [OF assms(1) ow] by blast
  have "i < length (buff_slots dv)" using i by simp
  then show ?thesis
    using s' ow bi i(1) unbind_slot_run [OF E assms(2) fl assms(3) bi] unbind_header_fields [of "int i"]
    by (auto simp: fed_hist [OF E])
qed

definition bound_dev0 :: dicedev_device where
  "bound_dev0 = dev0\<lparr>buff_slots := Some 11 # replicate 15 None, free_slots := 15\<rparr>"

definition bound_buff0 :: dicedev_buffer where
  "bound_buff0 = buff0\<lparr>binded_slot := 0, usage_count := 1\<rparr>"

definition bound0 :: kstate where
  "bound0 = state0\<lparr>devs := [10 \<mapsto> bound_dev0], buffs := [11 \<mapsto> bound_buff0]\<rparr>"

lemma bound0_sel [simp]:
  "devs bound0 10 = Some bound_dev0" "buffs bound0 p = Some bf \<longleftrightarrow> p = 11 \<and> bf = bound_buff0"
  "\<not> feed_lock bound_dev0" "buff_slots bound_dev0 = Some 11 # replicate 15 None" "free_slots bound_dev0 = 15"
  "binded_slot bound_buff0 = 0" "buff_dev bound_buff0 = 10"
  by (auto simp: bound0_def bound_dev0_def bound_buff0_def)

lemma slot_inv_bound0 [simp]: "slot_inv env0 10 bound0"
  by (auto simp: slot_inv_def slots_ok_def count_replicate_same nth_Cons' split: if_splits)

theorem unbind_slot_correct_witness:
  "\<exists>s'. unbind_slot env0 10 11 bound0 = Inr s' \<and> slot_owner 10 s' 0 = None"
  using unbind_slot_correct [of env0 10 bound0 bound_dev0 11 bound_buff0] by auto

text \<open>
  Binding a free slot to a buffer and unbinding it again restores the owners of all slots.
\<close>

theorem bind_unbind_roundtrip:
  assumes "slot_inv E d s" "known_buffer d s b" "b \<notin> ran (slot_owner d s)" "\<exists>i < 16. slot_owner d s i = None"
  shows "\<exists>s' s''. bind_free_slot E d b s = Inr s' \<and> unbind_slot E d b s' = Inr s'' \<and> slot_inv E d s''
    \<and> slot_owner d s'' = slot_owner d s"
  using slots.bind_if_room [OF assms] slots.bind_unbind [OF assms] by blast

theorem bind_unbind_roundtrip_witness:
  "\<exists>s' s''. bind_free_slot env0 10 11 state0 = Inr s' \<and> unbind_slot env0 10 11 s' = Inr s''
    \<and> slot_owner 10 s'' = Map.empty"
proof -
  have k: "known_buffer 10 state0 11" by (auto simp: known_buffer_def)
  have u: "11 \<notin> ran (slot_owner 10 state0)" and f: "\<exists>i < 16. slot_owner 10 state0 i = None"
    by (auto intro: exI [of _ 0])
  show ?thesis using bind_unbind_roundtrip [OF slot_inv_state0 k u f] by auto
qed

end
