(* ===== verification/Dicedev_Bits.thy ===== *)
theory Dicedev_Bits
  imports Dicedev_Abi
begin

text \<open>
  The bit-level helpers of \<^verbatim>\<open>dicedev_wt.c\<close>: the masks that pick fields of a command word, and
  the parallel bit count, shown equal to the number of set bits.
\<close>

section \<open>Masks\<close>

definition DICEDEV_CMD_TYPE_MASK :: u32 where "DICEDEV_CMD_TYPE_MASK = 0xF"
definition DICEDEV_TASK_FENCE_VAL :: u32 where "DICEDEV_TASK_FENCE_VAL = 42"

definition GET_DIE_SLOT_MASK :: u32 where
  "GET_DIE_SLOT_MASK = (push_bit 28 1 - 1) XOR (push_bit 25 1 - 1)"

definition GET_DIE_NUM_MASK :: u32 where
  "GET_DIE_NUM_MASK = (push_bit 20 1 - 1) XOR (push_bit 5 1 - 1)"

definition NEW_SET_SLOT_MASK :: u32 where
  "NEW_SET_SLOT_MASK = (push_bit 8 1 - 1) XOR (push_bit 5 1 - 1)"

lemma bit_ones: "bit (push_bit n 1 - 1 :: u32) k \<longleftrightarrow> k < n \<and> k < 32"
  using bit_mask_iff [where 'a = u32, of n k] by (auto simp: mask_eq_exp_minus_1 push_bit_of_1)

lemma bit_masks:
  "bit DICEDEV_CMD_TYPE_MASK k \<longleftrightarrow> k < 4"
  "bit GET_DIE_SLOT_MASK k \<longleftrightarrow> 25 \<le> k \<and> k < 28"
  "bit GET_DIE_NUM_MASK k \<longleftrightarrow> 5 \<le> k \<and> k < 20"
  "bit NEW_SET_SLOT_MASK k \<longleftrightarrow> 5 \<le> k \<and> k < 8"
proof -
  have e: "DICEDEV_CMD_TYPE_MASK = mask 4" by (simp add: DICEDEV_CMD_TYPE_MASK_def mask_eq_exp_minus_1)
  show "bit DICEDEV_CMD_TYPE_MASK k \<longleftrightarrow> k < 4" by (subst e) (auto simp: bit_mask_iff)
qed (auto simp only: GET_DIE_SLOT_MASK_def GET_DIE_NUM_MASK_def NEW_SET_SLOT_MASK_def bit_xor_iff bit_ones)

section \<open>The bit count\<close>

definition numbers_of_bits_set :: "u32 \<Rightarrow> int" where
  "numbers_of_bits_set i =
     (let i = i - (drop_bit 1 i AND 0x55555555);
          i = (i AND 0x33333333) + (drop_bit 2 i AND 0x33333333);
          i = (i + drop_bit 4 i) AND 0x0F0F0F0F
      in uint (drop_bit 24 (i * 0x01010101)))"

text \<open>A word as its four bytes.\<close>

definition bytes :: "nat \<Rightarrow> nat \<Rightarrow> nat \<Rightarrow> nat \<Rightarrow> u32" where
  "bytes a b c d = of_nat (a + 2 ^ 8 * (b + 2 ^ 8 * (c + 2 ^ 8 * d)))"

lemma bit_add_high:
  fixes a c :: nat
  assumes "a < 2 ^ n"
  shows "bit (a + 2 ^ n * c) k \<longleftrightarrow> (if k < n then bit a k else bit c (k - n))"
proof (cases "k < n")
  case True
  then have p: "(2::nat) ^ n = 2 ^ k * 2 ^ (n - k)" by (simp flip: power_add)
  then have "(a + 2 ^ n * c) div 2 ^ k = a div 2 ^ k + 2 ^ (n - k) * c"
    by (simp add: mult.assoc)
  then show ?thesis using True by (simp add: bit_iff_odd)
next
  case False
  then have "(2::nat) ^ k = 2 ^ n * 2 ^ (k - n)" by (simp flip: power_add)
  then have "(a + 2 ^ n * c) div 2 ^ k = c div 2 ^ (k - n)"
    using assms by (simp add: div_mult2_eq)
  then show ?thesis using False by (simp add: bit_iff_odd)
qed

lemma bit_bytes:
  assumes "a < 256" "b < 256" "c < 256" "d < 256"
  shows "bit (bytes a b c d) k \<longleftrightarrow>
    (if k < 8 then bit a k else if k < 16 then bit b (k - 8) else if k < 24 then bit c (k - 16)
     else k < 32 \<and> bit d (k - 24))"
proof -
  have p: "a < 2 ^ 8" "b < 2 ^ 8" "c < 2 ^ 8" using assms by simp_all
  have "bit (a + 2 ^ 8 * (b + 2 ^ 8 * (c + 2 ^ 8 * d))) k \<longleftrightarrow>
    (if k < 8 then bit a k else if k - 8 < 8 then bit b (k - 8)
     else if k - 8 - 8 < 8 then bit c (k - 8 - 8) else bit d (k - 8 - 8 - 8))"
    by (simp only: bit_add_high [OF p(1)] bit_add_high [OF p(2)] bit_add_high [OF p(3)])
  then show ?thesis unfolding bytes_def bit_of_nat_iff by auto
qed

lemma bytes_exhaust:
  obtains a b c d where "i = bytes a b c d" "a < 256" "b < 256" "c < 256" "d < 256"
proof
  let ?q = "\<lambda>n :: nat. n div 256"
  let ?n = "unat i"
  have "n = n mod 256 + 256 * ?q n" for n by simp
  then have e: "?n = ?n mod 256 + 256 * (?q ?n mod 256 + 256 * (?q (?q ?n) mod 256 + 256 * ?q (?q (?q ?n))))"
    by metis
  have "(2::nat) ^ 8 = 256" by simp
  then have "bytes (?n mod 256) (?q ?n mod 256) (?q (?q ?n) mod 256) (?q (?q (?q ?n))) = of_nat ?n"
    unfolding bytes_def using e by presburger
  then show "i = bytes (?n mod 256) (?q ?n mod 256) (?q (?q ?n) mod 256) (?q (?q (?q ?n)))" by simp
  have "?n < 2 ^ 32" using unsigned_less [of i] by simp
  then show "?q (?q (?q ?n)) < 256" by (simp add: div_mult2_eq [symmetric])
qed simp_all

lemma drop_and_bytes:
  assumes "a < 256" "b < 256" "c < 256" "d < 256" "m < 2 ^ (8 - n)" "n \<le> 8"
  shows "drop_bit n (bytes a b c d) AND bytes m m m m
    = bytes (drop_bit n a AND m) (drop_bit n b AND m) (drop_bit n c AND m) (drop_bit n d AND m)"
proof -
  have m: "m < 256" using assms(5) power_increasing [of "8 - n" 8 "2::nat"] by simp
  have "k < 8 - n" if "bit m k" for k
    using that assms(5) by (metis bit_take_bit_iff take_bit_nat_eq_self)
  then have mb: "n + k < 8" if "bit m k" for k using that by fastforce
  have "take_bit 8 (drop_bit n x AND m) = drop_bit n x AND m" for x
    by (rule bit_eqI) (use mb in \<open>fastforce simp: bit_simps\<close>)
  then have small: "drop_bit n x AND m < 256" for x
    using take_bit_nat_less_exp [of 8 "drop_bit n x AND m"] by simp
  show ?thesis
  proof (rule bit_word_eqI)
    fix k assume "k < LENGTH(32)"
    then consider "k < 8" | "8 \<le> k" "k < 16" | "16 \<le> k" "k < 24" | "24 \<le> k" "k < 32"
      by fastforce
    then show "bit (drop_bit n (bytes a b c d) AND bytes m m m m) k \<longleftrightarrow>
      bit (bytes (drop_bit n a AND m) (drop_bit n b AND m) (drop_bit n c AND m) (drop_bit n d AND m)) k"
    proof cases
      case 1
      then show ?thesis using assms(1-4) m small mb [of k]
        by (cases "bit m k") (simp_all add: bit_and_iff bit_drop_bit_eq bit_bytes)
    next
      case 2
      then have "n + k < 16" if "bit m (k - 8)" using mb [OF that] by simp
      with 2 show ?thesis using assms(1-4) m small
        by (cases "bit m (k - 8)") (simp_all add: bit_and_iff bit_drop_bit_eq bit_bytes)
    next
      case 3
      then have "n + k < 24" if "bit m (k - 16)" using mb [OF that] by simp
      with 3 show ?thesis using assms(1-4) m small
        by (cases "bit m (k - 16)") (simp_all add: bit_and_iff bit_drop_bit_eq bit_bytes)
    next
      case 4
      then have "n + k < 32" if "bit m (k - 24)" using mb [OF that] by simp
      with 4 show ?thesis using assms(1-4) m small
        by (cases "bit m (k - 24)") (simp_all add: bit_and_iff bit_drop_bit_eq bit_bytes)
    qed
  qed
qed

lemma bytes_add: "bytes a b c d + bytes a' b' c' d' = bytes (a + a') (b + b') (c + c') (d + d')"
  by (simp add: bytes_def algebra_simps)

lemma bytes_diff:
  "a' \<le> a \<Longrightarrow> b' \<le> b \<Longrightarrow> c' \<le> c \<Longrightarrow> d' \<le> d \<Longrightarrow>
   bytes a b c d - bytes a' b' c' d' = bytes (a - a') (b - b') (c - c') (d - d')"
  using bytes_add [of "a - a'" "b - b'" "c - c'" "d - d'" a' b' c' d'] by (simp add: diff_eq_eq)

text \<open>The two first steps on one byte, checked on every byte.\<close>

definition pairs :: "nat \<Rightarrow> nat" where
  "pairs a = a - (drop_bit 1 a AND 0x55)"

definition quads :: "nat \<Rightarrow> nat" where
  "quads a = (drop_bit 0 (pairs a) AND 0x33) + (drop_bit 2 (pairs a) AND 0x33)"

definition ones :: "nat \<Rightarrow> nat" where
  "ones a = length (filter (bit a) [0..<8])"

definition byte_ok :: "nat \<Rightarrow> bool" where
  "byte_ok a \<longleftrightarrow> drop_bit 1 a AND 0x55 \<le> a \<and> pairs a < 256 \<and> quads a mod 16 \<le> 4 \<and>
     quads a div 16 \<le> 4 \<and> quads a mod 16 + quads a div 16 = ones a"

lemma byte_ok_all: "byte_ok 0" "byte_ok 1" "list_all byte_ok [2..<256]"
proof -
  have eight: "[0..<8] = [0, 1, 2, 3, 4, 5, 6, 7 :: nat]" by (simp add: upt_rec)
  show "byte_ok 0" "byte_ok 1" "list_all byte_ok [2..<256]"
    by (simp_all add: byte_ok_def pairs_def quads_def ones_def eight bit_0)
qed

lemma byte_ok: "a < 256 \<Longrightarrow> byte_ok a"
proof -
  assume "a < 256"
  then have "a = 0 \<or> a = 1 \<or> a \<in> {2..<256}" by auto
  then show ?thesis using byte_ok_all unfolding list_all_iff set_upt by blast
qed

subsection \<open>Adding the nibbles, and the bytes\<close>

lemma drop_nibble_bytes:
  assumes "l0 \<le> 4" "l1 \<le> 4" "l2 \<le> 4" "l3 \<le> 4" "h0 \<le> 4" "h1 \<le> 4" "h2 \<le> 4" "h3 \<le> 4"
  shows "drop_bit 4 (bytes (l0 + 16 * h0) (l1 + 16 * h1) (l2 + 16 * h2) (l3 + 16 * h3))
    = bytes (h0 + 16 * l1) (h1 + 16 * l2) (h2 + 16 * l3) h3"
proof -
  define m where "m = h0 + 16 * l1 + 2 ^ 8 * (h1 + 16 * l2 + 2 ^ 8 * (h2 + 16 * l3 + 2 ^ 8 * h3))"
  have b: "bytes (l0 + 16 * h0) (l1 + 16 * h1) (l2 + 16 * h2) (l3 + 16 * h3) = of_nat (l0 + 16 * m)"
    by (simp add: bytes_def m_def algebra_simps)
  have m: "l0 + 16 * m < 2 ^ 32" "m < 2 ^ 32" using assms by (simp_all add: m_def)
  have "unat (drop_bit 4 (of_nat (l0 + 16 * m) :: u32)) = drop_bit 4 (l0 + 16 * m)"
    by (simp only: unat_drop_bit_eq unat_of_nat_u32 [OF m(1)])
  also have "\<dots> = unat (of_nat m :: u32)"
    using assms(1) m(2) by (simp add: drop_bit_eq_div unat_of_nat_u32)
  finally have "drop_bit 4 (of_nat (l0 + 16 * m) :: u32) = of_nat m" by (rule unsigned_word_eqI)
  then show ?thesis unfolding b by (simp only: bytes_def m_def)
qed

lemma nibble_sum:
  fixes l h x :: nat
  assumes "l \<le> 4" "h \<le> 4" "x \<le> 4"
  shows "l + 16 * h + (h + 16 * x) < 256" "(l + 16 * h + (h + 16 * x)) AND 15 = l + h"
proof -
  have "(l + 16 * h + (h + 16 * x)) AND 15 = (l + h + 16 * (h + x)) mod 16"
    using take_bit_eq_mask [of 4 "l + 16 * h + (h + 16 * x)"]
    by (simp add: take_bit_eq_mod mask_eq_exp_minus_1 algebra_simps)
  also have "\<dots> = l + h" using assms by (subst mod_mult_self2) simp
  finally show "(l + 16 * h + (h + 16 * x)) AND 15 = l + h" .
  show "l + 16 * h + (h + 16 * x) < 256" using assms by simp
qed

lemma add_nibbles:
  assumes "l0 \<le> 4" "l1 \<le> 4" "l2 \<le> 4" "l3 \<le> 4" "h0 \<le> 4" "h1 \<le> 4" "h2 \<le> 4" "h3 \<le> 4"
    and "w = bytes (l0 + 16 * h0) (l1 + 16 * h1) (l2 + 16 * h2) (l3 + 16 * h3)"
  shows "(w + drop_bit 4 w) AND bytes 15 15 15 15 = bytes (l0 + h0) (l1 + h1) (l2 + h2) (l3 + h3)"
proof -
  let ?b = "\<lambda>l h x :: nat. l + 16 * h + (h + 16 * x)"
  have "w + drop_bit 4 w = bytes (?b l0 h0 l1) (?b l1 h1 l2) (?b l2 h2 l3) (?b l3 h3 0)"
    unfolding assms(9) drop_nibble_bytes [OF assms(1-8)] bytes_add by simp
  then show ?thesis
    using drop_and_bytes [of "?b l0 h0 l1" "?b l1 h1 l2" "?b l2 h2 l3" "?b l3 h3 0" 15 0]
    by (simp only: nibble_sum assms(1-8) le0 drop_bit_0 id_apply) simp
qed

lemma sum_bytes:
  assumes "c0 \<le> 8" "c1 \<le> 8" "c2 \<le> 8" "c3 \<le> 8"
  shows "uint (drop_bit 24 (bytes c0 c1 c2 c3 * 0x01010101)) = int (c0 + c1 + c2 + c3)"
proof -
  define r where "r = c0 + 256 * (c0 + c1) + 65536 * (c0 + c1 + c2)"
  define S where "S = c0 + c1 + c2 + c3"
  let ?K = "c1 + c2 + c3 + 256 * (c2 + c3) + 65536 * c3"
  have e: "(c0 + 256 * (c1 + 256 * (c2 + 256 * c3))) * 16843009 = r + 2 ^ 24 * S + 2 ^ 32 * ?K"
    by (simp add: r_def S_def algebra_simps)
  have "bytes c0 c1 c2 c3 * 0x01010101 = of_nat ((c0 + 256 * (c1 + 256 * (c2 + 256 * c3))) * 16843009)"
    by (simp add: bytes_def)
  also have "\<dots> = of_nat (r + 2 ^ 24 * S) + 2 ^ 32 * of_nat ?K"
    unfolding e by simp
  also have "(2::u32) ^ 32 = 0" by simp
  finally have b: "bytes c0 c1 c2 c3 * 0x01010101 = of_nat (r + 2 ^ 24 * S)" by simp
  have s: "r < 2 ^ 24" "r + 2 ^ 24 * S < 2 ^ 32" using assms by (simp_all add: r_def S_def)
  have "unat (drop_bit 24 (bytes c0 c1 c2 c3 * 0x01010101)) = S"
    unfolding b unat_drop_bit_eq unat_of_nat_u32 [OF s(2)] using s(1) by (simp add: drop_bit_eq_div)
  then have "int (unat (drop_bit 24 (bytes c0 c1 c2 c3 * 0x01010101))) = int S" by simp
  then show ?thesis by (simp only: of_nat_unat S_def)
qed

lemma card_bits_bytes:
  assumes "a < 256" "b < 256" "c < 256" "d < 256"
  shows "card {n. bit (bytes a b c d) n} = ones a + ones b + ones c + ones d"
proof -
  let ?w = "bytes a b c d"
  let ?f = "\<lambda>m. length (filter (bit ?w) [0..<m])"
  have step: "?f (m + 8) = ?f m + ones x" if "\<And>n. n < 8 \<Longrightarrow> bit ?w (n + m) \<longleftrightarrow> bit x n" for m x
  proof -
    have "[0..<m + 8] = [0..<m] @ map (\<lambda>n. n + m) [0..<8]"
      by (simp only: upt_add_eq_append [OF le0] map_add_upt) (simp add: add.commute)
    then have "?f (m + 8) = ?f m + length (filter (\<lambda>n. bit ?w (n + m)) [0..<8])"
      by (simp add: filter_map comp_def)
    also have "filter (\<lambda>n. bit ?w (n + m)) [0..<8] = filter (bit x) [0..<8]"
      using that by (intro filter_cong) auto
    finally show ?thesis unfolding ones_def .
  qed
  have "?f 8 = ones a" using step [of 0 a] assms by (simp add: bit_bytes)
  moreover have "?f 16 = ?f 8 + ones b" using step [of 8 b] assms by (simp add: bit_bytes)
  moreover have "?f 24 = ?f 16 + ones c" using step [of 16 c] assms by (simp add: bit_bytes)
  moreover have "?f 32 = ?f 24 + ones d" using step [of 24 d] assms by (simp add: bit_bytes)
  moreover have "{n. bit ?w n} = set (filter (bit ?w) [0..<32])"
    using bit_imp_le_length [of ?w] by auto
  then have "card {n. bit ?w n} = ?f 32"
    by (simp only: distinct_card [OF distinct_filter [OF distinct_upt]])
  ultimately show ?thesis by simp
qed

text \<open>
  C17. The parallel bit count is the number of set bits, for every 32-bit word.
\<close>

theorem numbers_of_bits_set_card: "numbers_of_bits_set i = int (card {n. bit i n})"
proof -
  obtain a b c d where i: "i = bytes a b c d" and lt: "a < 256" "b < 256" "c < 256" "d < 256"
    by (rule bytes_exhaust)
  note ok = lt [THEN byte_ok, unfolded byte_ok_def]
  have m: "(0x55555555 :: u32) = bytes 0x55 0x55 0x55 0x55" "(0x33333333 :: u32) = bytes 0x33 0x33 0x33 0x33"
    "(0x0F0F0F0F :: u32) = bytes 15 15 15 15" by (simp_all add: bytes_def)
  have 1: "i - (drop_bit 1 i AND 0x55555555) = bytes (pairs a) (pairs b) (pairs c) (pairs d)"
    unfolding i m using lt ok by (simp add: drop_and_bytes bytes_diff pairs_def)
  have 2: "(bytes (pairs a) (pairs b) (pairs c) (pairs d) AND 0x33333333)
      + (drop_bit 2 (bytes (pairs a) (pairs b) (pairs c) (pairs d)) AND 0x33333333)
      = bytes (quads a) (quads b) (quads c) (quads d)" (is "(?p AND _) + _ = _")
    unfolding m using ok drop_and_bytes [of "pairs a" "pairs b" "pairs c" "pairs d" "0x33" 0]
    by (simp add: drop_and_bytes bytes_add quads_def)
  have n: "quads x mod 16 \<le> 4" "quads x div 16 \<le> 4" "quads x mod 16 + quads x div 16 = ones x"
    if "x < 256" for x using byte_ok [OF that] by (simp_all add: byte_ok_def)
  have 3: "(bytes (quads a) (quads b) (quads c) (quads d) + drop_bit 4 (bytes (quads a) (quads b) (quads c) (quads d)))
      AND 0x0F0F0F0F = bytes (ones a) (ones b) (ones c) (ones d)"
    using add_nibbles [OF lt [THEN n(1)] lt [THEN n(2)]] unfolding mod_mult_div_eq m
    by (simp only: n(3) lt)
  have "ones x \<le> 8" for x unfolding ones_def using length_filter_le [of "bit x" "[0..<8]"] by simp
  then show ?thesis
    unfolding numbers_of_bits_set_def Let_def 1 2 3 using lt by (simp add: sum_bytes card_bits_bytes i)
qed

end
