(* ===== verification/Dicedev_Task.thy ===== *)
theory Dicedev_Task
  imports Dicedev_Utils Dicedev_Bits
begin

text \<open>
  Running one task (\<^verbatim>\<open>dicedev_wt.c\<close>, lines 38 to 167): the iterator that hands out the
  command words of a task, and the loop that checks each command and feeds it to the
  device. The loop is related to \<open>exec_words\<close>, which says what a list of command words means.
\<close>

section \<open>The iterator\<close>

text \<open>
  \<open>PAGE_SIZE / 4\<close> is 1024 words. The positions of an iterator are natural numbers: an
  access is only made below the length of the array, so they never wrap.
\<close>

definition next_word :: "kstate \<Rightarrow> dicedev_task_body \<Rightarrow> (u32 \<times> dicedev_task_body) result" where
  "next_word s body = (case body of
     DICEDEV_TASK_TYPE_WRITE w \<Rightarrow>
       bindR (bug_on (w_cmd_size w = of_nat (w_it_offset w))) (\<lambda>_.
       bindR (deref (cmds s) (w_cmd w)) (\<lambda>cmd.
       bindR (index cmd (w_it_offset w)) (\<lambda>x.
       Inr (x, DICEDEV_TASK_TYPE_WRITE (w\<lparr>w_it_offset := Suc (w_it_offset w)\<rparr>)))))
   | DICEDEV_TASK_TYPE_RUN r \<Rightarrow>
       bindR (if r_curr_pg_off r = 1024
              then bindR (deref (buffs s) (r_cBuff r)) (\<lambda>cb.
                   bindR (deref (pts s) (buff_pt cb)) (\<lambda>t.
                   bindR (index (pages t) (Suc (r_curr_pg_no r))) (\<lambda>p.
                   Inr (r\<lparr>r_curr_pg_off := 0, r_curr_pg_no := Suc (r_curr_pg_no r), r_curr_pg := page p\<rparr>))))
              else Inr r) (\<lambda>r.
       bindR (not_null (r_curr_pg r)) (\<lambda>pg.
       bindR (deref (page_mem (mem s)) pg) (\<lambda>ws.
       bindR (index ws (r_curr_pg_off r)) (\<lambda>x.
       Inr (x, DICEDEV_TASK_TYPE_RUN (r\<lparr>r_bytes_left := r_bytes_left r - 4,
         r_curr_pg_off := Suc (r_curr_pg_off r)\<rparr>)))))))"

definition dicedev_task_get_next_word :: "ptr \<Rightarrow> kstate \<Rightarrow> (u32 \<times> kstate) result" where
  "dicedev_task_get_next_word tp s = bindR (deref (tasks s) tp) (\<lambda>t.
     bindR (next_word s (t_body t)) (\<lambda>(x, body).
     bindR (modify_task tp (\<lambda>t. t\<lparr>t_body := body\<rparr>) s) (\<lambda>s. Inr (x, s))))"

definition dicedev_task_init_it :: "ptr \<Rightarrow> kstate \<Rightarrow> kstate result" where
  "dicedev_task_init_it tp s = bindR (deref (tasks s) tp) (\<lambda>t. case t_body t of
     DICEDEV_TASK_TYPE_WRITE w \<Rightarrow>
       modify_task tp (\<lambda>t. t\<lparr>t_body := DICEDEV_TASK_TYPE_WRITE (w\<lparr>w_it_offset := 0\<rparr>)\<rparr>) s
   | DICEDEV_TASK_TYPE_RUN r \<Rightarrow>
       let no = unat (r_offset r) div DICEDEV_PAGE_SIZE;
           off = (unat (r_offset r) mod DICEDEV_PAGE_SIZE) mod 4 in
       bindR (deref (buffs s) (r_cBuff r)) (\<lambda>cb.
       bindR (deref (pts s) (buff_pt cb)) (\<lambda>pt.
       bindR (index (pages pt) no) (\<lambda>p.
       modify_task tp (\<lambda>t. t\<lparr>t_body := DICEDEV_TASK_TYPE_RUN (r\<lparr>r_curr_pg_no := no, r_curr_pg_off := off,
         r_curr_pg := page p, r_bytes_left := r_size r\<rparr>)\<rparr>) s))))"

text \<open>
  The termination measure of the command loop, lexicographic: the pages still to come, then
  the words left in the current page or command array.
\<close>

definition pages_left :: "ptr \<Rightarrow> kstate \<Rightarrow> nat" where
  "pages_left tp s = (case map_option t_body (tasks s tp) of
     Some (DICEDEV_TASK_TYPE_RUN r) \<Rightarrow>
       (case Option.bind (buffs s (r_cBuff r)) (\<lambda>cb. pts s (buff_pt cb)) of
          None \<Rightarrow> 0 | Some t \<Rightarrow> length (pages t) - r_curr_pg_no r)
   | _ \<Rightarrow> 0)"

definition words_left :: "ptr \<Rightarrow> kstate \<Rightarrow> nat" where
  "words_left tp s = (case map_option t_body (tasks s tp) of
     Some (DICEDEV_TASK_TYPE_RUN r) \<Rightarrow>
       (case Option.bind (r_curr_pg r) (page_mem (mem s)) of
          None \<Rightarrow> 0 | Some ws \<Rightarrow> length ws - r_curr_pg_off r)
   | Some (DICEDEV_TASK_TYPE_WRITE w) \<Rightarrow>
       (case cmds s (w_cmd w) of None \<Rightarrow> 0 | Some cmd \<Rightarrow> length cmd - w_it_offset w)
   | None \<Rightarrow> 0)"

lemma get_next_word_decreases:
  assumes "dicedev_task_get_next_word tp s = Inr (x, s')"
  shows "pages_left tp s' < pages_left tp s
    \<or> pages_left tp s' = pages_left tp s \<and> words_left tp s' < words_left tp s"
proof -
  obtain t body where t: "tasks s tp = Some t" and n: "next_word s (t_body t) = Inr (x, body)"
    and s': "s' = s\<lparr>tasks := (tasks s)(tp \<mapsto> t\<lparr>t_body := body\<rparr>)\<rparr>"
    using assms by (auto simp: dicedev_task_get_next_word_def modify_task_def)
  show ?thesis
  proof (cases "t_body t")
    case (DICEDEV_TASK_TYPE_WRITE w)
    then show ?thesis using n t by (auto simp: s' next_word_def pages_left_def words_left_def)
  next
    case (DICEDEV_TASK_TYPE_RUN r)
    then show ?thesis using n t
      by (auto simp: s' next_word_def pages_left_def words_left_def split: if_splits option.splits)
  qed
qed


section \<open>The command loop\<close>

definition dicedev_ctx_set_failed :: "ptr \<Rightarrow> kstate \<Rightarrow> kstate result" where
  "dicedev_ctx_set_failed c s = modify_ctx c (\<lambda>x. x\<lparr>ctx_failed := True\<rparr>) s"

text \<open>
  The number of results the comment of line 133 announces. The code computes it and then adds
  only the masked word to the task's result count.
\<close>

definition get_die_res_count :: "u32 \<Rightarrow> u32 \<Rightarrow> u64" where
  "get_die_res_count c0 c1 = ucast (c0 AND GET_DIE_NUM_MASK) * word_of_int (numbers_of_bits_set c1)"

function wt_run_loop :: "env \<Rightarrow> ptr \<Rightarrow> ptr \<Rightarrow> ptr \<Rightarrow> ptr \<Rightarrow> u64 \<Rightarrow> kstate \<Rightarrow> kstate result" where
  "wt_run_loop E tp ctx d b bytes_left s =
    (if bytes_left > 0 then
       bindR (dicedev_task_get_next_word tp s) (\<lambda>(c0, s).
       if c0 AND DICEDEV_CMD_TYPE_MASK = DICEDEV_USER_CMD_TYPE_NOP then
         wt_run_loop E tp ctx d b (bytes_left - 4) s
       else if c0 AND DICEDEV_CMD_TYPE_MASK = DICEDEV_USER_CMD_TYPE_GET_DIE then
         if bytes_left < 4 then dicedev_ctx_set_failed ctx s
         else bindR (dicedev_task_get_next_word tp s) (\<lambda>(c1, s).
           bindR (deref (buffs s) b) (\<lambda>bf.
           if c0 AND GET_DIE_SLOT_MASK \<noteq> 0 then dicedev_ctx_set_failed ctx s
           else if c1 AND NOT (allowed bf) \<noteq> 0 then dicedev_ctx_set_failed ctx s
           else
             bindR (modify_task tp
               (\<lambda>t. t\<lparr>t_result_count := t_result_count t + ucast (c0 AND GET_DIE_NUM_MASK)\<rparr>) s) (\<lambda>s.
             bindR (feed_cmd E d [c0 OR push_bit 24 (word_of_int (binded_slot bf)), c1] s) (\<lambda>s.
             wt_run_loop E tp ctx d b (bytes_left - 8) s))))
       else if c0 AND DICEDEV_CMD_TYPE_MASK = DICEDEV_USER_CMD_TYPE_NEW_SET then
         if c0 AND NEW_SET_SLOT_MASK \<noteq> 0 then dicedev_ctx_set_failed ctx s
         else bindR (deref (buffs s) b) (\<lambda>bf.
           bindR (feed_cmd E d [c0 OR push_bit 4 (word_of_int (binded_slot bf))] s) (\<lambda>s.
           wt_run_loop E tp ctx d b (bytes_left - 4) s))
       else dicedev_ctx_set_failed ctx s)
     else Inr s)"
  by pat_completeness auto

lemma left_feed_cmd:
  assumes "feed_cmd E d cmd s = Inr s'"
  shows "pages_left tp s' = pages_left tp s" "words_left tp s' = words_left tp s"
  using assms by (auto simp: feed_cmd_eq_Inr pages_left_def words_left_def split: option.splits dicedev_task_body.splits)

lemma left_modify_task:
  assumes "modify_task tp (\<lambda>t. t\<lparr>t_result_count := f t\<rparr>) s = Inr s'"
  shows "pages_left tp s' = pages_left tp s" "words_left tp s' = words_left tp s"
  using assms by (auto simp: modify_eq_Inr pages_left_def words_left_def split: option.splits dicedev_task_body.splits)

termination wt_run_loop
  apply (relation "measures [\<lambda>(E, tp, c, d, b, n, s). pages_left tp s, \<lambda>(E, tp, c, d, b, n, s). words_left tp s]")
     apply simp_all
    apply (auto dest!: get_next_word_decreases simp: left_feed_cmd left_modify_task)
  done


declare wt_run_loop.simps [simp del]

definition wt_run_task :: "env \<Rightarrow> ptr \<Rightarrow> kstate \<Rightarrow> kstate result" where
  "wt_run_task E tp s = bindR (deref (tasks s) tp) (\<lambda>t.
     bindR (deref (ctxs s) (t_ctx t)) (\<lambda>cx.
     let bytes_left = (case t_body t of DICEDEV_TASK_TYPE_WRITE w \<Rightarrow> w_cmd_size w
                                      | DICEDEV_TASK_TYPE_RUN r \<Rightarrow> r_size r) in
     bindR (modify_dev (ctx_dev cx) (\<lambda>dv. dv\<lparr>running_task := Some tp\<rparr>) s) (\<lambda>s.
     bindR (deref (buffs s) (t_buff_out t)) (\<lambda>bf.
     bindR (bug_on (binded_slot bf = DICEDEV_BUFFER_NO_SLOT)) (\<lambda>_.
     bindR (dicedev_task_init_it tp s) (\<lambda>s.
     wt_run_loop E tp (t_ctx t) (ctx_dev cx) (t_buff_out t) bytes_left s))))))"

section \<open>The words of a task\<close>

text \<open>
  The words a task has still to hand out: the rest of the command array, or the rest of the
  concatenated pages of the command buffer.
\<close>

definition page_words :: "kstate \<Rightarrow> dicedev_page \<Rightarrow> u32 list" where
  "page_words s p = (case Option.bind (page p) (page_mem (mem s)) of None \<Rightarrow> [] | Some ws \<Rightarrow> ws)"

definition buffer_pages :: "kstate \<Rightarrow> ptr \<Rightarrow> dicedev_page list" where
  "buffer_pages s b = (case Option.bind (buffs s b) (\<lambda>bf. pts s (buff_pt bf)) of None \<Rightarrow> [] | Some t \<Rightarrow> pages t)"

definition buffer_words :: "kstate \<Rightarrow> ptr \<Rightarrow> u32 list" where
  "buffer_words s b = concat (map (page_words s) (buffer_pages s b))"

fun remaining :: "kstate \<Rightarrow> dicedev_task_body \<Rightarrow> u32 list" where
  "remaining s (DICEDEV_TASK_TYPE_WRITE w) =
     (case cmds s (w_cmd w) of None \<Rightarrow> [] | Some cmd \<Rightarrow> drop (w_it_offset w) cmd)"
| "remaining s (DICEDEV_TASK_TYPE_RUN r) =
     drop (r_curr_pg_no r * 1024 + r_curr_pg_off r) (buffer_words s (r_cBuff r))"

definition backed :: "kstate \<Rightarrow> ptr \<Rightarrow> bool" where
  "backed s b \<longleftrightarrow> (\<exists>bf t. buffs s b = Some bf \<and> pts s (buff_pt bf) = Some t) \<and>
     (\<forall>p \<in> set (buffer_pages s b). length (page_words s p) = 1024)"

fun body_ok :: "kstate \<Rightarrow> dicedev_task_body \<Rightarrow> bool" where
  "body_ok s (DICEDEV_TASK_TYPE_WRITE w) = (\<exists>cmd. cmds s (w_cmd w) = Some cmd \<and> cmd \<noteq> [] \<and>
     4 * length cmd < 2 ^ 64 \<and> w_cmd_size w = of_nat (4 * length cmd) \<and> w_it_offset w \<le> length cmd)"
| "body_ok s (DICEDEV_TASK_TYPE_RUN r) = (backed s (r_cBuff r) \<and> r_curr_pg_off r \<le> 1024 \<and>
     r_curr_pg_no r < length (buffer_pages s (r_cBuff r)) \<and>
     r_curr_pg r = page (buffer_pages s (r_cBuff r) ! r_curr_pg_no r))"

definition word_bytes :: "nat \<Rightarrow> u64" where
  "word_bytes n = of_nat (4 * n)"

text \<open>
  The words a task executes: as many as its size says, from the start of its command array,
  or from the start of the page that holds its offset.
\<close>

fun reachable_words :: "kstate \<Rightarrow> dicedev_task_body \<Rightarrow> u32 list" where
  "reachable_words s (DICEDEV_TASK_TYPE_WRITE w) = (case cmds s (w_cmd w) of None \<Rightarrow> [] | Some cmd \<Rightarrow> cmd)"
| "reachable_words s (DICEDEV_TASK_TYPE_RUN r) = drop (1024 * (unat (r_offset r) div 4096)) (buffer_words s (r_cBuff r))"

definition task_size :: "dicedev_task_body \<Rightarrow> u64" where
  "task_size body = (case body of DICEDEV_TASK_TYPE_WRITE w \<Rightarrow> w_cmd_size w | DICEDEV_TASK_TYPE_RUN r \<Rightarrow> r_size r)"

definition program :: "kstate \<Rightarrow> dicedev_task_body \<Rightarrow> u32 list" where
  "program s body = take (unat (task_size body) div 4) (reachable_words s body)"

text \<open>What the code that queues tasks checks of them.\<close>

fun task_wf :: "kstate \<Rightarrow> dicedev_task_body \<Rightarrow> bool" where
  "task_wf s (DICEDEV_TASK_TYPE_WRITE w) = (\<exists>cmd. cmds s (w_cmd w) = Some cmd \<and> length cmd < 2 ^ 62 \<and>
     w_cmd_size w = word_bytes (length cmd))"
| "task_wf s (DICEDEV_TASK_TYPE_RUN r) = (backed s (r_cBuff r) \<and> 4 dvd unat (r_offset r) \<and> 4 dvd unat (r_size r) \<and>
     unat (r_offset r) + unat (r_size r) \<le> 4096 * length (buffer_pages s (r_cBuff r)) \<and>
     unat (r_offset r) < 4096 * length (buffer_pages s (r_cBuff r)))"

text \<open>The words of a buffer only depend on its page table and on memory.\<close>

definition buff_key :: "kstate \<Rightarrow> ptr \<Rightarrow> (ptr \<times> ptr) option" where
  "buff_key s b = map_option (\<lambda>bf. (buff_pt bf, buff_dev bf)) (buffs s b)"

lemma same_pages:
  assumes "buff_key s' = buff_key s" "pts s' = pts s" "page_mem (mem s') = page_mem (mem s)"
  shows "page_words s' = page_words s" "buffer_pages s' = buffer_pages s" "buffer_words s' = buffer_words s"
    "backed s' = backed s"
proof -
  have k: "map_option buff_pt (buffs s' b) = map_option buff_pt (buffs s b)" for b
    using fun_cong [OF assms(1), of b] by (cases "buffs s b"; cases "buffs s' b") (auto simp: buff_key_def)
  show w: "page_words s' = page_words s" by (simp add: fun_eq_iff page_words_def assms)
  show p: "buffer_pages s' = buffer_pages s"
  proof
    show "buffer_pages s' b = buffer_pages s b" for b
      using k [of b] by (cases "buffs s b"; cases "buffs s' b") (auto simp: buffer_pages_def assms)
  qed
  show "buffer_words s' = buffer_words s" by (simp add: buffer_words_def [abs_def] w p)
  show "backed s' = backed s"
  proof
    show "backed s' b = backed s b" for b
      using k [of b] by (cases "buffs s b"; cases "buffs s' b") (auto simp: backed_def w p assms)
  qed
qed

lemma same_words:
  assumes "cmds s' = cmds s" "buffs s' = buffs s" "pts s' = pts s" "mem s' = mem s"
  shows "remaining s' body = remaining s body" "body_ok s' body = body_ok s body"
    "reachable_words s' body = reachable_words s body" "program s' body = program s body"
    "task_wf s' body = task_wf s body" "next_word s' body = next_word s body"
proof -
  have "buff_key s' = buff_key s" by (simp add: fun_eq_iff buff_key_def assms)
  note w = same_pages [OF this assms(3) arg_cong [OF assms(4), of page_mem]]
  show "remaining s' body = remaining s body" "body_ok s' body = body_ok s body"
    "reachable_words s' body = reachable_words s body" "program s' body = program s body" "task_wf s' body = task_wf s body"
    by (cases body; simp add: w assms program_def)+
  show "next_word s' body = next_word s body" unfolding next_word_def assms ..
qed

text \<open>What the command loop needs of an iterator.\<close>

locale word_source = value_source nxt ok rest
  for nxt :: "'b \<Rightarrow> (u32 \<times> 'b) result" and ok :: "'b \<Rightarrow> bool" and rest :: "'b \<Rightarrow> u32 list" +
  assumes nxt_Nil: "ok b \<Longrightarrow> rest b = [] \<Longrightarrow> nxt b = Inl OOB"
begin

lemma read_past_end: "ok b \<Longrightarrow> length (rest b) < n \<Longrightarrow> read_n nxt n b = Inl OOB"
proof (induction n arbitrary: b)
  case (Suc n)
  show ?case
  proof (cases "rest b")
    case Nil
    then show ?thesis using nxt_Nil Suc.prems by simp
  next
    case (Cons x xs)
    then obtain b' where b': "nxt b = Inr (x, b')" "ok b'" "rest b' = xs" using nxt_Cons Suc.prems by blast
    then show ?thesis using Suc.IH [of b'] Suc.prems Cons by auto
  qed
qed simp

end

lemma write_size_ne:
  assumes "4 * length cmd < 2 ^ 64" "cmd \<noteq> []" "k \<le> length cmd"
  shows "(of_nat (4 * length cmd) :: u64) \<noteq> of_nat k"
proof
  assume "(of_nat (4 * length cmd) :: u64) = of_nat k"
  then have "unat (of_nat (4 * length cmd) :: u64) = unat (of_nat k :: u64)" by simp
  with assms have "4 * length cmd = k" by (simp add: unat_of_nat_u64)
  with assms(2,3) show False by (cases cmd) auto
qed

lemma write_word:
  assumes "body_ok s (DICEDEV_TASK_TYPE_WRITE w)"
  shows "remaining s (DICEDEV_TASK_TYPE_WRITE w) = x # xs \<Longrightarrow>
      \<exists>b'. next_word s (DICEDEV_TASK_TYPE_WRITE w) = Inr (x, b') \<and> body_ok s b' \<and> remaining s b' = xs"
    and "remaining s (DICEDEV_TASK_TYPE_WRITE w) = [] \<Longrightarrow> next_word s (DICEDEV_TASK_TYPE_WRITE w) = Inl OOB"
proof -
  obtain cmd where cmd: "cmds s (w_cmd w) = Some cmd" "4 * length cmd < 2 ^ 64"
      "w_cmd_size w = of_nat (4 * length cmd)" "cmd \<noteq> []" "w_it_offset w \<le> length cmd"
    using assms by auto
  note ne = write_size_ne [OF cmd(2,4,5)]
  show "remaining s (DICEDEV_TASK_TYPE_WRITE w) = [] \<Longrightarrow> next_word s (DICEDEV_TASK_TYPE_WRITE w) = Inl OOB"
    using cmd ne by (simp add: next_word_def)
  assume r: "remaining s (DICEDEV_TASK_TYPE_WRITE w) = x # xs"
  with cmd have l: "w_it_offset w < length cmd" by (cases "w_it_offset w < length cmd") auto
  then have "drop (w_it_offset w) cmd = cmd ! w_it_offset w # drop (Suc (w_it_offset w)) cmd"
    by (simp add: Cons_nth_drop_Suc)
  with cmd r ne l show "\<exists>b'. next_word s (DICEDEV_TASK_TYPE_WRITE w) = Inr (x, b') \<and> body_ok s b' \<and> remaining s b' = xs"
    by (auto simp: next_word_def)
qed

text \<open>A word of a page, as a word of the whole buffer.\<close>

lemma buffer_word:
  assumes "backed s b" "i < length (buffer_pages s b)" "j < 1024"
  shows "\<exists>a ws. page (buffer_pages s b ! i) = Some a \<and> page_mem (mem s) a = Some ws \<and> length ws = 1024 \<and>
    drop (i * 1024 + j) (buffer_words s b) = ws ! j # drop (i * 1024 + Suc j) (buffer_words s b)"
proof -
  let ?p = "buffer_pages s b ! i"
  have l: "\<forall>l \<in> set (map (page_words s) (buffer_pages s b)). length l = 1024"
    using assms(1) by (auto simp: backed_def)
  have "length (page_words s ?p) = 1024" using l assms(2) by simp
  then obtain a ws where ws: "page ?p = Some a" "page_mem (mem s) a = Some ws" "page_words s ?p = ws"
    "length ws = 1024"
    by (auto simp: page_words_def bind_eq_Some_conv split: option.splits)
  have "length (buffer_words s b) = length (buffer_pages s b) * 1024"
    using length_concat_same [OF l] by (simp add: buffer_words_def)
  moreover have "i * 1024 + j < length (buffer_pages s b) * 1024" using assms(2,3) by linarith
  ultimately have "i * 1024 + j < length (buffer_words s b)" by simp
  moreover have "buffer_words s b ! (i * 1024 + j) = ws ! j"
    using nth_concat_same [OF l, of i j] assms ws by (simp add: buffer_words_def)
  ultimately have "drop (i * 1024 + j) (buffer_words s b) = ws ! j # drop (Suc (i * 1024 + j)) (buffer_words s b)"
    using Cons_nth_drop_Suc by metis
  then show ?thesis using ws by simp
qed

lemma run_word_here:
  assumes "body_ok s (DICEDEV_TASK_TYPE_RUN r)" "r_curr_pg_off r < 1024"
  shows "\<exists>x b'. next_word s (DICEDEV_TASK_TYPE_RUN r) = Inr (x, b') \<and> body_ok s b' \<and>
    remaining s (DICEDEV_TASK_TYPE_RUN r) = x # remaining s b'"
  using assms buffer_word [of s "r_cBuff r" "r_curr_pg_no r" "r_curr_pg_off r"]
  by (auto simp: next_word_def)

text \<open>At the end of a page the iterator behaves as one that stands at the start of the next.\<close>

lemma run_word_turn:
  assumes "body_ok s (DICEDEV_TASK_TYPE_RUN r)" "r_curr_pg_off r = 1024"
  defines "r' \<equiv> r\<lparr>r_curr_pg_off := 0, r_curr_pg_no := Suc (r_curr_pg_no r),
    r_curr_pg := page (buffer_pages s (r_cBuff r) ! Suc (r_curr_pg_no r))\<rparr>"
  shows "Suc (r_curr_pg_no r) < length (buffer_pages s (r_cBuff r)) \<Longrightarrow>
      body_ok s (DICEDEV_TASK_TYPE_RUN r') \<and>
      remaining s (DICEDEV_TASK_TYPE_RUN r) = remaining s (DICEDEV_TASK_TYPE_RUN r') \<and>
      next_word s (DICEDEV_TASK_TYPE_RUN r) = next_word s (DICEDEV_TASK_TYPE_RUN r')"
    and "\<not> Suc (r_curr_pg_no r) < length (buffer_pages s (r_cBuff r)) \<Longrightarrow>
      remaining s (DICEDEV_TASK_TYPE_RUN r) = [] \<and> next_word s (DICEDEV_TASK_TYPE_RUN r) = Inl OOB"
proof -
  let ?b = "r_cBuff r"
  obtain bf t where t: "buffs s ?b = Some bf" "pts s (buff_pt bf) = Some t" "buffer_pages s ?b = pages t"
    using assms(1) by (auto simp: backed_def buffer_pages_def)
  show "Suc (r_curr_pg_no r) < length (buffer_pages s ?b) \<Longrightarrow>
      body_ok s (DICEDEV_TASK_TYPE_RUN r') \<and>
      remaining s (DICEDEV_TASK_TYPE_RUN r) = remaining s (DICEDEV_TASK_TYPE_RUN r') \<and>
      next_word s (DICEDEV_TASK_TYPE_RUN r) = next_word s (DICEDEV_TASK_TYPE_RUN r')"
    using assms t by (simp add: next_word_def add.commute)
  assume last: "\<not> Suc (r_curr_pg_no r) < length (buffer_pages s ?b)"
  have l: "\<forall>l \<in> set (map (page_words s) (buffer_pages s ?b)). length l = 1024"
    using assms(1) by (auto simp: backed_def)
  have "length (buffer_words s ?b) = length (buffer_pages s ?b) * 1024"
    using length_concat_same [OF l] by (simp add: buffer_words_def)
  with last assms t show "remaining s (DICEDEV_TASK_TYPE_RUN r) = [] \<and> next_word s (DICEDEV_TASK_TYPE_RUN r) = Inl OOB"
    by (simp add: next_word_def)
qed

lemma run_word:
  assumes "body_ok s (DICEDEV_TASK_TYPE_RUN r)"
  shows "(\<exists>x b'. next_word s (DICEDEV_TASK_TYPE_RUN r) = Inr (x, b') \<and> body_ok s b' \<and>
      remaining s (DICEDEV_TASK_TYPE_RUN r) = x # remaining s b') \<or>
    remaining s (DICEDEV_TASK_TYPE_RUN r) = [] \<and> next_word s (DICEDEV_TASK_TYPE_RUN r) = Inl OOB"
proof (cases "r_curr_pg_off r = 1024")
  case False
  then show ?thesis using run_word_here [OF assms] assms by simp
next
  case True
  show ?thesis
  proof (cases "Suc (r_curr_pg_no r) < length (buffer_pages s (r_cBuff r))")
    case T: True
    show ?thesis unfolding run_word_turn(1) [OF assms True T, THEN conjunct2, THEN conjunct1]
        run_word_turn(1) [OF assms True T, THEN conjunct2, THEN conjunct2]
      using run_word_here [OF run_word_turn(1) [OF assms True T, THEN conjunct1]] by simp
  qed (use run_word_turn(2) [OF assms True] in blast)
qed

interpretation task_words: word_source "next_word s" "body_ok s" "remaining s" for s
proof
  show "\<exists>b'. next_word s b = Inr (x, b') \<and> body_ok s b' \<and> remaining s b' = xs"
    if "body_ok s b" "remaining s b = x # xs" for b x xs
    using that write_word(1) run_word by (cases b) (blast, fastforce)
  show "next_word s b = Inl OOB" if "body_ok s b" "remaining s b = []" for b
    using that write_word(2) run_word by (cases b) (blast, fastforce)
qed


section \<open>What a list of command words means\<close>

text \<open>
  \<open>exec_words a k ws\<close> executes the words \<open>ws\<close> for a buffer with the allowed dice \<open>a\<close> bound to
  slot \<open>k\<close>. It gives the commands the device gets, what is added to the result count, and
  how the execution ends: after the last word, at a command that is refused, or at a
  \<open>GET_DIE\<close> whose second word is missing. The commands before a refused one are executed.
\<close>

datatype verdict = Completed | Rejected | Truncated

fun exec_words :: "u32 \<Rightarrow> int \<Rightarrow> u32 list \<Rightarrow> u32 list list \<times> u64 \<times> verdict" where
  "exec_words a k [] = ([], 0, Completed)"
| "exec_words a k (c0 # ws) =
    (if field 0 4 c0 = DICEDEV_USER_CMD_TYPE_NOP then exec_words a k ws
     else if field 0 4 c0 = DICEDEV_USER_CMD_TYPE_GET_DIE then
       (case ws of
          [] \<Rightarrow> ([], 0, Truncated)
        | c1 # ws' \<Rightarrow>
            if field 25 3 c0 = 0 \<and> c1 AND NOT a = 0 then
              (case exec_words a k ws' of (out, n, v) \<Rightarrow>
                ([c0 OR push_bit 24 (word_of_int k), c1] # out, push_bit 5 (ucast (field 5 15 c0)) + n, v))
            else ([], 0, Rejected))
     else if field 0 4 c0 = DICEDEV_USER_CMD_TYPE_NEW_SET \<and> field 5 3 c0 = 0 then
       (case exec_words a k ws of (out, n, v) \<Rightarrow> ([c0 OR push_bit 4 (word_of_int k)] # out, n, v))
     else ([], 0, Rejected))"

lemma masked_fields:
  "c AND DICEDEV_CMD_TYPE_MASK = field 0 4 c"
  "c AND GET_DIE_SLOT_MASK = push_bit 25 (field 25 3 c)"
  "c AND NEW_SET_SLOT_MASK = push_bit 5 (field 5 3 c)"
  "c AND GET_DIE_NUM_MASK = push_bit 5 (field 5 15 c)"
  by (rule bit_word_eqI, auto simp: bit_simps bit_field bit_masks)+

lemma push_field_0 [simp]:
  assumes "lo + n \<le> 32"
  shows "push_bit lo (field lo n c) = 0 \<longleftrightarrow> field lo n c = 0"
proof
  have "field lo n c = field lo n (push_bit lo (field lo n c))"
    using assms by (intro bit_word_eqI) (auto simp: bit_simps bit_field)
  moreover assume "push_bit lo (field lo n c) = 0"
  ultimately show "field lo n c = 0" by (simp add: field_def)
qed simp

lemma num_count: "(ucast (push_bit 5 (field 5 15 c)) :: u64) = push_bit 5 (ucast (field 5 15 c))"
  by (rule bit_word_eqI) (auto simp: bit_simps bit_field)

section \<open>The loop implements the meaning\<close>

text \<open>The state after a part of a task: commands fed, results counted, the iterator moved.\<close>

definition after_words :: "env \<Rightarrow> ptr \<Rightarrow> ptr \<Rightarrow> ptr \<Rightarrow> kstate \<Rightarrow> u32 list \<Rightarrow> u64 \<Rightarrow> bool \<Rightarrow> dicedev_task_body \<Rightarrow> kstate" where
  "after_words E tp c d s out n failed body = s\<lparr>
     devs := (devs s)(d := map_option (\<lambda>dv. dv\<lparr>bar := fed_hist E out (bar dv)\<rparr>) (devs s d)),
     ctxs := (ctxs s)(c := map_option (\<lambda>cx. cx\<lparr>ctx_failed := failed \<or> ctx_failed cx\<rparr>) (ctxs s c)),
     tasks := (tasks s)(tp := map_option (\<lambda>t. t\<lparr>t_result_count := t_result_count t + n, t_body := body\<rparr>) (tasks s tp))\<rparr>"

lemma after_words_start: "tasks s tp = Some t \<Longrightarrow> after_words E tp c d s [] 0 False (t_body t) = s"
  by (cases "ctxs s c"; cases "devs s d") (auto simp: after_words_def fun_upd_idem)

lemma after_words_same [simp]:
  "remaining (after_words E tp c d s out n f body) = remaining s"
  "body_ok (after_words E tp c d s out n f body) = body_ok s"
  "next_word (after_words E tp c d s out n f body) = next_word s"
  "buffs (after_words E tp c d s out n f body) = buffs s"
  by (rule ext, rule same_words; simp add: after_words_def)+ (simp add: after_words_def)

lemma get_next_word_after:
  assumes "tasks s tp = Some t"
  shows "dicedev_task_get_next_word tp (after_words E tp c d s out n f body)
    = bindR (next_word s body) (\<lambda>(x, body'). Inr (x, after_words E tp c d s out n f body'))"
proof -
  let ?s = "after_words E tp c d s out n f body"
  have "tasks ?s tp = Some (t\<lparr>t_result_count := t_result_count t + n, t_body := body\<rparr>)"
    using assms by (simp add: after_words_def)
  then show ?thesis
    by (cases "next_word s body") (auto simp: dicedev_task_get_next_word_def, auto simp: after_words_def assms)
qed

lemma count_after:
  assumes "tasks s tp = Some t"
  shows "modify_task tp (\<lambda>t. t\<lparr>t_result_count := t_result_count t + m\<rparr>) (after_words E tp c d s out n f body)
    = Inr (after_words E tp c d s out (n + m) f body)"
  using assms by (cases t) (simp add: after_words_def add.assoc)

lemma feed_after:
  assumes "drains E" "devs s d = Some dv" "\<not> feed_lock dv"
  shows "feed_cmd E d cmd (after_words E tp c d s out n f body) = Inr (after_words E tp c d s (out @ cmd) n f body)"
  using assms by (simp add: after_words_def fed_hist_fed_hist)

lemma fail_after:
  assumes "ctxs s c = Some cx"
  shows "dicedev_ctx_set_failed c (after_words E tp c d s out n f body) = Inr (after_words E tp c d s out n True body)"
  using assms by (simp add: after_words_def dicedev_ctx_set_failed_def)

lemmas loop_steps = get_next_word_after count_after feed_after fail_after


lemma word_bytes_0 [simp]: "word_bytes 0 = 0" by (simp add: word_bytes_def)

lemma word_bytes_minus [simp]: "word_bytes (Suc n) - 4 = word_bytes n" "word_bytes (Suc (Suc n)) - 8 = word_bytes n"
  by (simp_all add: word_bytes_def)

lemma word_bytes_bounds: "n < 2 ^ 62 \<Longrightarrow> 0 < n \<Longrightarrow> 0 < word_bytes n \<and> \<not> word_bytes n < 4"
  by (simp add: word_bytes_def word_less_nat_alt)

lemma run_loop_iter:
  assumes "drains E" "tasks s tp = Some t" "buffs s b = Some bf" "ctxs s c = Some cx" "devs s d = Some dv"
    "\<not> feed_lock dv" "next_word s body = Inr (c0, body1)" "0 < m" "\<not> m < 4"
  defines "aft \<equiv> after_words E tp c d s"
  shows "wt_run_loop E tp c d b m (aft out0 n0 False body) =
    (if field 0 4 c0 = DICEDEV_USER_CMD_TYPE_NOP then wt_run_loop E tp c d b (m - 4) (aft out0 n0 False body1)
     else if field 0 4 c0 = DICEDEV_USER_CMD_TYPE_GET_DIE then
       bindR (next_word s body1) (\<lambda>(c1, body2).
         if field 25 3 c0 = 0 \<and> c1 AND NOT (allowed bf) = 0
         then wt_run_loop E tp c d b (m - 8)
           (aft (out0 @ [c0 OR push_bit 24 (word_of_int (binded_slot bf)), c1])
             (n0 + push_bit 5 (ucast (field 5 15 c0))) False body2)
         else Inr (aft out0 n0 True body2))
     else if field 0 4 c0 = DICEDEV_USER_CMD_TYPE_NEW_SET \<and> field 5 3 c0 = 0
       then wt_run_loop E tp c d b (m - 4)
         (aft (out0 @ [c0 OR push_bit 4 (word_of_int (binded_slot bf))]) n0 False body1)
     else Inr (aft out0 n0 True body1))"
  unfolding aft_def
  apply (subst wt_run_loop.simps)
  using assms(1-9) apply (simp add: loop_steps masked_fields num_count)
  apply (cases "next_word s body1")
   apply (auto simp: loop_steps masked_fields num_count)
  done

lemma run_loop_steps:
  assumes ctx: "drains E" "tasks s tp = Some t" "buffs s b = Some bf" "ctxs s c = Some cx" "devs s d = Some dv"
    "\<not> feed_lock dv"
  shows "exec_words (allowed bf) (binded_slot bf) ws = (out, n, v) \<Longrightarrow> v \<noteq> Truncated \<Longrightarrow> body_ok s body \<Longrightarrow>
    remaining s body = ws @ rest \<Longrightarrow> length ws < 2 ^ 62 \<Longrightarrow>
    \<exists>body'. wt_run_loop E tp c d b (word_bytes (length ws)) (after_words E tp c d s out0 n0 False body)
      = Inr (after_words E tp c d s (out0 @ concat out) (n0 + n) (v = Rejected) body')"
proof (induction "allowed bf" "binded_slot bf" ws arbitrary: out n v out0 n0 body rule: exec_words.induct)
  case 1
  then show ?case by (auto simp: wt_run_loop.simps)
next
  case (2 c0 ws)
  obtain body1 where b1: "next_word s body = Inr (c0, body1)" "body_ok s body1" "remaining s body1 = ws @ rest"
    using task_words.nxt_Cons [OF "2.prems"(3), of c0 "ws @ rest"] "2.prems"(4) by auto
  have pos: "0 < word_bytes (Suc (length ws))" "\<not> word_bytes (Suc (length ws)) < 4"
    using word_bytes_bounds [OF "2.prems"(5)] by simp_all
  note iter = run_loop_iter [OF ctx b1(1) pos]
  consider (nop) "field 0 4 c0 = DICEDEV_USER_CMD_TYPE_NOP"
    | (die) "field 0 4 c0 = DICEDEV_USER_CMD_TYPE_GET_DIE"
    | (set) "field 0 4 c0 = DICEDEV_USER_CMD_TYPE_NEW_SET" "field 5 3 c0 = 0"
    | (bad) "field 0 4 c0 \<noteq> DICEDEV_USER_CMD_TYPE_NOP" "field 0 4 c0 \<noteq> DICEDEV_USER_CMD_TYPE_GET_DIE"
        "\<not> (field 0 4 c0 = DICEDEV_USER_CMD_TYPE_NEW_SET \<and> field 5 3 c0 = 0)"
    by blast
  then show ?case
  proof cases
    case nop
    then show ?thesis
      using "2.hyps"(1) [of out n v body1 out0 n0] "2.prems" b1 by (simp add: iter)
  next
    case die
    with "2.prems"(1,2) obtain c1 ws' where ws: "ws = c1 # ws'" by (cases ws) auto
    obtain body2 where b2: "next_word s body1 = Inr (c1, body2)" "body_ok s body2" "remaining s body2 = ws' @ rest"
      using task_words.nxt_Cons [OF b1(2), of c1 "ws' @ rest"] b1(3) ws by auto
    show ?thesis
    proof (cases "field 25 3 c0 = 0 \<and> c1 AND NOT (allowed bf) = 0")
      case True
      obtain out' n' where r: "exec_words (allowed bf) (binded_slot bf) ws' = (out', n', v)"
          "out = [c0 OR push_bit 24 (word_of_int (binded_slot bf)), c1] # out'"
          "n = push_bit 5 (ucast (field 5 15 c0)) + n'"
        using "2.prems"(1) die True ws by (auto split: prod.splits)
      show ?thesis
        using "2.hyps"(2) [OF _ _ ws _ r(1), of body2 "out0 @ [c0 OR push_bit 24 (word_of_int (binded_slot bf)), c1]"
            "n0 + push_bit 5 (ucast (field 5 15 c0))"] "2.prems"(2-) b2 die True ws
        by (simp add: iter [unfolded ws length_Cons] r(2,3) add.assoc)
    qed (use "2.prems" b2 die ws in \<open>auto simp: iter [unfolded ws length_Cons]\<close>)
  next
    case set
    obtain out' where r: "exec_words (allowed bf) (binded_slot bf) ws = (out', n, v)"
        "out = [c0 OR push_bit 4 (word_of_int (binded_slot bf))] # out'"
      using "2.prems"(1) set by (auto split: prod.splits)
    show ?thesis
      using "2.hyps"(3) [OF _ _ _ r(1), of body1 "out0 @ [c0 OR push_bit 4 (word_of_int (binded_slot bf))]" n0]
        "2.prems" b1 set by (simp add: iter r(2))
  next
    case bad
    then show ?thesis using "2.prems" by (auto simp: iter)
  qed
qed


section \<open>Starting a task\<close>

lemma backed_length: "backed s b \<Longrightarrow> length (buffer_words s b) = length (buffer_pages s b) * 1024"
  using length_concat_same [of "map (page_words s) (buffer_pages s b)" 1024]
  by (auto simp: buffer_words_def backed_def)

lemma program_length:
  assumes "task_wf s body"
  shows "length (program s body) < 2 ^ 62 \<and> task_size body = word_bytes (length (program s body))"
proof (cases body)
  case (DICEDEV_TASK_TYPE_WRITE w)
  then show ?thesis using assms by (auto simp: task_size_def program_def word_bytes_def)
next
  case (DICEDEV_TASK_TYPE_RUN r)
  let ?n = "unat (r_size r) div 4"
  have d: "4 * ?n = unat (r_size r)" using assms DICEDEV_TASK_TYPE_RUN by simp
  have sz: "r_size r = word_bytes ?n" unfolding word_bytes_def d by simp
  have "?n + 1024 * (unat (r_offset r) div 4096) \<le> length (buffer_words s (r_cBuff r))"
    using assms DICEDEV_TASK_TYPE_RUN by (auto simp: backed_length)
  then have "length (program s body) = ?n" using DICEDEV_TASK_TYPE_RUN by (simp add: program_def task_size_def)
  moreover have "?n < 2 ^ 62" using unsigned_less [of "r_size r", where ?'a = nat] by simp
  ultimately show ?thesis using sz DICEDEV_TASK_TYPE_RUN by (simp add: task_size_def)
qed

lemma program_prefix: "\<exists>rest. reachable_words s body = program s body @ rest"
  by (metis append_take_drop_id program_def)

lemma init_it_run:
  assumes "tasks s tp = Some t" "task_wf s (t_body t)"
  shows "\<exists>body. dicedev_task_init_it tp s = Inr (s\<lparr>tasks := (tasks s)(tp \<mapsto> t\<lparr>t_body := body\<rparr>)\<rparr>) \<and>
    (program s (t_body t) \<noteq> [] \<longrightarrow> body_ok s body) \<and> remaining s body = reachable_words s (t_body t)"
proof (cases "t_body t")
  case (DICEDEV_TASK_TYPE_WRITE w)
  then show ?thesis using assms by (auto simp: dicedev_task_init_it_def word_bytes_def program_def)
next
  case (DICEDEV_TASK_TYPE_RUN r)
  let ?no = "unat (r_offset r) div 4096"
  obtain bf pt where pt: "buffs s (r_cBuff r) = Some bf" "pts s (buff_pt bf) = Some pt"
      "buffer_pages s (r_cBuff r) = pages pt"
    using assms DICEDEV_TASK_TYPE_RUN by (auto simp: backed_def buffer_pages_def)
  have no: "?no < length (pages pt)" using assms DICEDEV_TASK_TYPE_RUN pt(3) by auto
  have off: "(unat (r_offset r) mod 4096) mod 4 = 0"
    using assms DICEDEV_TASK_TYPE_RUN mod_mod_cancel [of "4::nat" 4096 "unat (r_offset r)"] by simp
  let ?body = "DICEDEV_TASK_TYPE_RUN (r\<lparr>r_curr_pg_no := ?no, r_curr_pg_off := 0, r_curr_pg := page (pages pt ! ?no),
    r_bytes_left := r_size r\<rparr>)"
  have "dicedev_task_init_it tp s = Inr (s\<lparr>tasks := (tasks s)(tp \<mapsto> t\<lparr>t_body := ?body\<rparr>)\<rparr>)"
    using assms(1) DICEDEV_TASK_TYPE_RUN pt no off by (simp add: dicedev_task_init_it_def Let_def)
  moreover have "body_ok s ?body" using assms DICEDEV_TASK_TYPE_RUN pt no by simp
  moreover have "remaining s ?body = reachable_words s (t_body t)"
    using DICEDEV_TASK_TYPE_RUN by (simp add: mult.commute)
  ultimately show ?thesis by blast
qed


text \<open>The task \<open>tp\<close> is ready to run: its pointers are valid and its output buffer is bound.\<close>

definition ready :: "ptr \<Rightarrow> kstate \<Rightarrow> dicedev_task \<Rightarrow> dicedev_context \<Rightarrow> dicedev_device \<Rightarrow> dicedev_buffer \<Rightarrow> bool" where
  "ready tp s t cx dv bf \<longleftrightarrow> tasks s tp = Some t \<and> ctxs s (t_ctx t) = Some cx \<and> devs s (ctx_dev cx) = Some dv \<and>
     \<not> feed_lock dv \<and> buffs s (t_buff_out t) = Some bf \<and> binded_slot bf \<noteq> -1 \<and> task_wf s (t_body t)"

text \<open>Up to the loop: the state in which \<open>wt_run_task\<close> starts to execute the program.\<close>

definition marked_running :: "ptr \<Rightarrow> dicedev_context \<Rightarrow> dicedev_device \<Rightarrow> kstate \<Rightarrow> kstate" where
  "marked_running tp cx dv s = s\<lparr>devs := (devs s)(ctx_dev cx \<mapsto> dv\<lparr>running_task := Some tp\<rparr>)\<rparr>"

lemma ready_marked:
  assumes "ready tp s t cx dv bf"
  shows "tasks (marked_running tp cx dv s) tp = Some t" "buffs (marked_running tp cx dv s) (t_buff_out t) = Some bf"
    "ctxs (marked_running tp cx dv s) (t_ctx t) = Some cx"
    "devs (marked_running tp cx dv s) (ctx_dev cx) = Some (dv\<lparr>running_task := Some tp\<rparr>)"
    "\<not> feed_lock (dv\<lparr>running_task := Some tp\<rparr>)"
  using assms by (simp_all add: ready_def marked_running_def)

lemma wt_run_task_starts:
  assumes r: "ready tp s t cx dv bf"
  shows "\<exists>body. wt_run_task E tp s = wt_run_loop E tp (t_ctx t) (ctx_dev cx) (t_buff_out t)
      (word_bytes (length (program s (t_body t))))
      (after_words E tp (t_ctx t) (ctx_dev cx) (marked_running tp cx dv s) [] 0 False body) \<and>
    (program s (t_body t) \<noteq> [] \<longrightarrow> body_ok (marked_running tp cx dv s) body) \<and>
    remaining (marked_running tp cx dv s) body = reachable_words s (t_body t)"
proof -
  let ?s = "marked_running tp cx dv s"
  have wf: "task_wf s (t_body t)" using r by (simp add: ready_def)
  have same: "reachable_words ?s (t_body t) = reachable_words s (t_body t)"
      "program ?s (t_body t) = program s (t_body t)" "task_wf ?s (t_body t)"
    using same_words(3-5) [of ?s s] wf by (simp_all add: marked_running_def)
  obtain body where b: "dicedev_task_init_it tp ?s = Inr (?s\<lparr>tasks := (tasks ?s)(tp \<mapsto> t\<lparr>t_body := body\<rparr>)\<rparr>)"
      "program s (t_body t) \<noteq> [] \<longrightarrow> body_ok ?s body" "remaining ?s body = reachable_words s (t_body t)"
    using init_it_run [OF ready_marked(1) [OF r] same(3)] same by auto
  have "after_words E tp (t_ctx t) (ctx_dev cx) ?s [] 0 False body = ?s\<lparr>tasks := (tasks ?s)(tp \<mapsto> t\<lparr>t_body := body\<rparr>)\<rparr>"
    using r by (simp add: after_words_def marked_running_def ready_def fun_upd_idem)
  then show ?thesis
    using r b program_length [OF wf]
    by (intro exI [of _ body]) (simp add: wt_run_task_def ready_def task_size_def Let_def marked_running_def)
qed

lemma wt_run_task_run:
  assumes r: "ready tp s t cx dv bf" and "drains E"
    and x: "exec_words (allowed bf) (binded_slot bf) (program s (t_body t)) = (out, n, v)" "v \<noteq> Truncated"
  shows "\<exists>body. wt_run_task E tp s = Inr (after_words E tp (t_ctx t) (ctx_dev cx) (marked_running tp cx dv s)
    (concat out) n (v = Rejected) body)"
proof -
  obtain body rest where b: "wt_run_task E tp s = wt_run_loop E tp (t_ctx t) (ctx_dev cx) (t_buff_out t)
      (word_bytes (length (program s (t_body t))))
      (after_words E tp (t_ctx t) (ctx_dev cx) (marked_running tp cx dv s) [] 0 False body)"
    "program s (t_body t) \<noteq> [] \<longrightarrow> body_ok (marked_running tp cx dv s) body"
    "remaining (marked_running tp cx dv s) body = program s (t_body t) @ rest"
    using wt_run_task_starts [OF r] program_prefix by metis
  show ?thesis
  proof (cases "program s (t_body t) = []")
    case True
    then show ?thesis using x by (intro exI [of _ body]) (simp add: b(1) wt_run_loop.simps)
  next
    case False
    then show ?thesis
      using run_loop_steps [OF assms(2) ready_marked [OF r] x b(2) [rule_format] b(3) program_length [THEN conjunct1], of "[]" 0]
        r by (auto simp: b(1) ready_def)
  qed
qed

section \<open>Commands cut short\<close>

text \<open>
  The loop checks that 4 bytes are left before it reads the second word of a \<open>GET_DIE\<close>, but
  at that point the first word is still counted, so the check never fails.
\<close>

lemma run_loop_truncated:
  assumes ctx: "drains E" "tasks s tp = Some t" "buffs s b = Some bf" "ctxs s c = Some cx" "devs s d = Some dv"
    "\<not> feed_lock dv"
  shows "exec_words (allowed bf) (binded_slot bf) ws = (out, n, Truncated) \<Longrightarrow> body_ok s body \<Longrightarrow>
    remaining s body = ws \<Longrightarrow> length ws < 2 ^ 62 \<Longrightarrow>
    wt_run_loop E tp c d b (word_bytes (length ws)) (after_words E tp c d s out0 n0 False body) = Inl OOB"
proof (induction "allowed bf" "binded_slot bf" ws arbitrary: out n out0 n0 body rule: exec_words.induct)
  case (2 c0 ws)
  obtain body1 where b1: "next_word s body = Inr (c0, body1)" "body_ok s body1" "remaining s body1 = ws"
    using task_words.nxt_Cons [OF "2.prems"(2,3)] by auto
  have pos: "0 < word_bytes (Suc (length ws))" "\<not> word_bytes (Suc (length ws)) < 4"
    using word_bytes_bounds [OF "2.prems"(4)] by simp_all
  note iter = run_loop_iter [OF ctx b1(1) pos]
  consider (nop) "field 0 4 c0 = DICEDEV_USER_CMD_TYPE_NOP" | (last) "field 0 4 c0 = DICEDEV_USER_CMD_TYPE_GET_DIE" "ws = []"
    | (die) c1 ws' out' n' where "field 0 4 c0 = DICEDEV_USER_CMD_TYPE_GET_DIE" "ws = c1 # ws'"
        "field 25 3 c0 = 0 \<and> c1 AND NOT (allowed bf) = 0"
        "exec_words (allowed bf) (binded_slot bf) ws' = (out', n', Truncated)"
    | (set) out' n' where "field 0 4 c0 = DICEDEV_USER_CMD_TYPE_NEW_SET" "field 5 3 c0 = 0"
        "exec_words (allowed bf) (binded_slot bf) ws = (out', n', Truncated)"
    using "2.prems"(1) by (auto split: if_splits prod.splits list.splits)
  then show ?case
  proof cases
    case nop
    then show ?thesis using "2.hyps"(1) [of out n body1] "2.prems" b1 by (simp add: iter)
  next
    case last
    then show ?thesis using task_words.nxt_Nil b1 by (simp add: iter [unfolded last(2) list.size(3)])
  next
    case die
    obtain body2 where b2: "next_word s body1 = Inr (c1, body2)" "body_ok s body2" "remaining s body2 = ws'"
      using task_words.nxt_Cons [OF b1(2), of c1 ws'] b1(3) die(2) by auto
    show ?thesis using "2.hyps"(2) [OF _ _ die(2,3,4), of body2] "2.prems"(4) b2 die
      by (simp add: iter [unfolded die(2) length_Cons])
  next
    case set
    then show ?thesis using "2.hyps"(3) [OF _ _ _ set(3), of body1] "2.prems"(4) b1 by (simp add: iter)
  qed
qed simp

lemma wt_run_task_truncated:
  assumes r: "ready tp s t cx dv bf" and E: "drains E"
    and all: "program s (t_body t) = reachable_words s (t_body t)"
    and x: "exec_words (allowed bf) (binded_slot bf) (program s (t_body t)) = (out, n, Truncated)"
  shows "wt_run_task E tp s = Inl OOB"
proof -
  have "program s (t_body t) \<noteq> []" using x by auto
  moreover have "length (program s (t_body t)) < 2 ^ 62" using r program_length by (simp add: ready_def)
  ultimately show ?thesis
    using wt_run_task_starts [OF r, of E] run_loop_truncated [OF E ready_marked [OF r] x] by (metis all)
qed

section \<open>What the device is given\<close>

text \<open>
  The commands a buffer with the allowed dice \<open>a\<close> and slot \<open>k\<close> may lead to. The masks leave the
  lowest bit of the slot field to the user, so the slot is \<open>k\<close> or \<open>k OR 1\<close>.
\<close>

definition cmd_ok :: "u32 \<Rightarrow> int \<Rightarrow> u32 list \<Rightarrow> bool" where
  "cmd_ok a k cmd = (case cmd of
     [c0] \<Rightarrow> field 0 4 c0 = DICEDEV_USER_CMD_TYPE_NEW_SET \<and>
       (field 4 4 c0 = word_of_int k \<or> field 4 4 c0 = word_of_int k OR 1)
   | [c0, c1] \<Rightarrow> field 0 4 c0 = DICEDEV_USER_CMD_TYPE_GET_DIE \<and> c1 AND NOT a = 0 \<and>
       (field 24 4 c0 = word_of_int k \<or> field 24 4 c0 = word_of_int k OR 1)
   | _ \<Rightarrow> False)"

lemma field_0D: "field lo n c = 0 \<Longrightarrow> lo \<le> j \<Longrightarrow> j < lo + n \<Longrightarrow> \<not> bit c j"
  using bit_field [of lo n c "j - lo"] by auto

lemma slot_field:
  assumes "field (Suc lo) 3 c = 0" "0 \<le> k" "k < 16" "lo + 4 \<le> 32"
  shows "field lo 4 (c OR push_bit lo (word_of_int k)) = word_of_int k OR field lo 1 c"
proof (rule bit_word_eqI)
  fix j assume "j < LENGTH(32)"
  have "bit c (lo + j) \<Longrightarrow> j < 4 \<Longrightarrow> j = 0"
    using field_0D [OF assms(1), of "lo + j"] by (cases j) auto
  then show "bit (field lo 4 (c OR push_bit lo (word_of_int k))) j = bit (word_of_int k OR field lo 1 c) j"
    using assms(2-4) \<open>j < LENGTH(32)\<close> bit_small_intD [of k j 4]
    by (auto simp: bit_field bit_simps)
qed

lemma field_1: "field lo 1 c = 0 \<or> field lo 1 c = 1"
  by (auto simp: field_def take_bit_Suc)

lemma type_kept [simp]:
  "4 \<le> lo \<Longrightarrow> field 0 4 (c OR push_bit lo x) = field 0 4 c"
  by (rule bit_word_eqI) (auto simp: bit_field bit_simps)

lemma get_die_cmd_ok:
  assumes "field 0 4 c0 = DICEDEV_USER_CMD_TYPE_GET_DIE" "field 25 3 c0 = 0" "c1 AND NOT a = 0" "0 \<le> k" "k < 16"
  shows "cmd_ok a k [c0 OR push_bit 24 (word_of_int k), c1]"
  using assms slot_field [of 24 c0 k] field_1 [of 24 c0] by (auto simp: cmd_ok_def)

lemma new_set_cmd_ok:
  assumes "field 0 4 c0 = DICEDEV_USER_CMD_TYPE_NEW_SET" "field 5 3 c0 = 0" "0 \<le> k" "k < 16"
  shows "cmd_ok a k [c0 OR push_bit 4 (word_of_int k)]"
  using assms slot_field [of 4 c0 k] field_1 [of 4 c0] by (auto simp: cmd_ok_def)

definition safely_fed :: "u32 \<Rightarrow> int \<Rightarrow> ptr \<Rightarrow> kstate \<Rightarrow> kstate \<Rightarrow> bool" where
  "safely_fed a k d s s' \<longleftrightarrow> (\<exists>dv dv' cs. devs s d = Some dv \<and> devs s' d = Some dv' \<and>
     fed (bar dv') = fed (bar dv) @ concat cs \<and> (\<forall>cmd \<in> set cs. cmd_ok a k cmd))"

lemma safely_fed_same: "devs s d = Some dv \<Longrightarrow> devs s' d = Some dv' \<Longrightarrow> bar dv' = bar dv \<Longrightarrow> safely_fed a k d s s'"
  by (auto simp: safely_fed_def intro!: exI [of _ "[]"])

lemma safely_fed_trans:
  assumes "safely_fed a k d s s'" "safely_fed a k d s' s''"
  shows "safely_fed a k d s s''"
proof -
  obtain dv dv' cs where 1: "devs s d = Some dv" "devs s' d = Some dv'"
      "fed (bar dv') = fed (bar dv) @ concat cs" "\<forall>cmd \<in> set cs. cmd_ok a k cmd"
    using assms(1) by (auto simp: safely_fed_def)
  obtain dv'' cs' where "devs s'' d = Some dv''"
      "fed (bar dv'') = fed (bar dv') @ concat cs'" "\<forall>cmd \<in> set cs'. cmd_ok a k cmd"
    using assms(2) 1(2) by (auto simp: safely_fed_def)
  with 1 show ?thesis unfolding safely_fed_def
    by (intro exI [of _ dv] exI [of _ dv''] exI [of _ "cs @ cs'"]) auto
qed

lemma safely_fed_feed: "feed_cmd E d cmd s = Inr s' \<Longrightarrow> cmd_ok a k cmd \<Longrightarrow> safely_fed a k d s s'"
  by (auto simp: feed_cmd_eq_Inr safely_fed_def feed_words_fed intro!: exI [of _ "[cmd]"])

lemma safely_fed_cong: "devs s' d = devs s d \<Longrightarrow> safely_fed a k d s' s'' = safely_fed a k d s s''"
  by (simp add: safely_fed_def)


lemma get_next_word_frame:
  "dicedev_task_get_next_word tp s = Inr (x, s') \<Longrightarrow> devs s' = devs s \<and> buffs s' = buffs s \<and> ctxs s' = ctxs s"
  by (auto simp: dicedev_task_get_next_word_def modify_eq_Inr)

lemma set_failed_frame: "dicedev_ctx_set_failed c s = Inr s' \<Longrightarrow> devs s' = devs s"
  by (auto simp: dicedev_ctx_set_failed_def modify_eq_Inr)

text \<open>How an iteration of the loop that returns can go.\<close>

lemma run_loop_InrE:
  assumes "wt_run_loop E tp c d b m s = Inr s'" "buffs s b = Some bf" "m > 0"
  obtains (failed) s2 where "dicedev_ctx_set_failed c s2 = Inr s'" "devs s2 = devs s" "ctxs s2 = ctxs s"
  | (nop) c0 s1 where "dicedev_task_get_next_word tp s = Inr (c0, s1)" "field 0 4 c0 = DICEDEV_USER_CMD_TYPE_NOP"
      "wt_run_loop E tp c d b (m - 4) s1 = Inr s'"
  | (die) c0 s1 c1 s2 s3 s4 where "dicedev_task_get_next_word tp s = Inr (c0, s1)"
      "field 0 4 c0 = DICEDEV_USER_CMD_TYPE_GET_DIE" "\<not> m < 4" "dicedev_task_get_next_word tp s1 = Inr (c1, s2)"
      "field 25 3 c0 = 0" "c1 AND NOT (allowed bf) = 0"
      "modify_task tp (\<lambda>t. t\<lparr>t_result_count := t_result_count t + ucast (c0 AND GET_DIE_NUM_MASK)\<rparr>) s2 = Inr s3"
      "feed_cmd E d [c0 OR push_bit 24 (word_of_int (binded_slot bf)), c1] s3 = Inr s4"
      "wt_run_loop E tp c d b (m - 8) s4 = Inr s'"
  | (set) c0 s1 s2 where "dicedev_task_get_next_word tp s = Inr (c0, s1)"
      "field 0 4 c0 = DICEDEV_USER_CMD_TYPE_NEW_SET" "field 5 3 c0 = 0"
      "feed_cmd E d [c0 OR push_bit 4 (word_of_int (binded_slot bf))] s1 = Inr s2"
      "wt_run_loop E tp c d b (m - 4) s2 = Inr s'"
proof -
  note u = assms(1) [unfolded wt_run_loop.simps [of E tp c d b m s]]
  from u assms(3) obtain c0 s1 where s1: "dicedev_task_get_next_word tp s = Inr (c0, s1)" by auto
  have f1: "devs s1 = devs s" "ctxs s1 = ctxs s" "buffs s1 b = Some bf" using get_next_word_frame [OF s1] assms(2) by simp_all
  show thesis
  proof (cases "field 0 4 c0 = DICEDEV_USER_CMD_TYPE_GET_DIE \<and> \<not> m < 4")
    case True
    with u assms(3) s1 obtain c1 s2 where s2: "dicedev_task_get_next_word tp s1 = Inr (c1, s2)"
      by (auto simp: masked_fields)
    have "devs s2 = devs s" "ctxs s2 = ctxs s" "buffs s2 b = Some bf" using get_next_word_frame [OF s2] f1 by simp_all
    then show thesis using u assms(3) s1 s2 True failed die by (auto simp: masked_fields split: if_splits)
  next
    case False
    then show thesis using u assms(3) s1 f1 failed nop set by (auto simp: masked_fields split: if_splits)
  qed
qed

lemma run_loop_safe:
  "wt_run_loop E tp c d b m s = Inr s' \<Longrightarrow> buffs s b = Some bf \<Longrightarrow> 0 \<le> binded_slot bf \<Longrightarrow> binded_slot bf < 16 \<Longrightarrow>
   devs s d = Some dv \<Longrightarrow> safely_fed (allowed bf) (binded_slot bf) d s s'"
proof (induction E tp c d b m s arbitrary: dv rule: wt_run_loop.induct)
  case (1 E tp c d b m s)
  show ?case
  proof (cases "m > 0")
    case False
    then show ?thesis using "1.prems" by (auto simp: wt_run_loop.simps intro: safely_fed_same)
  next
    case True
    show ?thesis using "1.prems"(1,2) True
    proof (cases rule: run_loop_InrE)
      case (failed s2)
      then show ?thesis using "1.prems"(5) set_failed_frame by (metis safely_fed_same)
    next
      case (nop c0 s1)
      note f = get_next_word_frame [OF nop(1)]
      have "safely_fed (allowed bf) (binded_slot bf) d s1 s'"
        using "1.IH"(1) [OF True nop(1) refl _ nop(3), of dv] nop(2) f "1.prems" by (simp add: masked_fields)
      then show ?thesis using f by (simp cong: safely_fed_cong)
    next
      case (die c0 s1 c1 s2 s3 s4)
      note f = get_next_word_frame [OF die(1)] get_next_word_frame [OF die(4)]
      have f3: "devs s3 = devs s" "buffs s3 = buffs s" using die(7) f by (auto simp: modify_eq_Inr)
      then obtain dv4 where f4: "buffs s4 = buffs s" "devs s4 d = Some dv4" using die(8) by (auto simp: feed_cmd_eq_Inr)
      have "safely_fed (allowed bf) (binded_slot bf) d s4 s'"
        using "1.IH"(2) [OF True die(1) refl _ _ die(3,4) refl _ _ _ die(7,8,9), of dv4] die f f4 "1.prems"
        by (simp add: masked_fields)
      moreover have "safely_fed (allowed bf) (binded_slot bf) d s3 s4"
        using safely_fed_feed [OF die(8)] get_die_cmd_ok die "1.prems" by blast
      ultimately show ?thesis using f3 safely_fed_trans safely_fed_cong by metis
    next
      case (set c0 s1 s2)
      note f = get_next_word_frame [OF set(1)]
      obtain dv2 where f2: "buffs s2 = buffs s" "devs s2 d = Some dv2" using set(4) f by (auto simp: feed_cmd_eq_Inr)
      have "safely_fed (allowed bf) (binded_slot bf) d s2 s'"
        using "1.IH"(3) [OF True set(1) refl _ _ _ _ _ set(4,5), of dv2] set f f2 "1.prems"
        by (simp add: masked_fields)
      moreover have "safely_fed (allowed bf) (binded_slot bf) d s1 s2"
        using safely_fed_feed [OF set(4)] new_set_cmd_ok set "1.prems" by blast
      ultimately show ?thesis using f safely_fed_trans safely_fed_cong by metis
    qed
  qed
qed


lemma init_it_frame:
  assumes "dicedev_task_init_it tp s = Inr s'"
  shows "\<exists>t body. tasks s tp = Some t \<and> s' = s\<lparr>tasks := (tasks s)(tp \<mapsto> t\<lparr>t_body := body\<rparr>)\<rparr>"
proof -
  obtain t where t: "tasks s tp = Some t" using assms by (auto simp: dicedev_task_init_it_def)
  then show ?thesis using assms by (cases "t_body t") (auto simp: dicedev_task_init_it_def Let_def)
qed

lemma wt_run_task_InrE:
  assumes "wt_run_task E tp s = Inr s'"
  obtains t cx dv bf s1 where "tasks s tp = Some t" "ctxs s (t_ctx t) = Some cx" "devs s (ctx_dev cx) = Some dv"
    "buffs s (t_buff_out t) = Some bf" "devs s1 = (devs s)(ctx_dev cx \<mapsto> dv\<lparr>running_task := Some tp\<rparr>)" "buffs s1 = buffs s"
    "wt_run_loop E tp (t_ctx t) (ctx_dev cx) (t_buff_out t) (task_size (t_body t)) s1 = Inr s'"
proof -
  obtain t cx dv bf body where x: "tasks s tp = Some t" "ctxs s (t_ctx t) = Some cx" "devs s (ctx_dev cx) = Some dv"
    "buffs s (t_buff_out t) = Some bf"
    "wt_run_loop E tp (t_ctx t) (ctx_dev cx) (t_buff_out t) (task_size (t_body t))
      (s\<lparr>devs := (devs s)(ctx_dev cx \<mapsto> dv\<lparr>running_task := Some tp\<rparr>), tasks := (tasks s)(tp \<mapsto> t\<lparr>t_body := body\<rparr>)\<rparr>) = Inr s'"
    using assms by (auto simp: wt_run_task_def modify_eq_Inr Let_def task_size_def dest!: init_it_frame)
  show thesis by (rule that [OF x(1-4) _ _ x(5)]) simp_all
qed

text \<open>The words of a run that is not stopped by its size.\<close>

lemma run_loop_nops:
  assumes ctx: "drains E" "tasks s tp = Some t" "buffs s b = Some bf" "ctxs s c = Some cx" "devs s d = Some dv"
    "\<not> feed_lock dv"
  shows "body_ok s body \<Longrightarrow> remaining s body = ws \<Longrightarrow> \<forall>w \<in> set ws. field 0 4 w = DICEDEV_USER_CMD_TYPE_NOP \<Longrightarrow>
    4 * length ws < unat m \<Longrightarrow> wt_run_loop E tp c d b m (after_words E tp c d s out0 n0 False body) = Inl OOB"
proof (induction ws arbitrary: body m)
  case Nil
  then have "next_word s body = Inl OOB" "m > 0" using task_words.nxt_Nil by (auto simp: word_less_nat_alt)
  then show ?case by (subst wt_run_loop.simps) (simp add: get_next_word_after [OF ctx(2)])
next
  case (Cons w ws)
  obtain body1 where b1: "next_word s body = Inr (w, body1)" "body_ok s body1" "remaining s body1 = ws"
    using task_words.nxt_Cons [OF Cons.prems(1,2)] by auto
  have m: "0 < m" "\<not> m < 4" using Cons.prems(4) by (auto simp: word_less_nat_alt)
  have "unat (m - 4) = unat m - 4" using Cons.prems(4) by (simp add: unat_sub_if')
  then have "4 * length ws < unat (m - 4)" using Cons.prems(4) by simp
  then show ?case using Cons.IH [OF b1(2,3)] Cons.prems(3) by (simp add: run_loop_iter [OF ctx b1(1) m])
qed

text \<open>The iterator on the kernel state.\<close>

definition stream :: "ptr \<Rightarrow> kstate \<Rightarrow> u32 list" where
  "stream tp s = (case tasks s tp of None \<Rightarrow> [] | Some t \<Rightarrow> remaining s (t_body t))"

definition stream_ok :: "ptr \<Rightarrow> kstate \<Rightarrow> bool" where
  "stream_ok tp s = (case tasks s tp of None \<Rightarrow> False | Some t \<Rightarrow> body_ok s (t_body t))"

interpretation task_stream: word_source "dicedev_task_get_next_word tp" "stream_ok tp" "stream tp" for tp
proof
  fix s x xs
  assume "stream_ok tp s" and r: "stream tp s = x # xs"
  then obtain t where t: "tasks s tp = Some t" "body_ok s (t_body t)" by (auto simp: stream_ok_def split: option.splits)
  obtain b' where b: "next_word s (t_body t) = Inr (x, b')" "body_ok s b'" "remaining s b' = xs"
    using task_words.nxt_Cons [OF t(2), of x xs] r t(1) by (auto simp: stream_def)
  let ?s = "s\<lparr>tasks := (tasks s)(tp \<mapsto> t\<lparr>t_body := b'\<rparr>)\<rparr>"
  have "remaining ?s b' = remaining s b'" "body_ok ?s b' = body_ok s b'" by (rule same_words; simp)+
  then show "\<exists>s'. dicedev_task_get_next_word tp s = Inr (x, s') \<and> stream_ok tp s' \<and> stream tp s' = xs"
    using t b by (intro exI [of _ ?s]) (simp add: dicedev_task_get_next_word_def stream_def stream_ok_def)
next
  show "dicedev_task_get_next_word tp s = Inl OOB" if "stream_ok tp s" "stream tp s = []" for s
    using that task_words.nxt_Nil
    by (auto simp: stream_ok_def stream_def dicedev_task_get_next_word_def split: option.splits)
qed

lemma init_it_stream:
  assumes "tasks s tp = Some t" "task_wf s (t_body t)" "program s (t_body t) \<noteq> []"
  shows "\<exists>s1. dicedev_task_init_it tp s = Inr s1 \<and> stream_ok tp s1 \<and> stream tp s1 = reachable_words s (t_body t)"
proof -
  obtain body where b: "dicedev_task_init_it tp s = Inr (s\<lparr>tasks := (tasks s)(tp \<mapsto> t\<lparr>t_body := body\<rparr>)\<rparr>)" (is "_ = Inr ?s")
      "body_ok s body" "remaining s body = reachable_words s (t_body t)"
    using init_it_run [OF assms(1,2)] assms(3) by blast
  have "remaining ?s body = remaining s body" "body_ok ?s body = body_ok s body" by (rule same_words; simp)+
  with b show ?thesis by (simp add: stream_def stream_ok_def)
qed


section \<open>A sample task\<close>

text \<open>The bound sample state with one write task of the given command words.\<close>

definition task0 :: "u32 list \<Rightarrow> dicedev_task" where
  "task0 ws = \<lparr>t_ctx = 12, t_result_count = 0, t_buff_out = 11,
     t_body = DICEDEV_TASK_TYPE_WRITE \<lparr>w_cmd = 21, w_cmd_size = word_bytes (length ws), w_it_offset = 0\<rparr>\<rparr>"

definition job0 :: "u32 list \<Rightarrow> kstate" where
  "job0 ws = bound0\<lparr>tasks := [20 \<mapsto> task0 ws], cmds := [21 \<mapsto> ws]\<rparr>"

lemma ready_job0: "length ws < 2 ^ 62 \<Longrightarrow> ready 20 (job0 ws) (task0 ws) ctx0 bound_dev0 bound_buff0"
  by (simp add: ready_def job0_def task0_def) (simp add: bound0_def)

lemma program_job0: "length ws < 2 ^ 62 \<Longrightarrow> program (job0 ws) (t_body (task0 ws)) = ws"
  by (simp add: job0_def task0_def program_def task_size_def word_bytes_def)

text \<open>The bound sample state with one run task, whose command buffer has one page \<open>ws\<close>.\<close>

definition run_task0 :: "u64 \<Rightarrow> u64 \<Rightarrow> dicedev_task" where
  "run_task0 off sz = \<lparr>t_ctx = 12, t_result_count = 0, t_buff_out = 11,
     t_body = DICEDEV_TASK_TYPE_RUN \<lparr>r_cBuff = 11, r_offset = off, r_size = sz, r_curr_pg = None, r_curr_pg_no = 0,
       r_curr_pg_off = 0, r_bytes_left = 0\<rparr>\<rparr>"

definition run_job0 :: "u64 \<Rightarrow> u64 \<Rightarrow> u32 list \<Rightarrow> kstate" where
  "run_job0 off sz ws = bound0\<lparr>mem := (mem bound0)\<lparr>page_mem := (page_mem (mem bound0))(17 \<mapsto> ws)\<rparr>,
     tasks := [20 \<mapsto> run_task0 off sz]\<rparr>"

lemma run_job0_words:
  "buffer_pages (run_job0 off sz ws) 11 = [mk_page env0 17]" "buffer_words (run_job0 off sz ws) 11 = ws"
  "length ws = 1024 \<Longrightarrow> backed (run_job0 off sz ws) 11"
proof -
  let ?s = "run_job0 off sz ws"
  have t: "buffs ?s 11 = Some bound_buff0" "pts ?s 13 = Some table0" "page_words ?s (mk_page env0 17) = ws"
    by (simp_all add: run_job0_def bound0_def page_words_def mk_page_def)
  show p: "buffer_pages ?s 11 = [mk_page env0 17]" by (simp add: buffer_pages_def t bound_buff0_def table0_def)
  show "buffer_words ?s 11 = ws" by (simp add: buffer_words_def p t)
  show "length ws = 1024 \<Longrightarrow> backed ?s 11" by (simp add: backed_def p t bound_buff0_def)
qed

lemma ready_run_job0:
  assumes "length ws = 1024" "4 dvd unat off" "4 dvd unat sz" "unat off + unat sz \<le> 4096" "unat off < 4096"
  shows "ready 20 (run_job0 off sz ws) (run_task0 off sz) ctx0 bound_dev0 bound_buff0"
  using assms run_job0_words [where ws = ws]
  by (simp add: ready_def run_task0_def) (simp add: run_job0_def run_task0_def bound0_def)

lemma job0_sel [simp]:
  "t_ctx (task0 ws) = 12" "t_result_count (task0 ws) = 0" "t_buff_out (task0 ws) = 11"
  "allowed bound_buff0 = 0x20" "bar bound_dev0 = []"
  by (simp_all add: task0_def bound_buff0_def bound_dev0_def)

section \<open>Properties\<close>

text \<open>
  C9. Running a task whose output buffer is bound does what its command words mean. When no
  command is cut short, the device gets exactly the commands of \<open>exec_words\<close>, the result count
  grows by what it says, and the context fails exactly when a command was refused. The task is
  the running one, and no buffer and no page has changed.
\<close>

theorem wt_run_task_meaning:
  assumes "ready tp s t cx dv bf" "drains E"
    "exec_words (allowed bf) (binded_slot bf) (program s (t_body t)) = (out, n, v)" "v \<noteq> Truncated"
  shows "\<exists>s' dv' cx' t'. wt_run_task E tp s = Inr s' \<and>
    devs s' (ctx_dev cx) = Some dv' \<and> ctxs s' (t_ctx t) = Some cx' \<and> tasks s' tp = Some t' \<and>
    fed (bar dv') = fed (bar dv) @ concat out \<and> running_task dv' = Some tp \<and>
    t_result_count t' = t_result_count t + n \<and> ctx_failed cx' = (v = Rejected \<or> ctx_failed cx) \<and>
    buffs s' = buffs s \<and> mem s' = mem s"
  using wt_run_task_run [OF assms] assms(1) fed_hist(2) [OF assms(2)]
  by (fastforce simp: after_words_def marked_running_def ready_def)

theorem wt_run_task_meaning_witness:
  "\<exists>s' dv' cx'. wt_run_task env0 20 (job0 [0, 0xA2, 0x20, 7]) = Inr s' \<and> devs s' 10 = Some dv' \<and>
     fed (bar dv') = [0xA2, 0x20] \<and> ctxs s' 12 = Some cx' \<and> ctx_failed cx'"
  using wt_run_task_meaning [OF ready_job0 drains_env0, of "[0, 0xA2, 0x20, 7]" "[[0xA2, 0x20]]" 160 Rejected]
  by (auto simp: program_job0 field_def fed_def)

text \<open>
  C10. Whatever the task and its size: when \<open>wt_run_task\<close> returns, the words it has given to
  the device are a sequence of complete \<open>GET_DIE\<close> and \<open>NEW_SET\<close> commands. Each \<open>GET_DIE\<close> only
  asks for dice the output buffer allows, and each command names the buffer's slot, except
  that its lowest bit may have been set.
\<close>

theorem wt_run_task_safe:
  assumes "wt_run_task E tp s = Inr s'" "tasks s tp = Some t" "ctxs s (t_ctx t) = Some cx"
    "devs s (ctx_dev cx) = Some dv" "buffs s (t_buff_out t) = Some bf" "0 \<le> binded_slot bf" "binded_slot bf < 16"
  shows "\<exists>dv' cs. devs s' (ctx_dev cx) = Some dv' \<and> fed (bar dv') = fed (bar dv) @ concat cs \<and>
    (\<forall>cmd \<in> set cs. cmd_ok (allowed bf) (binded_slot bf) cmd)"
proof -
  obtain s1 where "devs s1 = (devs s)(ctx_dev cx \<mapsto> dv\<lparr>running_task := Some tp\<rparr>)" "buffs s1 = buffs s"
    "wt_run_loop E tp (t_ctx t) (ctx_dev cx) (t_buff_out t) (task_size (t_body t)) s1 = Inr s'"
    using wt_run_task_InrE [OF assms(1)] assms(2-5) by (metis option.inject)
  with run_loop_safe [OF this(3), of bf "dv\<lparr>running_task := Some tp\<rparr>"] assms show ?thesis by (simp add: safely_fed_def)
qed

theorem wt_run_task_safe_witness:
  "\<exists>s' dv' cs. wt_run_task env0 20 (job0 [4]) = Inr s' \<and> devs s' 10 = Some dv' \<and> fed (bar dv') = concat cs \<and>
     list_all (cmd_ok 0x20 0) cs"
proof -
  have r: "ready 20 (job0 [4]) (task0 [4]) ctx0 bound_dev0 bound_buff0" by (rule ready_job0) simp
  then obtain s' where "wt_run_task env0 20 (job0 [4]) = Inr s'"
    using wt_run_task_run [OF r drains_env0, of "[[4]]" 0 Completed] by (auto simp: program_job0 field_def)
  with r show ?thesis
    using wt_run_task_safe [of env0 20 "job0 [4]" s' "task0 [4]" ctx0 bound_dev0 bound_buff0]
    by (auto simp: ready_def list_all_iff fed_def)
qed

text \<open>
  C18. A task whose last word is a \<open>GET_DIE\<close> without its second word, at the end of its command
  array or of its buffer, makes the driver read past the end of that memory.
\<close>

theorem truncated_get_die_reads_past_end:
  assumes "ready tp s t cx dv bf" "drains E" "program s (t_body t) = reachable_words s (t_body t)"
    "exec_words (allowed bf) (binded_slot bf) (program s (t_body t)) = (out, n, Truncated)"
  shows "wt_run_task E tp s = Inl OOB"
  by (rule wt_run_task_truncated [OF assms])


theorem truncated_get_die_reads_past_end_witness: "wt_run_task env0 20 (job0 [0, 0x12]) = Inl OOB"
  using truncated_get_die_reads_past_end [OF ready_job0 drains_env0, of "[0, 0x12]" "[]" 0]
  by (simp add: program_job0 field_def) (simp add: job0_def task0_def)

text \<open>
  C19. The size of a run does not bound it. A run of one word that is a \<open>GET_DIE\<close> takes its
  second word from beyond that size, the number of bytes left wraps around, and when only \<open>NOP\<close>
  words follow the driver goes on to the end of the buffer and reads past it.
\<close>

theorem run_goes_past_size:
  assumes r: "ready tp s t cx dv bf" and E: "drains E" and "program s (t_body t) = [c0]"
    and all: "reachable_words s (t_body t) = c0 # c1 # nops"
    and die: "field 0 4 c0 = DICEDEV_USER_CMD_TYPE_GET_DIE" "field 25 3 c0 = 0" "c1 AND NOT (allowed bf) = 0"
    and nops: "\<forall>w \<in> set nops. field 0 4 w = DICEDEV_USER_CMD_TYPE_NOP" "length nops < 2 ^ 61"
  shows "wt_run_task E tp s = Inl OOB"
proof -
  let ?s = "marked_running tp cx dv s"
  obtain body where s1: "wt_run_task E tp s = wt_run_loop E tp (t_ctx t) (ctx_dev cx) (t_buff_out t)
      (word_bytes (Suc 0)) (after_words E tp (t_ctx t) (ctx_dev cx) ?s [] 0 False body)"
    and ok: "body_ok ?s body" "remaining ?s body = c0 # c1 # nops"
    using wt_run_task_starts [OF r] assms(3) all by fastforce
  obtain body1 where b1: "next_word ?s body = Inr (c0, body1)" "body_ok ?s body1" "remaining ?s body1 = c1 # nops"
    using task_words.nxt_Cons [OF ok] by blast
  obtain body2 where b2: "next_word ?s body1 = Inr (c1, body2)" "body_ok ?s body2" "remaining ?s body2 = nops"
    using task_words.nxt_Cons [OF b1(2,3)] by blast
  have one: "0 < word_bytes (Suc 0)" "\<not> word_bytes (Suc 0) < 4" using word_bytes_bounds [of "Suc 0"] by simp_all
  have "unat (word_bytes (Suc 0) - 8) = 2 ^ 64 - 4" by (simp add: word_bytes_def)
  then have "4 * length nops < unat (word_bytes (Suc 0) - 8)" using nops(2) by simp
  note rest = run_loop_nops [OF E ready_marked [OF r] b2(2,3) nops(1) this]
  show ?thesis
    using run_loop_iter [OF E ready_marked [OF r] b1(1) one, of "[]" 0] die b2(1) by (simp add: s1(1) rest)
qed

theorem run_goes_past_size_witness:
  "wt_run_task env0 20 (run_job0 0 4 (0x12 # 0x20 # replicate 1022 0)) = Inl OOB"
proof -
  let ?ws = "0x12 # 0x20 # replicate 1022 0"
  have "ready 20 (run_job0 0 4 ?ws) (run_task0 0 4) ctx0 bound_dev0 bound_buff0"
    by (rule ready_run_job0) simp_all
  then show ?thesis
    by (rule run_goes_past_size [where nops = "replicate 1022 0" and ?c0.0 = "0x12" and ?c1.0 = "0x20", OF _ drains_env0])
      (simp_all add: program_def task_size_def run_task0_def run_job0_words field_def)
qed


text \<open>
  C15. The iterator hands out the words of a task in order and without gaps, across the borders
  of pages: reading \<open>n\<close> words after \<open>dicedev_task_init_it\<close> gives the first \<open>n\<close> of them, and
  reading more than there are is an access out of bounds.
\<close>

theorem iterator_reads_in_order:
  assumes "tasks s tp = Some t" "task_wf s (t_body t)" "program s (t_body t) \<noteq> []"
  shows "\<exists>s1. dicedev_task_init_it tp s = Inr s1 \<and>
    (if n \<le> length (reachable_words s (t_body t))
     then \<exists>s2. read_n (dicedev_task_get_next_word tp) n s1 = Inr (take n (reachable_words s (t_body t)), s2)
     else read_n (dicedev_task_get_next_word tp) n s1 = Inl OOB)"
proof -
  obtain s1 where "dicedev_task_init_it tp s = Inr s1" "stream_ok tp s1" "stream tp s1 = reachable_words s (t_body t)"
    using init_it_stream [OF assms] by blast
  then show ?thesis using task_stream.read_prefix [of tp s1 n] task_stream.read_past_end [of tp s1 n] by auto
qed

theorem iterator_reads_in_order_witness:
  "\<exists>s1 s2. dicedev_task_init_it 20 (job0 [1, 2, 3]) = Inr s1 \<and>
     read_n (dicedev_task_get_next_word 20) 2 s1 = Inr ([1, 2], s2)"
proof -
  have "ready 20 (job0 [1, 2, 3]) (task0 [1, 2, 3]) ctx0 bound_dev0 bound_buff0" by (rule ready_job0) simp
  moreover have "reachable_words (job0 [1, 2, 3]) (t_body (task0 [1, 2, 3])) = [1, 2, 3]"
    by (simp add: job0_def task0_def)
  ultimately show ?thesis
    using iterator_reads_in_order [of "job0 [1, 2, 3]" 20 "task0 [1, 2, 3]" 2] by (auto simp: program_job0 ready_def)
qed

text \<open>
  C22. A run starts at the first word of the page that holds its offset, not at the offset.
\<close>

theorem run_starts_at_page:
  assumes "tasks s tp = Some t" "t_body t = DICEDEV_TASK_TYPE_RUN r" "task_wf s (t_body t)" "r_size r \<noteq> 0"
  shows "\<exists>s1 s2. dicedev_task_init_it tp s = Inr s1 \<and> dicedev_task_get_next_word tp s1
    = Inr (buffer_words s (r_cBuff r) ! (1024 * (unat (r_offset r) div 4096)), s2)"
proof -
  let ?k = "1024 * (unat (r_offset r) div 4096)" and ?ws = "buffer_words s (r_cBuff r)"
  have k: "?k < length ?ws" using assms(2,3) by (auto simp: backed_length)
  then have c: "reachable_words s (t_body t) = ?ws ! ?k # drop (Suc ?k) ?ws" using assms(2) by (simp add: Cons_nth_drop_Suc)
  have "0 < unat (r_size r)" using assms(4) by (simp add: unat_gt_0)
  moreover have "4 dvd unat (r_size r)" using assms(2,3) by simp
  ultimately have "0 < unat (r_size r) div 4" by (auto elim: dvdE)
  with k have "program s (t_body t) \<noteq> []" using assms(2) by (simp add: program_def task_size_def)
  then obtain s1 where "dicedev_task_init_it tp s = Inr s1" "stream_ok tp s1" "stream tp s1 = ?ws ! ?k # drop (Suc ?k) ?ws"
    using init_it_stream [OF assms(1,3)] c by auto
  then show ?thesis using task_stream.nxt_Cons by blast
qed

theorem run_starts_at_page_witness:
  "\<exists>s1 s2. dicedev_task_init_it 20 (run_job0 8 4 (replicate 1024 7)) = Inr s1 \<and>
     dicedev_task_get_next_word 20 s1 = Inr (7, s2)"
proof -
  have "ready 20 (run_job0 8 4 (replicate 1024 7)) (run_task0 8 4) ctx0 bound_dev0 bound_buff0"
    by (rule ready_run_job0) simp_all
  then show ?thesis
    using run_starts_at_page [of "run_job0 8 4 (replicate 1024 7)" 20 "run_task0 8 4"]
    by (auto simp: ready_def run_task0_def run_job0_words)
qed

text \<open>
  C20. A user can reach the slot next to their own: a \<open>GET_DIE\<close> whose slot field is 1 passes
  the checks, and a buffer bound to an even slot then feeds it with the odd slot after it.
\<close>

theorem get_die_forges_slot:
  assumes r: "ready tp s t cx dv bf" and E: "drains E" and p: "program s (t_body t) = [c0, c1]"
    and die: "field 0 4 c0 = DICEDEV_USER_CMD_TYPE_GET_DIE" "field 24 4 c0 = 1" "c1 AND NOT (allowed bf) = 0"
    and k: "0 \<le> binded_slot bf" "binded_slot bf < 16" "even (binded_slot bf)"
  shows "\<exists>s' dv' c0'. wt_run_task E tp s = Inr s' \<and> devs s' (ctx_dev cx) = Some dv' \<and> ctxs s' = ctxs s \<and>
    fed (bar dv') = fed (bar dv) @ [c0', c1] \<and> field 24 4 c0' = word_of_int (binded_slot bf + 1)"
proof -
  let ?k = "binded_slot bf" and ?c = "c0 OR push_bit 24 (word_of_int (binded_slot bf))"
  have b: "bit c0 (24 + j) \<longleftrightarrow> j = 0" if "j < 4" for j
    using that bit_field [of 24 4 c0 j] die(2) by simp
  have f: "field 25 3 c0 = 0"
    using b [of "Suc _"] by (intro bit_word_eqI) (simp add: bit_field)
  have "field 24 1 c0 = 1" using b [of 0] by (intro bit_word_eqI) (auto simp: bit_field)
  then have "field 24 4 ?c = word_of_int ?k OR 1" using slot_field [of 24 c0 ?k] f k by simp
  also have "\<dots> = word_of_int (?k OR 1)" by (rule bit_word_eqI) (auto simp: bit_simps)
  also have "?k OR 1 = ?k + 1" using k(3) by (simp add: or_one_eq)
  finally have slot: "field 24 4 ?c = word_of_int (?k + 1)" .
  obtain body where "wt_run_task E tp s = Inr (after_words E tp (t_ctx t) (ctx_dev cx)
    (marked_running tp cx dv s) [?c, c1] (push_bit 5 (ucast (field 5 15 c0))) False body)"
    using wt_run_task_run [OF r E, of "[[?c, c1]]" "push_bit 5 (ucast (field 5 15 c0))" Completed] die f by (auto simp: p)
  then show ?thesis using slot r fed_hist(2) [OF E] by (auto simp: after_words_def marked_running_def ready_def fun_upd_idem)
qed


theorem get_die_forges_slot_witness:
  "\<exists>s' dv' c0'. wt_run_task env0 20 (job0 [0x01000012, 0x20]) = Inr s' \<and> devs s' 10 = Some dv' \<and>
     fed (bar dv') = [c0', 0x20] \<and> field 24 4 c0' = 1"
proof -
  have "ready 20 (job0 [0x01000012, 0x20]) (task0 [0x01000012, 0x20]) ctx0 bound_dev0 bound_buff0"
    by (rule ready_job0) simp
  from get_die_forges_slot [OF this drains_env0, of "0x01000012" "0x20"] show ?thesis
    by (auto simp: program_job0 field_def fed_def)
qed

text \<open>
  C21. The count of expected results: a \<open>GET_DIE\<close> that asks for \<open>num\<close> results adds \<open>16 * num\<close> to
  the task's result count when \<open>num\<close> is even and \<open>16 * (num - 1)\<close> when it is odd, whatever dice
  are asked for. One result alone is not counted.
\<close>

theorem get_die_result_count:
  assumes r: "ready tp s t cx dv bf" and E: "drains E" and p: "program s (t_body t) = [c0, c1]"
    and die: "field 0 4 c0 = DICEDEV_USER_CMD_TYPE_GET_DIE" "field 25 3 c0 = 0" "c1 AND NOT (allowed bf) = 0"
    and num: "num = unat (field 4 16 c0)"
  shows "\<exists>s' t'. wt_run_task E tp s = Inr s' \<and> tasks s' tp = Some t' \<and>
    t_result_count t' = t_result_count t + of_nat (16 * (num - num mod 2))"
proof -
  have "field 5 15 c0 = drop_bit 1 (field 4 16 c0)"
    by (rule bit_word_eqI) (auto simp: bit_field bit_simps)
  then have h: "unat (field 5 15 c0) = num div 2" by (simp add: num drop_bit_eq_div unat_div_distrib)
  have "(ucast (field 5 15 c0) :: u64) = of_nat (num div 2)" by (simp flip: h)
  then have "push_bit 5 (ucast (field 5 15 c0)) = (of_nat (32 * (num div 2)) :: u64)"
    by (simp add: push_bit_eq_mult)
  also have "32 * (num div 2) = 16 * (num - num mod 2)" by (simp add: minus_mod_eq_mult_div)
  finally have n: "push_bit 5 (ucast (field 5 15 c0)) = (of_nat (16 * (num - num mod 2)) :: u64)" .
  let ?c = "c0 OR push_bit 24 (word_of_int (binded_slot bf))"
  obtain body where "wt_run_task E tp s = Inr (after_words E tp (t_ctx t) (ctx_dev cx)
    (marked_running tp cx dv s) [?c, c1] (of_nat (16 * (num - num mod 2))) False body)"
    using wt_run_task_run [OF r E, of "[[?c, c1]]" "push_bit 5 (ucast (field 5 15 c0))" Completed] die
    by (auto simp: p n simp del: of_nat_mult)
  then show ?thesis using r by (auto simp: after_words_def marked_running_def ready_def)
qed

theorem get_die_result_count_witness:
  "\<exists>s' t'. wt_run_task env0 20 (job0 [0x12, 0x20]) = Inr s' \<and> tasks s' 20 = Some t' \<and> t_result_count t' = 0"
proof -
  have "ready 20 (job0 [0x12, 0x20]) (task0 [0x12, 0x20]) ctx0 bound_dev0 bound_buff0" by (rule ready_job0) simp
  from get_die_result_count [OF this drains_env0, of "0x12" "0x20" 1] show ?thesis
    by (auto simp: program_job0 field_def)
qed

end
