(* ===== verification/Dicedev_Wt.thy ===== *)
theory Dicedev_Wt
  imports Dicedev_Task
begin

text \<open>
  The worker thread (\<^verbatim>\<open>dicedev_wt.c\<close>): the queue of pending tasks, the choice of the next
  event, the handling of each event, and the clean-up when the thread is stopped.
\<close>

section \<open>Operations\<close>

definition dicedev_buffer_init_reader :: "ptr \<Rightarrow> kstate \<Rightarrow> kstate result" where
  "dicedev_buffer_init_reader b s =
     modify_buff b (\<lambda>bf. bf\<lparr>reader := \<lparr>reader_result_count = 0, reader_offset = 0\<rparr>\<rparr>) s"

text \<open>\<open>kthread_run\<close> starts a thread that nobody has asked to stop or to park.\<close>

definition dicedev_wt_init :: "ptr \<Rightarrow> kstate \<Rightarrow> kstate result" where
  "dicedev_wt_init d s = modify_dev d (\<lambda>dv. dv\<lparr>running_task := None, event_cond := 0, pending_tasks := [],
     wt_thread := \<lparr>should_stop = False, should_park = False\<rparr>\<rparr>) s"

definition dicedev_wt_add_task :: "ptr \<Rightarrow> ptr \<Rightarrow> kstate \<Rightarrow> kstate result" where
  "dicedev_wt_add_task c tp s = bindR (deref (ctxs s) c) (\<lambda>cx.
     let d = ctx_dev cx in
     bindR (spin_lock_irqsave d s) (\<lambda>s.
     bindR (modify_dev d (\<lambda>dv. dv\<lparr>pending_tasks := pending_tasks dv @ [tp]\<rparr>) s) (\<lambda>s.
     bindR (wake_up_event_cond d s) (\<lambda>s.
     spin_unlock_irqrestore d s))))"

datatype wt_event =
    WT_NO_EVENT | WT_EVENT_TASK_GET_NEXT | WT_EVENT_TASK_BIND_SLOT | WT_EVENT_TASK_RUN
  | WT_EVENT_TASK_FINISH | WT_PARK | WT_STOP

record wt_state =
  wt_dev :: ptr
  next_task :: "ptr option"

definition wt_get_event :: "wt_state \<Rightarrow> kstate \<Rightarrow> (wt_event \<times> kstate) result" where
  "wt_get_event w s = bindR (deref (devs s) (wt_dev w)) (\<lambda>dv.
     if should_stop (wt_thread dv) then Inr (WT_STOP, s)
     else if should_park (wt_thread dv) then Inr (WT_PARK, s)
     else if fence_state dv = DICEDEV_FENCE_STATE_REACHED then Inr (WT_EVENT_TASK_FINISH, s)
     else case next_task w of
       None \<Rightarrow> Inr (if pending_tasks dv \<noteq> [] then WT_EVENT_TASK_GET_NEXT else WT_NO_EVENT, s)
     | Some tp \<Rightarrow>
         if fence_state dv \<noteq> DICEDEV_FENCE_STATE_NONE then Inr (WT_NO_EVENT, s)
         else bindR (spin_lock_irqsave (wt_dev w) s) (\<lambda>s.
           bindR (deref (tasks s) tp) (\<lambda>t.
           bindR (deref (buffs s) (t_buff_out t)) (\<lambda>bf.
           bindR (spin_unlock_irqrestore (wt_dev w) s) (\<lambda>s.
           if binded_slot bf = DICEDEV_BUFFER_NO_SLOT
           then Inr (if free_slots dv > 0 then WT_EVENT_TASK_BIND_SLOT else WT_NO_EVENT, s)
           else Inr (WT_EVENT_TASK_RUN, s))))))"

definition is_run :: "dicedev_task_body \<Rightarrow> bool" where
  "is_run body = (case body of DICEDEV_TASK_TYPE_RUN _ \<Rightarrow> True | DICEDEV_TASK_TYPE_WRITE _ \<Rightarrow> False)"

definition task_destroy :: "env \<Rightarrow> ptr \<Rightarrow> kstate \<Rightarrow> kstate result" where
  "task_destroy E tp s = bindR (deref (tasks s) tp) (\<lambda>t.
     bindR (deref (ctxs s) (t_ctx t)) (\<lambda>cx.
     let d = ctx_dev cx in
     bindR (spin_lock_irqsave d s) (\<lambda>s.
     bindR (deref (buffs s) (t_buff_out t)) (\<lambda>bf.
     bindR (if binded_slot bf \<noteq> DICEDEV_BUFFER_NO_SLOT \<and> (is_run (t_body t) \<or> ctx_failed cx)
            then unbind_slot E d (t_buff_out t) s else Inr s) (\<lambda>s.
     bindR (spin_unlock_irqrestore d s) (\<lambda>s.
     bindR (spin_lock_irqsave (buff_dev bf) s) (\<lambda>s.
     bindR (modify_ctx (t_ctx t) (\<lambda>cx. cx\<lparr>task_count := task_count cx - 1\<rparr>) s) (\<lambda>s.
     bindR (modify_buff (t_buff_out t) (\<lambda>bf. bf\<lparr>reader := (reader bf)\<lparr>reader_result_count :=
       reader_result_count (reader bf) + t_result_count t\<rparr>\<rparr>) s) (\<lambda>s.
     bindR (wake_up_ctx (t_ctx t) s) (\<lambda>s.
     bindR (spin_unlock_irqrestore (buff_dev bf) s) (\<lambda>s.
     Inr (s\<lparr>tasks := (tasks s)(tp := None)\<rparr>))))))))))))"

subsection \<open>The thread\<close>

text \<open>The start of \<open>WT_EVENT_TASK_GET_NEXT\<close>: the first task leaves the queue.\<close>

definition wt_take_next :: "ptr \<Rightarrow> kstate \<Rightarrow> (ptr \<times> kstate) result" where
  "wt_take_next d s = bindR (spin_lock_irqsave d s) (\<lambda>s.
     bindR (deref (devs s) d) (\<lambda>dv. case pending_tasks dv of
       [] \<Rightarrow> Inl WILD
     | tp # tps \<Rightarrow>
         bindR (modify_dev d (\<lambda>dv. dv\<lparr>pending_tasks := tps\<rparr>) s) (\<lambda>s.
         bindR (spin_unlock_irqrestore d s) (\<lambda>s. Inr (tp, s)))))"

definition wt_handle :: "env \<Rightarrow> wt_event \<Rightarrow> wt_state \<Rightarrow> kstate \<Rightarrow> (wt_state \<times> kstate) result" where
  "wt_handle E ev w s = (let d = wt_dev w in case ev of
     WT_STOP \<Rightarrow> Inr (w, s)
   | WT_PARK \<Rightarrow> Inr (w, s)
   | WT_NO_EVENT \<Rightarrow> Inr (w, s)
   | WT_EVENT_TASK_GET_NEXT \<Rightarrow>
       bindR (wt_take_next d s) (\<lambda>(tp, s).
       bindR (deref (tasks s) tp) (\<lambda>t.
       bindR (deref (ctxs s) (t_ctx t)) (\<lambda>cx.
       if ctx_failed cx then bindR (task_destroy E tp s) (\<lambda>s. Inr (w, s))
       else Inr (w\<lparr>next_task := Some tp\<rparr>, s))))
   | WT_EVENT_TASK_BIND_SLOT \<Rightarrow>
       bindR (not_null (next_task w)) (\<lambda>tp.
       bindR (spin_lock_irqsave d s) (\<lambda>s.
       bindR (deref (tasks s) tp) (\<lambda>t.
       bindR (bind_free_slot E d (t_buff_out t) s) (\<lambda>s.
       bindR (dicedev_buffer_init_reader (t_buff_out t) s) (\<lambda>s.
       bindR (spin_unlock_irqrestore d s) (\<lambda>s. Inr (w, s)))))))
   | WT_EVENT_TASK_RUN \<Rightarrow>
       bindR (modify_dev d (\<lambda>dv. dv\<lparr>fence_state := DICEDEV_FENCE_STATE_WAITING\<rparr>) s) (\<lambda>s.
       bindR (not_null (next_task w)) (\<lambda>tp.
       bindR (wt_run_task E tp s) (\<lambda>s.
       bindR (spin_lock_irqsave d s) (\<lambda>s.
       bindR (dicedev_iow d DICEDEV_CMD_FENCE_WAIT DICEDEV_TASK_FENCE_VAL s) (\<lambda>s.
       bindR (feed_cmd E d [DICEDEV_USER_CMD_FENCE_HEADER DICEDEV_TASK_FENCE_VAL] s) (\<lambda>s.
       bindR (spin_unlock_irqrestore d s) (\<lambda>s. Inr (w\<lparr>next_task := None\<rparr>, s))))))))
   | WT_EVENT_TASK_FINISH \<Rightarrow>
       bindR (deref (devs s) d) (\<lambda>dv.
       bindR (bug_on (running_task dv = None)) (\<lambda>_.
       bindR (not_null (running_task dv)) (\<lambda>tp.
       bindR (task_destroy E tp s) (\<lambda>s.
       bindR (deref (devs s) d) (\<lambda>dv.
       bindR (if dev_failed dv
              then bindR (restart_device d s) (\<lambda>s. modify_dev d (\<lambda>dv. dv\<lparr>dev_failed := False\<rparr>) s)
              else Inr s) (\<lambda>s.
       bindR (modify_dev d (\<lambda>dv. dv\<lparr>fence_state := DICEDEV_FENCE_STATE_NONE\<rparr>) s) (\<lambda>s.
       bindR (modify_dev d (\<lambda>dv. dv\<lparr>running_task := None\<rparr>) s) (\<lambda>s. Inr (w, s))))))))))"

text \<open>One iteration of the loop of \<open>dicedev_wt_fn\<close>, while the thread is not asked to stop.\<close>

definition wt_fn_step :: "env \<Rightarrow> wt_state \<Rightarrow> kstate \<Rightarrow> (wt_state \<times> kstate) result" where
  "wt_fn_step E w s = bindR (wt_get_event w s) (\<lambda>(ev, s). wt_handle E ev w s)"

text \<open>The rest of \<open>dicedev_wt_fn\<close>, after the loop.\<close>

fun wt_drop_pending :: "env \<Rightarrow> ptr \<Rightarrow> ptr list \<Rightarrow> kstate \<Rightarrow> kstate result" where
  "wt_drop_pending E d [] s = Inr s"
| "wt_drop_pending E d (tp # tps) s =
     bindR (modify_dev d (\<lambda>dv. dv\<lparr>pending_tasks := remove1 tp (pending_tasks dv)\<rparr>) s) (\<lambda>s.
     bindR (task_destroy E tp s) (\<lambda>s. wt_drop_pending E d tps s))"

definition wt_fn_exit :: "env \<Rightarrow> ptr \<Rightarrow> kstate \<Rightarrow> kstate result" where
  "wt_fn_exit E d s = bindR (spin_lock_irqsave d s) (\<lambda>s.
     bindR (deref (devs s) d) (\<lambda>dv.
     bindR (wt_drop_pending E d (pending_tasks dv) s) (\<lambda>s.
     bindR (deref (devs s) d) (\<lambda>dv.
     bindR (case running_task dv of
              None \<Rightarrow> Inr s
            | Some tp \<Rightarrow> bindR (modify_dev d (\<lambda>dv. dv\<lparr>running_task := None\<rparr>) s) (\<lambda>s. task_destroy E tp s)) (\<lambda>s.
     spin_unlock_irqrestore d s)))))"


section \<open>Running any task\<close>

text \<open>The number of bytes left is always a multiple of 4, even after it has wrapped around.\<close>

lemma word_bytes_step: "\<exists>k. word_bytes n - 4 = word_bytes k" "\<exists>k. word_bytes n - 8 = word_bytes k"
proof -
  have "word_bytes n - 4 = word_bytes (n + (2 ^ 62 - 1))" "word_bytes n - 8 = word_bytes (n + (2 ^ 62 - 2))"
    by (simp_all add: word_bytes_def)
  then show "\<exists>k. word_bytes n - 4 = word_bytes k" "\<exists>k. word_bytes n - 8 = word_bytes k" by blast+
qed

lemma word_bytes_pos: "0 < word_bytes n \<Longrightarrow> \<not> word_bytes n < 4"
proof -
  have "unat (word_bytes n) = 4 * n mod 2 ^ 64" by (simp only: word_bytes_def unat_of_nat) simp
  also have "\<dots> = 4 * (n mod 2 ^ 62)" by (simp add: mult_mod_right)
  finally show "0 < word_bytes n \<Longrightarrow> \<not> word_bytes n < 4" by (simp add: word_less_nat_alt)
qed

lemma run_loop_total:
  assumes ctx: "drains E" "tasks s tp = Some t" "buffs s b = Some bf" "ctxs s c = Some cx" "devs s d = Some dv"
    "\<not> feed_lock dv"
  shows "body_ok s body \<Longrightarrow> (\<exists>out' n' f body'. wt_run_loop E tp c d b (word_bytes n) (after_words E tp c d s out m False body)
      = Inr (after_words E tp c d s out' n' f body')) \<or>
    wt_run_loop E tp c d b (word_bytes n) (after_words E tp c d s out m False body) = Inl OOB"
proof (induction "length (remaining s body)" arbitrary: body n out m rule: less_induct)
  case less
  show ?case
  proof (cases "0 < word_bytes n")
    case False
    then show ?thesis by (subst wt_run_loop.simps, subst (2) wt_run_loop.simps) auto
  next
    case pos: True
    obtain k where k: "word_bytes n - 4 = word_bytes k" using word_bytes_step(1) by blast
    obtain k8 where k8: "word_bytes n - 8 = word_bytes k8" using word_bytes_step(2) by blast
    show ?thesis
    proof (cases "remaining s body")
      case Nil
      then have "next_word s body = Inl OOB" using task_words.nxt_Nil less.prems by blast
      then show ?thesis using pos by (subst (2) wt_run_loop.simps) (simp add: get_next_word_after [OF ctx(2)])
    next
      case (Cons c0 ws)
      then obtain body1 where b1: "next_word s body = Inr (c0, body1)" "body_ok s body1" "remaining s body1 = ws"
        using task_words.nxt_Cons less.prems by blast
      note iter = run_loop_iter [OF ctx b1(1) pos word_bytes_pos [OF pos]]
      note IH1 = less.hyps [of body1, OF _ b1(2)]
      show ?thesis
      proof (cases ws)
        case Nil
        then have "next_word s body1 = Inl OOB" using task_words.nxt_Nil b1 by blast
        then show ?thesis using IH1 [where n = k] Cons b1(3) by (auto simp: iter k)
      next
        case (Cons c1 ws')
        then obtain body2 where b2: "next_word s body1 = Inr (c1, body2)" "body_ok s body2" "remaining s body2 = ws'"
          using task_words.nxt_Cons b1(2,3) by blast
        then show ?thesis
          using IH1 [where n = k] less.hyps [of body2, OF _ b2(2), where n = k8] \<open>remaining s body = c0 # ws\<close> Cons b1(3)
          by (auto simp: iter k k8)
      qed
    qed
  qed
qed

text \<open>
  What the queueing code guarantees of a task. An empty run may start at the very end of its
  buffer; it is the only sound task that is not well formed.
\<close>

fun body_sound :: "kstate \<Rightarrow> dicedev_task_body \<Rightarrow> bool" where
  "body_sound s (DICEDEV_TASK_TYPE_WRITE w) = task_wf s (DICEDEV_TASK_TYPE_WRITE w)"
| "body_sound s (DICEDEV_TASK_TYPE_RUN r) = (backed s (r_cBuff r) \<and> 4 dvd unat (r_offset r) \<and> 4 dvd unat (r_size r) \<and>
     unat (r_offset r) + unat (r_size r) \<le> 4096 * length (buffer_pages s (r_cBuff r)))"

lemma same_sound:
  assumes "cmds s' = cmds s" "buff_key s' = buff_key s" "pts s' = pts s" "page_mem (mem s') = page_mem (mem s)"
  shows "task_wf s' body = task_wf s body" "body_sound s' body = body_sound s body"
  by (cases body; simp add: same_pages [OF assms(2-4)] assms)+

lemma init_it_at_end:
  assumes "tasks s tp = Some t" "body_sound s (t_body t)" "\<not> task_wf s (t_body t)"
  shows "dicedev_task_init_it tp s = Inl OOB"
proof (cases "t_body t")
  case (DICEDEV_TASK_TYPE_WRITE w)
  then show ?thesis using assms by simp
next
  case (DICEDEV_TASK_TYPE_RUN r)
  obtain bf pt where pt: "buffs s (r_cBuff r) = Some bf" "pts s (buff_pt bf) = Some pt"
      "buffer_pages s (r_cBuff r) = pages pt"
    using assms DICEDEV_TASK_TYPE_RUN by (auto simp: backed_def buffer_pages_def)
  have "\<not> unat (r_offset r) div 4096 < length (pages pt)"
    using assms(2,3) DICEDEV_TASK_TYPE_RUN pt(3) by auto
  then show ?thesis using assms(1) DICEDEV_TASK_TYPE_RUN pt by (simp add: dicedev_task_init_it_def Let_def)
qed

lemma wt_run_task_total:
  assumes t: "tasks s tp = Some t" "ctxs s (t_ctx t) = Some cx" "devs s (ctx_dev cx) = Some dv" "\<not> feed_lock dv"
      "buffs s (t_buff_out t) = Some bf" "binded_slot bf \<noteq> -1" "body_sound s (t_body t)" and E: "drains E"
  shows "(\<exists>out n f body. wt_run_task E tp s = Inr (after_words E tp (t_ctx t) (ctx_dev cx) (marked_running tp cx dv s)
    out n f body)) \<or> wt_run_task E tp s = Inl OOB"
proof (cases "task_wf s (t_body t)")
  case False
  let ?s = "marked_running tp cx dv s"
  have "task_wf ?s (t_body t) = task_wf s (t_body t)" "body_sound ?s (t_body t) = body_sound s (t_body t)"
    by (rule same_sound; simp add: marked_running_def buff_key_def [abs_def])+
  then have "dicedev_task_init_it tp ?s = Inl OOB"
    using init_it_at_end [of ?s tp t] t False by (simp add: marked_running_def)
  then show ?thesis using t by (simp add: wt_run_task_def marked_running_def Let_def)
next
  case True
  then have r: "ready tp s t cx dv bf" using t by (simp add: ready_def)
  show ?thesis
  proof (cases "program s (t_body t) = []")
    case True
    then show ?thesis using wt_run_task_run [OF r E, of "[]" 0 Completed] by auto
  next
    case False
    then show ?thesis using wt_run_task_starts [OF r, of E] run_loop_total [OF E ready_marked [OF r]] by fastforce
  qed
qed

section \<open>Executing the operations\<close>

lemma slock_free [simp]: "\<not> slock dv \<Longrightarrow> dv\<lparr>slock := False\<rparr> = dv"
  by (cases dv) simp

lemma add_task_run [run_simps]:
  assumes "ctxs s c = Some cx" "devs s (ctx_dev cx) = Some dv" "\<not> slock dv"
  shows "dicedev_wt_add_task c tp s = Inr (s\<lparr>devs := (devs s)(ctx_dev cx \<mapsto>
    dv\<lparr>pending_tasks := pending_tasks dv @ [tp], event_cond := Suc (event_cond dv)\<rparr>)\<rparr>)"
  using assms by (cases dv) (simp add: dicedev_wt_add_task_def Let_def)

lemma take_next_run [run_simps]:
  assumes "devs s d = Some dv" "\<not> slock dv" "pending_tasks dv = tp # tps"
  shows "wt_take_next d s = Inr (tp, s\<lparr>devs := (devs s)(d \<mapsto> dv\<lparr>pending_tasks := tps\<rparr>)\<rparr>)"
  using assms by (cases dv) (simp add: wt_take_next_def)

section \<open>The interface of the task queue\<close>

text \<open>What the handlers that add tasks and the thread that takes them rely on.\<close>

locale task_fifo =
  fixes ok :: "'s \<Rightarrow> bool"
    and contents :: "'s \<Rightarrow> ptr list"
    and put :: "ptr \<Rightarrow> 's \<Rightarrow> 's result"
    and take_out :: "'s \<Rightarrow> (ptr \<times> 's) result"
  assumes put_law: "ok s \<Longrightarrow> \<exists>s'. put tp s = Inr s' \<and> ok s' \<and> contents s' = contents s @ [tp]"
    and take_law: "ok s \<Longrightarrow> contents s = tp # tps \<Longrightarrow> \<exists>s'. take_out s = Inr (tp, s') \<and> ok s' \<and> contents s' = tps"
begin

lemma put_all_contents: "ok s \<Longrightarrow> \<exists>s'. put_all put tps s = Inr s' \<and> ok s' \<and> contents s' = contents s @ tps"
proof (induction tps arbitrary: s)
  case (Cons tp tps)
  then obtain s1 where "put tp s = Inr s1" "ok s1" "contents s1 = contents s @ [tp]" using put_law by blast
  with Cons.IH [of s1] show ?case by auto
qed simp

lemma take_all: "ok s \<Longrightarrow> contents s = tps @ rest \<Longrightarrow>
  \<exists>s'. read_n take_out (length tps) s = Inr (tps, s') \<and> ok s' \<and> contents s' = rest"
proof (induction tps arbitrary: s)
  case (Cons tp tps)
  then obtain s1 where "take_out s = Inr (tp, s1)" "ok s1" "contents s1 = tps @ rest"
    using take_law [of s tp "tps @ rest"] by auto
  with Cons.IH [of s1] show ?case by auto
qed simp

lemma first_in_first_out:
  assumes "ok s" "contents s = []"
  shows "\<exists>s' s''. put_all put tps s = Inr s' \<and> read_n take_out (length tps) s' = Inr (tps, s'') \<and> contents s'' = []"
proof -
  obtain s' where s': "put_all put tps s = Inr s'" "ok s'" "contents s' = tps @ []"
    using put_all_contents [OF assms(1)] assms(2) by auto
  with take_all [OF s'(2,3)] show ?thesis by blast
qed

end

definition queue_ok :: "ptr \<Rightarrow> kstate \<Rightarrow> bool" where
  "queue_ok c s \<longleftrightarrow> (\<exists>cx dv. ctxs s c = Some cx \<and> devs s (ctx_dev cx) = Some dv \<and> \<not> slock dv)"

definition queue_contents :: "ptr \<Rightarrow> kstate \<Rightarrow> ptr list" where
  "queue_contents c s = (case Option.bind (ctxs s c) (\<lambda>cx. devs s (ctx_dev cx)) of None \<Rightarrow> [] | Some dv \<Rightarrow> pending_tasks dv)"

definition take_for :: "ptr \<Rightarrow> kstate \<Rightarrow> (ptr \<times> kstate) result" where
  "take_for c s = bindR (deref (ctxs s) c) (\<lambda>cx. wt_take_next (ctx_dev cx) s)"

interpretation pending: task_fifo "queue_ok c" "queue_contents c" "dicedev_wt_add_task c" "take_for c" for c
proof
  show "\<exists>s'. dicedev_wt_add_task c tp s = Inr s' \<and> queue_ok c s' \<and> queue_contents c s' = queue_contents c s @ [tp]"
    if "queue_ok c s" for s tp
    using that by (auto simp: queue_ok_def queue_contents_def add_task_run)
  show "\<exists>s'. take_for c s = Inr (tp, s') \<and> queue_ok c s' \<and> queue_contents c s' = tps"
    if "queue_ok c s" "queue_contents c s = tp # tps" for s tp tps
    using that by (auto simp: queue_ok_def queue_contents_def take_for_def take_next_run)
qed

section \<open>The end of a task\<close>

text \<open>A device and a buffer after \<open>unbind_slot\<close>.\<close>

definition dev_unbound :: "env \<Rightarrow> dicedev_buffer \<Rightarrow> dicedev_device \<Rightarrow> dicedev_device" where
  "dev_unbound E bf dv = dv\<lparr>buff_slots := (buff_slots dv)[nat (binded_slot bf) := None], free_slots := free_slots dv + 1,
     bar := fed_hist E [DICEDEV_USER_CMD_UNBIND_SLOT_HEADER (binded_slot bf)] (bar dv)\<rparr>"

definition buff_unbound :: "dicedev_buffer \<Rightarrow> dicedev_buffer" where
  "buff_unbound bf = bf\<lparr>binded_slot := -1, usage_count := 0\<rparr>"

definition gives_up_slot :: "dicedev_task \<Rightarrow> dicedev_context \<Rightarrow> dicedev_buffer \<Rightarrow> bool" where
  "gives_up_slot t cx bf \<longleftrightarrow> binded_slot bf \<noteq> -1 \<and> (is_run (t_body t) \<or> ctx_failed cx)"

definition add_results :: "u64 \<Rightarrow> dicedev_buffer \<Rightarrow> dicedev_buffer" where
  "add_results n bf = bf\<lparr>reader := (reader bf)\<lparr>reader_result_count := reader_result_count (reader bf) + n\<rparr>\<rparr>"

lemma unbind_locked:
  assumes "drains E" "devs s d = Some dv" "\<not> feed_lock dv" "buffs s b = Some bf" "buff_dev bf = d" "slots_ok d s"
    "binded_slot bf \<noteq> -1"
  shows "unbind_slot E d b (s\<lparr>devs := (devs s)(d \<mapsto> dv\<lparr>slock := True\<rparr>)\<rparr>) =
    Inr (s\<lparr>devs := (devs s)(d \<mapsto> (dev_unbound E bf dv)\<lparr>slock := True\<rparr>), buffs := (buffs s)(b \<mapsto> buff_unbound bf)\<rparr>)"
proof -
  obtain i where i: "binded_slot bf = int i" using bound_slot_int [OF assms(6,4,5,7)] by auto
  have l: "length (buff_slots dv) = 16" "i < 16" using slots_ok_bound [OF assms(6,2,4,5) i] by auto
  show ?thesis
    using unbind_slot_run [of E "s\<lparr>devs := (devs s)(d \<mapsto> dv\<lparr>slock := True\<rparr>)\<rparr>" d "dv\<lparr>slock := True\<rparr>" b bf i] assms l i
    by (cases dv) (simp add: dev_unbound_def buff_unbound_def)
qed

lemma task_destroy_run:
  assumes "drains E" "tasks s tp = Some t" "ctxs s (t_ctx t) = Some cx" "devs s d = Some dv" "ctx_dev cx = d"
    "\<not> slock dv" "\<not> feed_lock dv" "buffs s (t_buff_out t) = Some bf" "buff_dev bf = d" "slots_ok d s"
  shows "task_destroy E tp s = Inr (s\<lparr>
    devs := (devs s)(d \<mapsto> if gives_up_slot t cx bf then dev_unbound E bf dv else dv),
    ctxs := (ctxs s)(t_ctx t \<mapsto> cx\<lparr>task_count := task_count cx - 1, wq := Suc (wq cx)\<rparr>),
    buffs := (buffs s)(t_buff_out t \<mapsto> add_results (t_result_count t) (if gives_up_slot t cx bf then buff_unbound bf else bf)),
    tasks := (tasks s)(tp := None)\<rparr>)"
proof (cases "gives_up_slot t cx bf")
  case False
  then show ?thesis
    by (simp add: task_destroy_def add_results_def Let_def fun_upd_idem gives_up_slot_def [symmetric] assms(2-9)
      del: bindR_eq_Inr)
next
  case True
  then have "unbind_slot E d (t_buff_out t) (s\<lparr>devs := (devs s)(d \<mapsto> dv\<lparr>slock := True\<rparr>)\<rparr>) =
      Inr (s\<lparr>devs := (devs s)(d \<mapsto> (dev_unbound E bf dv)\<lparr>slock := True\<rparr>),
      buffs := (buffs s)(t_buff_out t \<mapsto> buff_unbound bf)\<rparr>)"
    using unbind_locked [OF assms(1,4,7-10)] by (simp add: gives_up_slot_def)
  moreover have "\<not> slock (dev_unbound E bf dv)" using assms(6) by (simp add: dev_unbound_def)
  ultimately show ?thesis using True assms(2-9)
    by (cases s) (simp add: task_destroy_def add_results_def Let_def gives_up_slot_def [symmetric] del: bindR_eq_Inr)
qed

end
