(* ===== verification/Dicedev_Wt_Inv.thy ===== *)
theory Dicedev_Wt_Inv
  imports Dicedev_Wt
begin

text \<open>
  The invariant of a device with its worker thread, and that every iteration of the thread
  keeps it. The live tasks, in the order in which they are served, form the abstract queue
  that the thread works off.
\<close>

section \<open>The invariant\<close>

fun opt_list :: "'a option \<Rightarrow> 'a list" where
  "opt_list None = []"
| "opt_list (Some x) = [x]"

lemma set_opt_list [simp]: "set (opt_list x) = set_option x"
  by (cases x) auto

text \<open>The task at the device, the one chosen next, and the pending ones.\<close>

definition live :: "wt_state \<Rightarrow> dicedev_device \<Rightarrow> ptr list" where
  "live w dv = opt_list (running_task dv) @ opt_list (next_task w) @ pending_tasks dv"

definition task_key :: "kstate \<Rightarrow> ptr \<Rightarrow> (ptr \<times> ptr) option" where
  "task_key s tp = map_option (\<lambda>t. (t_ctx t, t_buff_out t)) (tasks s tp)"

definition ctx_key :: "kstate \<Rightarrow> ptr \<Rightarrow> ptr option" where
  "ctx_key s c = map_option ctx_dev (ctxs s c)"

text \<open>A task whose context and output buffer exist and belong to device \<open>d\<close>.\<close>

definition task_linked :: "ptr \<Rightarrow> kstate \<Rightarrow> ptr \<Rightarrow> bool" where
  "task_linked d s tp \<longleftrightarrow> (\<exists>c b p. task_key s tp = Some (c, b) \<and> ctx_key s c = Some d \<and>
     buff_key s b = Some (p, d) \<and> pts s p \<noteq> None)"

definition task_sound :: "kstate \<Rightarrow> ptr \<Rightarrow> bool" where
  "task_sound s tp \<longleftrightarrow> (\<exists>t. tasks s tp = Some t \<and> body_sound s (t_body t))"

text \<open>Each context's \<open>task_count\<close> is the number of its live tasks.\<close>

definition tasks_of :: "kstate \<Rightarrow> ptr \<Rightarrow> ptr list \<Rightarrow> ptr list" where
  "tasks_of s c l = filter (\<lambda>tp. map_option fst (task_key s tp) = Some c) l"

definition counted :: "ptr \<Rightarrow> kstate \<Rightarrow> ptr list \<Rightarrow> bool" where
  "counted d s l \<longleftrightarrow> (\<forall>c cx. ctxs s c = Some cx \<and> ctx_dev cx = d \<longrightarrow>
     task_count cx = of_nat (length (tasks_of s c l)))"

definition base_inv :: "env \<Rightarrow> ptr \<Rightarrow> dicedev_device \<Rightarrow> kstate \<Rightarrow> ptr list \<Rightarrow> bool" where
  "base_inv E d dv s l \<longleftrightarrow> drains E \<and> devs s d = Some dv \<and> slots_ok d s \<and>
     \<not> slock dv \<and> \<not> feed_lock dv \<and> \<not> dev_failed dv \<and>
     distinct l \<and> (\<forall>tp \<in> set l. task_linked d s tp) \<and> counted d s l"

definition dev_inv :: "env \<Rightarrow> wt_state \<Rightarrow> dicedev_device \<Rightarrow> kstate \<Rightarrow> bool" where
  "dev_inv E w dv s \<longleftrightarrow> base_inv E (wt_dev w) dv s (live w dv) \<and>
     (running_task dv = None \<longleftrightarrow> fence_state dv = DICEDEV_FENCE_STATE_NONE) \<and>
     (\<forall>tp \<in> set_option (next_task w) \<union> set (pending_tasks dv). task_sound s tp)"

definition wt_inv :: "env \<Rightarrow> wt_state \<Rightarrow> kstate \<Rightarrow> bool" where
  "wt_inv E w s \<longleftrightarrow> (\<exists>dv. dev_inv E w dv s)"

lemma task_linkedE:
  assumes "task_linked d s tp"
  obtains t cx bf pt where "tasks s tp = Some t" "ctxs s (t_ctx t) = Some cx" "ctx_dev cx = d"
    "buffs s (t_buff_out t) = Some bf" "buff_dev bf = d" "pts s (buff_pt bf) = Some pt"
  using assms by (auto simp: task_linked_def task_key_def ctx_key_def buff_key_def)

lemma task_linked_cong:
  assumes "task_key s' tp = task_key s tp" "ctx_key s' = ctx_key s" "buff_key s' = buff_key s" "pts s' = pts s"
  shows "task_linked d s' tp = task_linked d s tp"
  by (simp add: task_linked_def assms)

lemma task_sound_cong:
  assumes "tasks s' tp = tasks s tp" "cmds s' = cmds s" "buff_key s' = buff_key s" "pts s' = pts s" "page_mem (mem s') = page_mem (mem s)"
  shows "task_sound s' tp = task_sound s tp"
  by (simp add: task_sound_def same_sound(2) [OF assms(2-5)] assms(1))

lemma counted_cong:
  assumes "task_key s' = task_key s"
    and "\<And>c. map_option (\<lambda>cx. (ctx_dev cx, task_count cx)) (ctxs s' c) = map_option (\<lambda>cx. (ctx_dev cx, task_count cx)) (ctxs s c)"
  shows "counted d s' l = counted d s l"
proof -
  have t: "tasks_of s' c l = tasks_of s c l" for c by (simp add: tasks_of_def assms(1))
  have "(\<forall>cx. ctxs s' c = Some cx \<and> ctx_dev cx = d \<longrightarrow> task_count cx = k) \<longleftrightarrow>
      (\<forall>cx. ctxs s c = Some cx \<and> ctx_dev cx = d \<longrightarrow> task_count cx = k)" for c k
    using assms(2) [of c] by (cases "ctxs s c"; cases "ctxs s' c") auto
  then show ?thesis by (simp add: counted_def t)
qed

lemma slots_ok_cong:
  assumes "devs s d = Some dv" "devs s' d = Some dv'" "buff_slots dv' = buff_slots dv" "free_slots dv' = free_slots dv"
    and "\<And>b. map_option (\<lambda>bf. (buff_dev bf, binded_slot bf)) (buffs s' b) = map_option (\<lambda>bf. (buff_dev bf, binded_slot bf)) (buffs s b)"
  shows "slots_ok d s' = slots_ok d s"
proof -
  have k: "(\<exists>bf. buffs s' b = Some bf \<and> P (buff_dev bf) (binded_slot bf)) \<longleftrightarrow>
      (\<exists>bf. buffs s b = Some bf \<and> P (buff_dev bf) (binded_slot bf))" for b P
    using assms(5) [of b] by (cases "buffs s b"; cases "buffs s' b") auto
  have a: "(\<forall>bf. buffs s' b = Some bf \<longrightarrow> P (buff_dev bf) (binded_slot bf)) \<longleftrightarrow>
      (\<forall>bf. buffs s b = Some bf \<longrightarrow> P (buff_dev bf) (binded_slot bf))" for b P
    using k [of b "\<lambda>x y. \<not> P x y"] by blast
  show ?thesis using k [of _ "\<lambda>x y. x = d \<and> y = int _"] a [of _ "\<lambda>x y. x = d \<longrightarrow> -1 \<le> y \<and> y < 16"]
    by (simp add: slots_ok_def assms(1-4) imp_conjL)
qed


section \<open>The choice of the event\<close>

lemma devs_same [simp]: "devs s d = Some dv \<Longrightarrow> s\<lparr>devs := (devs s)(d \<mapsto> dv)\<rparr> = s"
  by (cases s) (simp add: fun_upd_idem)

lemma get_eventE:
  assumes "dev_inv E w dv s"
  obtains (idle) ev where "wt_get_event w s = Inr (ev, s)" "ev \<in> {WT_NO_EVENT, WT_PARK, WT_STOP}"
  | (finish) tp where "wt_get_event w s = Inr (WT_EVENT_TASK_FINISH, s)" "running_task dv = Some tp"
      "fence_state dv = DICEDEV_FENCE_STATE_REACHED"
  | (nxt) tp tps where "wt_get_event w s = Inr (WT_EVENT_TASK_GET_NEXT, s)" "next_task w = None" "pending_tasks dv = tp # tps"
  | (bind) tp t bf where "wt_get_event w s = Inr (WT_EVENT_TASK_BIND_SLOT, s)" "next_task w = Some tp"
      "running_task dv = None" "tasks s tp = Some t" "buffs s (t_buff_out t) = Some bf" "binded_slot bf = -1" "0 < free_slots dv"
  | (run) tp t bf where "wt_get_event w s = Inr (WT_EVENT_TASK_RUN, s)" "next_task w = Some tp"
      "running_task dv = None" "tasks s tp = Some t" "buffs s (t_buff_out t) = Some bf" "binded_slot bf \<noteq> -1"
proof -
  have d: "devs s (wt_dev w) = Some dv" "\<not> slock dv"
    and r: "running_task dv = None \<longleftrightarrow> fence_state dv = DICEDEV_FENCE_STATE_NONE"
    using assms by (auto simp: dev_inv_def base_inv_def)
  consider "should_stop (wt_thread dv)" | "\<not> should_stop (wt_thread dv)" "should_park (wt_thread dv)"
    | "\<not> should_stop (wt_thread dv)" "\<not> should_park (wt_thread dv)" by blast
  then show thesis
  proof cases
    case 3
    show thesis
    proof (cases "fence_state dv = DICEDEV_FENCE_STATE_REACHED")
      case True
      with r obtain tp where "running_task dv = Some tp" by auto
      then show thesis using finish 3 d True by (simp add: wt_get_event_def)
    next
      case False
      show thesis
      proof (cases "next_task w")
        case None
        then show thesis using idle nxt 3 d False by (cases "pending_tasks dv") (simp_all add: wt_get_event_def)
      next
        case (Some tp)
        then have "task_linked (wt_dev w) s tp" using assms by (simp add: dev_inv_def base_inv_def live_def)
        then obtain t bf where t: "tasks s tp = Some t" "buffs s (t_buff_out t) = Some bf" by (rule task_linkedE) blast
        have "wt_get_event w s = Inr (if fence_state dv \<noteq> DICEDEV_FENCE_STATE_NONE then WT_NO_EVENT
            else if binded_slot bf \<noteq> -1 then WT_EVENT_TASK_RUN
            else if free_slots dv > 0 then WT_EVENT_TASK_BIND_SLOT else WT_NO_EVENT, s)"
          using 3 d False Some t by (simp add: wt_get_event_def)
        then show thesis using idle bind run Some t r by (auto split: if_splits)
      qed
    qed
  qed (use idle d in \<open>simp_all add: wt_get_event_def\<close>)
qed

section \<open>The events keep the invariant\<close>

text \<open>What the slot table and the tasks need of a buffer.\<close>

definition slot_view :: "kstate \<Rightarrow> ptr \<Rightarrow> (ptr \<times> ptr \<times> int) option" where
  "slot_view s b = map_option (\<lambda>bf. (buff_pt bf, buff_dev bf, binded_slot bf)) (buffs s b)"

lemma slot_view_buffs: "buffs s' = buffs s \<Longrightarrow> slot_view s' b = slot_view s b"
  by (simp add: slot_view_def)

lemma base_inv_frame:
  assumes inv: "base_inv E d dv s l" and d: "devs s' d = Some dv'"
    and dv: "buff_slots dv' = buff_slots dv" "free_slots dv' = free_slots dv" "\<not> slock dv'" "\<not> feed_lock dv'" "\<not> dev_failed dv'"
    and b: "\<And>b. slot_view s' b = slot_view s b"
    and s: "pts s' = pts s" "task_key s' = task_key s"
      "\<And>c. map_option (\<lambda>cx. (ctx_dev cx, task_count cx)) (ctxs s' c) = map_option (\<lambda>cx. (ctx_dev cx, task_count cx)) (ctxs s c)"
  shows "base_inv E d dv' s' l"
proof -
  have "ctx_key s' c = ctx_key s c" for c
    using s(3) [of c] by (cases "ctxs s c"; cases "ctxs s' c") (auto simp: ctx_key_def)
  moreover have k: "buff_key s' b = buff_key s b" "map_option (\<lambda>bf. (buff_dev bf, binded_slot bf)) (buffs s' b) =
      map_option (\<lambda>bf. (buff_dev bf, binded_slot bf)) (buffs s b)" for b
    using b [of b] by (cases "buffs s b"; cases "buffs s' b"; simp add: slot_view_def buff_key_def)+
  ultimately have "task_linked d s' tp = task_linked d s tp" for tp
    by (intro task_linked_cong) (simp_all add: s fun_eq_iff)
  moreover have "slots_ok d s' = slots_ok d s"
    by (rule slots_ok_cong [OF _ d dv(1,2) k(2)]) (use inv in \<open>simp add: base_inv_def\<close>)
  moreover have "counted d s' l = counted d s l" by (rule counted_cong) (simp_all add: s)
  ultimately show ?thesis using inv d dv by (simp add: base_inv_def)
qed

lemma base_inv_dev:
  assumes "base_inv E d dv s l" "buff_slots dv' = buff_slots dv" "free_slots dv' = free_slots dv"
    "\<not> slock dv'" "\<not> feed_lock dv'" "\<not> dev_failed dv'"
  shows "base_inv E d dv' (s\<lparr>devs := (devs s)(d \<mapsto> dv')\<rparr>) l"
  by (rule base_inv_frame [OF assms(1)]) (simp_all add: assms task_key_def [abs_def] slot_view_def)

lemma task_sound_devs [simp]: "task_sound (s\<lparr>devs := f\<rparr>) tp = task_sound s tp"
  by (rule task_sound_cong) (simp_all add: buff_key_def [abs_def])

lemma dev_inv_dev:
  assumes "dev_inv E w dv s" "buff_slots dv' = buff_slots dv" "free_slots dv' = free_slots dv" "slock dv' = slock dv"
    "feed_lock dv' = feed_lock dv" "dev_failed dv' = dev_failed dv" "pending_tasks dv' = pending_tasks dv"
    "running_task dv' = running_task dv" "fence_state dv' = fence_state dv"
  shows "dev_inv E w dv' (s\<lparr>devs := (devs s)(wt_dev w \<mapsto> dv')\<rparr>)"
proof -
  have "base_inv E (wt_dev w) dv' (s\<lparr>devs := (devs s)(wt_dev w \<mapsto> dv')\<rparr>) (live w dv)"
    by (rule base_inv_dev [where dv = dv]) (use assms(1-6) in \<open>auto simp: dev_inv_def base_inv_def\<close>)
  then show ?thesis using assms by (simp add: dev_inv_def live_def)
qed

lemma dev_inv_next:
  assumes "dev_inv E w dv s" "next_task w = None" "pending_tasks dv = tp # tps"
  shows "dev_inv E (w\<lparr>next_task := Some tp\<rparr>) (dv\<lparr>pending_tasks := tps\<rparr>)
    (s\<lparr>devs := (devs s)(wt_dev w \<mapsto> dv\<lparr>pending_tasks := tps\<rparr>)\<rparr>)"
proof -
  have l: "live (w\<lparr>next_task := Some tp\<rparr>) (dv\<lparr>pending_tasks := tps\<rparr>) = live w dv"
    using assms by (simp add: live_def)
  have "base_inv E (wt_dev w) (dv\<lparr>pending_tasks := tps\<rparr>)
      (s\<lparr>devs := (devs s)(wt_dev w \<mapsto> dv\<lparr>pending_tasks := tps\<rparr>)\<rparr>) (live w dv)"
    by (rule base_inv_dev [where dv = dv]) (use assms(1) in \<open>auto simp: dev_inv_def base_inv_def\<close>)
  then show ?thesis using assms by (auto simp: dev_inv_def l)
qed


text \<open>What the thread leaves alone.\<close>

definition buff_ids :: "kstate \<Rightarrow> ptr \<Rightarrow> (ptr \<times> ptr \<times> ptr \<times> ptr \<times> bool) option" where
  "buff_ids s b = map_option (\<lambda>bf. (buff_pt bf, buff_dev bf, buff_ctx bf, buff_file bf, destroyed bf)) (buffs s b)"

definition ctx_ids :: "kstate \<Rightarrow> ptr \<Rightarrow> (ptr \<times> ptr list) option" where
  "ctx_ids s c = map_option (\<lambda>cx. (ctx_dev cx, allocated_buffers cx)) (ctxs s c)"

definition same_rest :: "kstate \<Rightarrow> kstate \<Rightarrow> bool" where
  "same_rest s s' \<longleftrightarrow> cmds s' = cmds s \<and> pts s' = pts s \<and> mem s' = mem s \<and> files s' = files s \<and> fds s' = fds s \<and>
     buff_ids s' = buff_ids s \<and> ctx_ids s' = ctx_ids s"

lemma same_ids:
  "buff_ids s' = buff_ids s \<Longrightarrow> buff_key s' = buff_key s"
  "ctx_ids s' = ctx_ids s \<Longrightarrow> ctx_key s' = ctx_key s"
proof -
  have b: "buff_key s b = map_option (\<lambda>(p, d, _). (p, d)) (buff_ids s b)" for s b
    by (simp add: buff_key_def buff_ids_def option.map_comp comp_def)
  have c: "ctx_key s c = map_option fst (ctx_ids s c)" for s c
    by (simp add: ctx_key_def ctx_ids_def option.map_comp comp_def)
  show "buff_ids s' = buff_ids s \<Longrightarrow> buff_key s' = buff_key s" "ctx_ids s' = ctx_ids s \<Longrightarrow> ctx_key s' = ctx_key s"
    by (simp_all add: fun_eq_iff b c)
qed

lemma same_restD:
  assumes "same_rest s s'"
  shows "cmds s' = cmds s" "pts s' = pts s" "mem s' = mem s" "buff_key s' = buff_key s" "ctx_key s' = ctx_key s"
  using assms same_ids [of s' s] by (simp_all add: same_rest_def)

lemma same_rest_trans: "same_rest s s' \<Longrightarrow> same_rest s' s'' \<Longrightarrow> same_rest s s''"
  by (simp add: same_rest_def)

lemma same_rest_devs [simp]: "same_rest s (s'\<lparr>devs := f\<rparr>) = same_rest s s'" "same_rest (s\<lparr>devs := f\<rparr>) s' = same_rest s s'"
  by (simp_all add: same_rest_def buff_ids_def [abs_def] ctx_ids_def [abs_def])

lemma same_rest_refl [simp]: "same_rest s s"
  by (simp add: same_rest_def)

definition same_queue :: "dicedev_device \<Rightarrow> dicedev_device \<Rightarrow> bool" where
  "same_queue dv dv' \<longleftrightarrow> pending_tasks dv' = pending_tasks dv \<and> running_task dv' = running_task dv \<and>
     fence_state dv' = fence_state dv \<and> wt_thread dv' = wt_thread dv"

lemma tasks_of_remove:
  assumes "distinct l" "tasks s' = (tasks s)(tp := None)" "task_key s tp = Some (c0, b)"
  shows "tasks_of s' c (remove1 tp l) = (if c = c0 then remove1 tp (tasks_of s c l) else tasks_of s c l)"
  using assms(1)
proof (induction l)
  case (Cons x l)
  have k: "task_key s' y = task_key s y" if "y \<noteq> tp" for y using that assms(2) by (simp add: task_key_def)
  show ?case
  proof (cases "x = tp")
    case True
    have "tasks_of s' c l = tasks_of s c l"
      unfolding tasks_of_def by (rule filter_cong [OF refl]) (use Cons.prems True k in \<open>metis distinct.simps(2)\<close>)
    then show ?thesis using True assms(3) Cons.prems by (auto simp: tasks_of_def)
  next
    case False
    then show ?thesis using Cons k by (auto simp: tasks_of_def)
  qed
qed (simp add: tasks_of_def)

lemma destroy_counted:
  assumes "counted d s l" "distinct l" "tp \<in> set l" "tasks s tp = Some t" "ctxs s (t_ctx t) = Some cx" "ctx_dev cx = d"
    "tasks s' = (tasks s)(tp := None)" "ctxs s' = (ctxs s)(t_ctx t \<mapsto> cx\<lparr>task_count := task_count cx - 1, wq := q\<rparr>)"
  shows "counted d s' (remove1 tp l)"
  unfolding counted_def
proof (intro allI impI)
  fix c cx' assume c: "ctxs s' c = Some cx' \<and> ctx_dev cx' = d"
  have r: "tasks_of s' c (remove1 tp l) = (if c = t_ctx t then remove1 tp (tasks_of s c l) else tasks_of s c l)"
    by (rule tasks_of_remove [where b = "t_buff_out t"]) (use assms in \<open>simp_all add: task_key_def\<close>)
  show "task_count cx' = of_nat (length (tasks_of s' c (remove1 tp l)))"
  proof (cases "c = t_ctx t")
    case True
    have m: "tp \<in> set (tasks_of s c l)" using True assms(3,4) by (simp add: tasks_of_def task_key_def)
    then have "length (tasks_of s c l) = Suc (length (tasks_of s c l) - 1)" by (cases "tasks_of s c l") auto
    moreover have "task_count cx = of_nat (length (tasks_of s c l))" using assms(1,5,6) True by (simp add: counted_def)
    ultimately have "task_count cx - 1 = of_nat (length (tasks_of s c l) - 1)" by (metis add_diff_cancel_left' of_nat_Suc)
    then show ?thesis using True c assms(8) r m by (auto simp: length_remove1)
  next
    case False
    then show ?thesis using c assms(1,8) r by (simp add: counted_def)
  qed
qed

lemma destroy_base:
  assumes inv: "base_inv E d dv s l" and tp: "tp \<in> set l"
  shows "\<exists>s' dv'. task_destroy E tp s = Inr s' \<and> base_inv E d dv' s' (remove1 tp l) \<and> same_queue dv dv' \<and>
    same_rest s s' \<and> tasks s' = (tasks s)(tp := None)"
proof -
  have "task_linked d s tp" using inv tp by (simp add: base_inv_def)
  then obtain t cx bf where t: "tasks s tp = Some t" "ctxs s (t_ctx t) = Some cx" "ctx_dev cx = d"
      "buffs s (t_buff_out t) = Some bf" "buff_dev bf = d"
    by (rule task_linkedE) blast
  have b: "drains E" "devs s d = Some dv" "slots_ok d s" "\<not> slock dv" "\<not> feed_lock dv" "\<not> dev_failed dv"
      "distinct l" "counted d s l" "\<forall>tp \<in> set l. task_linked d s tp"
    using inv by (simp_all add: base_inv_def)
  note run = task_destroy_run [OF b(1) t(1,2) b(2) t(3) b(4,5) t(4,5) b(3)]
  define s' where "s' = projr (task_destroy E tp s)"
  define dv' where "dv' = (if gives_up_slot t cx bf then dev_unbound E bf dv else dv)"
  have eq: "task_destroy E tp s = Inr s'" by (simp add: s'_def run)
  have rest: "same_rest s s'" and ts: "tasks s' = (tasks s)(tp := None)"
    using t by (auto simp: same_rest_def s'_def run buff_ids_def ctx_ids_def add_results_def buff_unbound_def fun_eq_iff)
  have cx: "ctxs s' = (ctxs s)(t_ctx t \<mapsto> cx\<lparr>task_count := task_count cx - 1, wq := Suc (wq cx)\<rparr>)"
    and dv: "devs s' d = Some dv'" by (simp_all add: s'_def run dv'_def)
  have ok: "slots_ok d s'"
  proof (cases "gives_up_slot t cx bf")
    case False
    then have "slots_ok d s' = slots_ok d s"
      using t by (intro slots_ok_cong [OF b(2) dv]) (auto simp: dv'_def s'_def run add_results_def)
    then show ?thesis using b(3) by simp
  next
    case True
    then obtain i where i: "binded_slot bf = int i"
      using bound_slot_int [OF b(3) t(4,5)] by (auto simp: gives_up_slot_def)
    let ?s = "s\<lparr>devs := (devs s)(d \<mapsto> dv'), buffs := (buffs s)(t_buff_out t \<mapsto> buff_unbound bf)\<rparr>"
    have "slots_ok d ?s"
      using slots_ok_unbind [OF b(3,2) t(4,5) i] i True by (simp add: dv'_def dev_unbound_def buff_unbound_def)
    moreover have "slots_ok d s' = slots_ok d ?s"
      using t dv True by (intro slots_ok_cong [of ?s d dv' s' dv']) (auto simp: s'_def run add_results_def)
    ultimately show ?thesis by simp
  qed
  have "counted d s' (remove1 tp l)" by (rule destroy_counted [OF b(8,7) tp t(1-3) ts cx])
  moreover have "task_linked d s' x" if "x \<in> set (remove1 tp l)" for x
  proof -
    have "x \<noteq> tp" "x \<in> set l" using that b(7) by auto
    then show ?thesis using task_linked_cong [of s' x s d] same_restD [OF rest] ts b(9) by (simp add: task_key_def)
  qed
  moreover have "\<not> slock dv'" "\<not> feed_lock dv'" "\<not> dev_failed dv'" "same_queue dv dv'"
    using b by (simp_all add: dv'_def dev_unbound_def same_queue_def)
  ultimately show ?thesis using eq rest ts ok b dv by (intro exI [of _ s'] exI [of _ dv']) (simp add: base_inv_def)
qed


text \<open>Binding the slot, and starting a task.\<close>

lemma bind_base:
  assumes inv: "base_inv E d dv s l" and b: "buffs s b = Some bf" "buff_dev bf = d" "pts s (buff_pt bf) = Some pt"
    "binded_slot bf = -1" and f: "0 < free_slots dv"
  shows "\<exists>s1 s' dv'. bind_free_slot E d b (s\<lparr>devs := (devs s)(d \<mapsto> dv\<lparr>slock := True\<rparr>)\<rparr>) = Inr s1 \<and>
    bindR (dicedev_buffer_init_reader b s1) (spin_unlock_irqrestore d) = Inr s' \<and>
    base_inv E d dv' s' l \<and> same_queue dv dv' \<and> same_rest s s' \<and> tasks s' = tasks s \<and>
    (\<exists>bf'. buffs s' b = Some bf' \<and> binded_slot bf' \<noteq> -1)"
proof -
  have i: "drains E" "devs s d = Some dv" "slots_ok d s" "\<not> slock dv" "\<not> feed_lock dv" "\<not> dev_failed dv"
    using inv by (simp_all add: base_inv_def)
  let ?s = "s\<lparr>devs := (devs s)(d \<mapsto> dv\<lparr>slock := True\<rparr>)\<rparr>"
  have ok: "slots_ok d ?s" using i(2,3) slots_ok_cong [of s d dv ?s "dv\<lparr>slock := True\<rparr>"] by simp
  let ?dv = "dv\<lparr>slock := True\<rparr>"
  have i': "devs ?s d = Some ?dv" "\<not> feed_lock ?dv" "0 < free_slots ?dv" using i f by simp_all
  obtain k where len: "k < length (buff_slots ?dv)" "buff_slots ?dv ! k = None"
    and run: "bind_free_slot E d b ?s = bind_slot E d b (int k) ?s"
    using bind_free_slot_least [OF ok i'(1,3)] by metis
  have b': "buffs ?s b = Some bf" "pts ?s (buff_pt bf) = Some pt" using b by simp_all
  define bf' where "bf' = bf\<lparr>binded_slot := int k, usage_count := 1, reader := \<lparr>reader_result_count = 0, reader_offset = 0\<rparr>\<rparr>"
  obtain h where h: "bind_free_slot E d b ?s = Inr (s\<lparr>devs := (devs s)(d \<mapsto> dv\<lparr>slock := True,
      free_slots := free_slots dv - 1, buff_slots := (buff_slots dv)[k := Some b], bar := h\<rparr>),
      buffs := (buffs s)(b \<mapsto> bf\<lparr>binded_slot := int k, usage_count := 1\<rparr>)\<rparr>)" (is "_ = Inr ?s1")
    using bind_slot_run [OF i(1) i'(1,2) b' len] by (simp add: run)
  define dv' where "dv' = dv\<lparr>free_slots := free_slots dv - 1, buff_slots := (buff_slots dv)[k := Some b], bar := h\<rparr>"
  define s' where "s' = s\<lparr>devs := (devs s)(d \<mapsto> dv'), buffs := (buffs s)(b \<mapsto> bf')\<rparr>"
  have "slots_ok d (s\<lparr>devs := (devs s)(d \<mapsto> dv'), buffs := (buffs s)(b \<mapsto> bf\<lparr>binded_slot := int k, usage_count := 1\<rparr>)\<rparr>)" (is "slots_ok d ?s2")
    using slots_ok_bind [OF i(3,2) b(1,2,4), of k 1 h] len by (simp add: dv'_def)
  moreover have "slots_ok d s' = slots_ok d ?s2"
    by (rule slots_ok_cong [of ?s2 d dv' s' dv']) (auto simp: s'_def bf'_def)
  ultimately have ok': "slots_ok d s'" by simp
  have rest: "same_rest s s'" "tasks s' = tasks s"
    using b by (auto simp: same_rest_def s'_def buff_ids_def ctx_ids_def bf'_def fun_eq_iff)
  have tk: "task_key s' = task_key s" using rest(2) by (simp add: fun_eq_iff task_key_def)
  have "task_linked d s' tp = task_linked d s tp" for tp
    by (rule task_linked_cong) (use same_restD [OF rest(1)] tk in simp_all)
  moreover have "counted d s' l = counted d s l" by (rule counted_cong [OF tk]) (simp add: s'_def)
  moreover have "devs s' d = Some dv'" "\<not> slock dv'" "\<not> feed_lock dv'" "\<not> dev_failed dv'" "same_queue dv dv'"
    using i by (simp_all add: dv'_def s'_def same_queue_def)
  ultimately have inv': "base_inv E d dv' s' l" using inv ok' by (simp add: base_inv_def)
  moreover have "bindR (dicedev_buffer_init_reader b ?s1) (spin_unlock_irqrestore d) = Inr s'"
    using i(4) by (cases s; cases dv) (simp add: dicedev_buffer_init_reader_def s'_def dv'_def bf'_def del: bindR_eq_Inr)
  moreover have "\<exists>bf'. buffs s' b = Some bf' \<and> binded_slot bf' \<noteq> -1" by (simp add: s'_def bf'_def)
  ultimately show ?thesis using h rest \<open>same_queue dv dv'\<close> by blast
qed


lemma run_base:
  assumes inv: "base_inv E d dv s l" and tp: "tp \<in> set l" "task_sound s tp"
    and t: "tasks s tp = Some t" "buffs s (t_buff_out t) = Some bf" "binded_slot bf \<noteq> -1"
    and w: "wt_dev w = d" "next_task w = Some tp"
  shows "wt_handle E WT_EVENT_TASK_RUN w s = Inl OOB \<or>
    (\<exists>s' dv'. wt_handle E WT_EVENT_TASK_RUN w s = Inr (w\<lparr>next_task := None\<rparr>, s') \<and> base_inv E d dv' s' l \<and>
      pending_tasks dv' = pending_tasks dv \<and> running_task dv' = Some tp \<and> fence_state dv' = DICEDEV_FENCE_STATE_WAITING \<and>
      wt_thread dv' = wt_thread dv \<and> same_rest s s' \<and> task_key s' = task_key s \<and> (\<forall>x. x \<noteq> tp \<longrightarrow> tasks s' x = tasks s x))"
proof -
  have "task_linked d s tp" using inv tp by (simp add: base_inv_def)
  then obtain cx where c: "ctxs s (t_ctx t) = Some cx" "ctx_dev cx = d" using t(1) by (auto elim: task_linkedE)
  have i: "drains E" "devs s d = Some dv" "\<not> slock dv" "\<not> feed_lock dv" "\<not> dev_failed dv"
    using inv by (simp_all add: base_inv_def)
  let ?dv = "dv\<lparr>fence_state := DICEDEV_FENCE_STATE_WAITING\<rparr>"
  let ?s = "s\<lparr>devs := (devs s)(d \<mapsto> ?dv)\<rparr>"
  have "body_sound ?s (t_body t)"
    using tp(2) t(1) same_sound(2) [of ?s s] by (simp add: task_sound_def buff_key_def [abs_def])
  moreover have "tasks ?s tp = Some t" "ctxs ?s (t_ctx t) = Some cx" "devs ?s (ctx_dev cx) = Some ?dv" "\<not> feed_lock ?dv"
      "buffs ?s (t_buff_out t) = Some bf"
    using t c i by simp_all
  ultimately consider "wt_run_task E tp ?s = Inl OOB"
    | out n f body where "wt_run_task E tp ?s = Inr (after_words E tp (t_ctx t) d (marked_running tp cx ?dv ?s) out n f body)"
    using wt_run_task_total [of ?s tp t cx ?dv bf E] t(3) i(1) c(2) by metis
  then show ?thesis
  proof cases
    case 1
    then show ?thesis using i w by (simp add: wt_handle_def)
  next
    case 2
    define s1 where "s1 = after_words E tp (t_ctx t) d (marked_running tp cx ?dv ?s) out n f body"
    define dv1 where "dv1 = dv\<lparr>fence_state := DICEDEV_FENCE_STATE_WAITING, running_task := Some tp, bar := fed_hist E out (bar dv)\<rparr>"
    have s1: "devs s1 = (devs s)(d \<mapsto> dv1)" "buffs s1 = buffs s" "pts s1 = pts s" "mem s1 = mem s" "cmds s1 = cmds s"
        "files s1 = files s" "fds s1 = fds s"
        "ctxs s1 = (ctxs s)(t_ctx t \<mapsto> cx\<lparr>ctx_failed := f \<or> ctx_failed cx\<rparr>)"
        "tasks s1 = (tasks s)(tp \<mapsto> t\<lparr>t_result_count := t_result_count t + n, t_body := body\<rparr>)"
      using t c by (simp_all add: s1_def dv1_def after_words_def marked_running_def)
    define h where "h = fed_hist E [DICEDEV_USER_CMD_FENCE_HEADER DICEDEV_TASK_FENCE_VAL]
      (bar dv1 @ [IoWrite DICEDEV_CMD_FENCE_WAIT DICEDEV_TASK_FENCE_VAL])"
    define dv' where "dv' = dv1\<lparr>bar := h\<rparr>"
    define s' where "s' = s1\<lparr>devs := (devs s)(d \<mapsto> dv')\<rparr>"
    have dv1: "\<not> slock dv1" "\<not> feed_lock dv1" "dv'\<lparr>slock := False\<rparr> = dv'" using i by (simp_all add: dv1_def dv'_def)
    have "wt_handle E WT_EVENT_TASK_RUN w s = Inr (w\<lparr>next_task := None\<rparr>, s')"
      using i w 2 dv1 by (simp add: wt_handle_def s1_def [symmetric] s1(1) del: bindR_eq_Inr)
        (simp add: s'_def dv'_def h_def)
    moreover have tk: "task_key s' = task_key s" using t by (simp add: fun_eq_iff task_key_def s'_def s1)
    moreover have "base_inv E d dv' s' l"
      by (rule base_inv_frame [OF inv])
        (use tk c i in \<open>auto simp: s'_def s1 dv'_def dv1_def slot_view_def\<close>)
    moreover have "same_rest s s'"
      using c by (auto simp: same_rest_def s'_def s1 buff_ids_def ctx_ids_def fun_eq_iff)
    ultimately show ?thesis by (intro disjI2 exI [of _ s'] exI [of _ dv']) (simp add: dv'_def dv1_def s'_def s1)
  qed
qed


lemma task_sound_rest:
  "same_rest s s' \<Longrightarrow> tasks s' x = tasks s x \<Longrightarrow> task_sound s' x = task_sound s x"
  by (rule task_sound_cong) (simp_all add: same_restD)

text \<open>
  The abstract queue: nothing happens, the task at its head is served, or a task of a failed
  context is dropped.
\<close>

inductive fifo_step :: "(ptr \<Rightarrow> bool) \<Rightarrow> ptr list \<Rightarrow> ptr list \<Rightarrow> bool" for failed where
  stay: "fifo_step failed q q"
| serve: "fifo_step failed (tp # q) q"
| skip: "failed tp \<Longrightarrow> fifo_step failed (q @ tp # q') (q @ q')"

definition task_failed :: "kstate \<Rightarrow> ptr \<Rightarrow> bool" where
  "task_failed s tp \<longleftrightarrow> (\<exists>t cx. tasks s tp = Some t \<and> ctxs s (t_ctx t) = Some cx \<and> ctx_failed cx)"

lemma task_key_dom:
  assumes "task_key s' = task_key s"
  shows "dom (tasks s') = dom (tasks s)"
proof -
  have "dom (task_key s) = dom (tasks s)" for s by (auto simp: task_key_def dom_def)
  then show ?thesis using assms by metis
qed

text \<open>The tasks that wait stay as they are, and the rest of the kernel state too.\<close>

definition waiting :: "wt_state \<Rightarrow> dicedev_device \<Rightarrow> ptr list" where
  "waiting w dv = opt_list (next_task w) @ pending_tasks dv"

definition waiting_kept :: "wt_state \<Rightarrow> dicedev_device \<Rightarrow> kstate \<Rightarrow> wt_state \<Rightarrow> dicedev_device \<Rightarrow> kstate \<Rightarrow> bool" where
  "waiting_kept w dv s w' dv' s' \<longleftrightarrow> same_rest s s' \<and> set (waiting w' dv') \<subseteq> set (waiting w dv) \<and>
     dom (tasks s') \<subseteq> dom (tasks s) \<and> (\<forall>x \<in> set (waiting w' dv'). tasks s' x = tasks s x) \<and> (\<forall>x \<in> set (live w' dv'). task_key s' x = task_key s x)"

lemma fifo_step_subset: "fifo_step f q q' \<Longrightarrow> set q' \<subseteq> set q"
  by (induction rule: fifo_step.induct) auto

definition step_ok :: "env \<Rightarrow> wt_state \<Rightarrow> dicedev_device \<Rightarrow> kstate \<Rightarrow> (wt_state \<times> kstate) result \<Rightarrow> bool" where
  "step_ok E w dv s r \<longleftrightarrow> r = Inl OOB \<or> (\<exists>w' s' dv'. r = Inr (w', s') \<and> wt_dev w' = wt_dev w \<and>
     dev_inv E w' dv' s' \<and> fifo_step (task_failed s) (live w dv) (live w' dv') \<and> waiting_kept w dv s w' dv' s')"

lemma step_okI:
  assumes "r = Inr (w', s')" "wt_dev w' = wt_dev w" "dev_inv E w' dv' s'" "fifo_step (task_failed s) (live w dv) (live w' dv')"
    "waiting_kept w dv s w' dv' s'"
  shows "step_ok E w dv s r"
  using assms unfolding step_ok_def by blast

lemma step_ok_stay:
  assumes "r = Inr (w', s')" "dev_inv E w' dv' s'" "live w' dv' = live w dv" "wt_dev w' = wt_dev w"
    "waiting_kept w dv s w' dv' s'"
  shows "step_ok E w dv s r"
  by (rule step_okI [OF assms(1,4,2)]) (simp_all add: assms(3,5) fifo_step.stay)

lemma finish_ok:
  assumes inv: "dev_inv E w dv s" and r: "running_task dv = Some tp"
  shows "step_ok E w dv s (wt_handle E WT_EVENT_TASK_FINISH w s)"
proof -
  let ?d = "wt_dev w" and ?l = "opt_list (next_task w) @ pending_tasks dv"
  have l: "live w dv = tp # ?l" using r by (simp add: live_def)
  have b: "base_inv E ?d dv s (tp # ?l)" and d: "devs s ?d = Some dv"
    and snd: "\<forall>x \<in> set_option (next_task w) \<union> set (pending_tasks dv). task_sound s x"
    using inv by (simp_all add: dev_inv_def l base_inv_def)
  obtain s1 dv1 where s1: "task_destroy E tp s = Inr s1" "base_inv E ?d dv1 s1 ?l" "same_queue dv dv1"
      "same_rest s s1" "tasks s1 = (tasks s)(tp := None)"
    using destroy_base [OF b, of tp] by auto
  define dv' where "dv' = dv1\<lparr>fence_state := DICEDEV_FENCE_STATE_NONE, running_task := None\<rparr>"
  define s' where "s' = s1\<lparr>devs := (devs s1)(?d \<mapsto> dv')\<rparr>"
  have d1: "devs s1 ?d = Some dv1" "\<not> dev_failed dv1" using s1(2) by (simp_all add: base_inv_def)
  have "wt_handle E WT_EVENT_TASK_FINISH w s = Inr (w, s')"
    using d d1 r s1(1) by (simp add: wt_handle_def s'_def dv'_def del: bindR_eq_Inr)
  moreover have l': "live w dv' = ?l" using s1(3) by (simp add: live_def dv'_def same_queue_def)
  moreover have "base_inv E ?d dv' s' ?l"
    unfolding s'_def by (rule base_inv_dev [OF s1(2)]) (use s1(2) in \<open>auto simp: dv'_def base_inv_def\<close>)
  moreover have "task_sound s' x" if "x \<in> set ?l" for x
  proof -
    have "x \<noteq> tp" using b that by (auto simp: base_inv_def)
    then show ?thesis using that snd s1 task_sound_rest [of s s1 x] by (auto simp: s'_def)
  qed
  moreover have "pending_tasks dv' = pending_tasks dv" using s1(3) by (simp add: dv'_def same_queue_def)
  ultimately have inv': "dev_inv E w dv' s'" by (auto simp: dev_inv_def) (simp_all add: dv'_def)
  have "tp \<notin> set ?l" using b by (simp add: base_inv_def)
  then have keep: "waiting_kept w dv s w dv' s'"
    using s1(3-5) by (auto simp: waiting_kept_def waiting_def live_def task_key_def s'_def same_queue_def dv'_def)
  show ?thesis
    by (rule step_okI [OF \<open>wt_handle E WT_EVENT_TASK_FINISH w s = Inr (w, s')\<close> refl inv' _ keep])
      (simp add: l l' fifo_step.serve)
qed

lemma next_ok:
  assumes inv: "dev_inv E w dv s" and n: "next_task w = None" "pending_tasks dv = tp # tps"
  shows "step_ok E w dv s (wt_handle E WT_EVENT_TASK_GET_NEXT w s)"
proof -
  let ?d = "wt_dev w" and ?dv = "dv\<lparr>pending_tasks := tps\<rparr>"
  let ?s = "s\<lparr>devs := (devs s)(wt_dev w \<mapsto> ?dv)\<rparr>" and ?r = "opt_list (running_task dv)"
  have l: "live w dv = ?r @ tp # tps" using n by (simp add: live_def)
  have b: "base_inv E ?d dv s (?r @ tp # tps)" and d: "devs s ?d = Some dv" "\<not> slock dv"
    using inv by (simp_all add: dev_inv_def l base_inv_def)
  have "task_linked ?d s tp" using b by (simp add: base_inv_def)
  then obtain t cx where t: "tasks s tp = Some t" "ctxs s (t_ctx t) = Some cx" by (rule task_linkedE) blast
  note take = take_next_run [OF d n(2)]
  show ?thesis
  proof (cases "ctx_failed cx")
    case False
    then have eq: "wt_handle E WT_EVENT_TASK_GET_NEXT w s = Inr (w\<lparr>next_task := Some tp\<rparr>, ?s)"
      using t by (simp add: wt_handle_def take del: bindR_eq_Inr)
    show ?thesis using n by (intro step_ok_stay [OF eq dev_inv_next [OF inv n]])
      (simp_all add: live_def waiting_kept_def waiting_def task_key_def)
  next
    case True
    have "base_inv E ?d ?dv ?s (?r @ tp # tps)"
      by (rule base_inv_dev [OF b]) (use b in \<open>auto simp: base_inv_def\<close>)
    then obtain s1 dv1 where s1: "task_destroy E tp ?s = Inr s1" "base_inv E ?d dv1 s1 (remove1 tp (?r @ tp # tps))"
        "same_queue ?dv dv1" "same_rest ?s s1" "tasks s1 = (tasks s)(tp := None)"
      using destroy_base [of E ?d ?dv ?s "?r @ tp # tps" tp] by auto
    have tp: "tp \<notin> set ?r" "tp \<notin> set tps" using b by (auto simp: base_inv_def)
    have l1: "live w dv1 = ?r @ tps" using s1(3) n by (simp add: live_def same_queue_def)
    have "task_sound s1 x" if "x \<in> set tps" for x
    proof -
      have "task_sound s x" using inv that n by (auto simp: dev_inv_def)
      moreover have "x \<noteq> tp" using that tp by auto
      ultimately show ?thesis using s1(5) task_sound_rest [OF s1(4), of x] by simp
    qed
    then have inv1: "dev_inv E w dv1 s1" using inv s1 tp n by (auto simp: dev_inv_def l1 remove1_append same_queue_def)
    have eq: "wt_handle E WT_EVENT_TASK_GET_NEXT w s = Inr (w, s1)"
      using t True s1(1) by (simp add: wt_handle_def take del: bindR_eq_Inr)
    have "task_failed s tp" using t True by (auto simp: task_failed_def)
    moreover have "waiting_kept w dv s w dv1 s1"
      using s1(3-5) n tp by (auto simp: waiting_kept_def waiting_def l1 task_key_def same_queue_def)
    ultimately show ?thesis using l l1 by (intro step_okI [OF eq refl inv1]) (simp_all add: fifo_step.skip)
  qed
qed


lemma bind_ok:
  assumes inv: "dev_inv E w dv s" and n: "next_task w = Some tp" and t: "tasks s tp = Some t"
    "buffs s (t_buff_out t) = Some bf" "binded_slot bf = -1" "0 < free_slots dv"
  shows "step_ok E w dv s (wt_handle E WT_EVENT_TASK_BIND_SLOT w s)"
proof -
  let ?d = "wt_dev w"
  have b: "base_inv E ?d dv s (live w dv)" and d: "devs s ?d = Some dv" "\<not> slock dv"
    using inv by (simp_all add: dev_inv_def base_inv_def)
  have "task_linked ?d s tp" using b n by (simp add: base_inv_def live_def)
  then obtain pt where bf: "buff_dev bf = ?d" "pts s (buff_pt bf) = Some pt"
    using t(1,2) by (auto elim: task_linkedE)
  obtain s1 s' dv' where s1: "bind_free_slot E ?d (t_buff_out t) (s\<lparr>devs := (devs s)(?d \<mapsto> dv\<lparr>slock := True\<rparr>)\<rparr>) = Inr s1"
      "bindR (dicedev_buffer_init_reader (t_buff_out t) s1) (spin_unlock_irqrestore ?d) = Inr s'"
      "base_inv E ?d dv' s' (live w dv)" "same_queue dv dv'" "same_rest s s'" "tasks s' = tasks s"
    using bind_base [OF b t(2) bf t(3,4)] by blast
  have eq: "wt_handle E WT_EVENT_TASK_BIND_SLOT w s = Inr (w, s')"
    using d n t(1) s1(1,2) by (auto simp: wt_handle_def)
  have l: "live w dv' = live w dv" using s1(4) by (simp add: live_def same_queue_def)
  have "dev_inv E w dv' s'"
    using inv s1 task_sound_rest [OF s1(5)] by (auto simp: dev_inv_def l same_queue_def)
  moreover have "waiting_kept w dv s w dv' s'"
    using s1(4-6) by (simp add: waiting_kept_def waiting_def task_key_def same_queue_def)
  ultimately show ?thesis using l by (intro step_ok_stay [OF eq]) simp_all
qed

lemma run_ok:
  assumes inv: "dev_inv E w dv s" and n: "next_task w = Some tp" "running_task dv = None"
    and t: "tasks s tp = Some t" "buffs s (t_buff_out t) = Some bf" "binded_slot bf \<noteq> -1"
  shows "step_ok E w dv s (wt_handle E WT_EVENT_TASK_RUN w s)"
proof -
  have b: "base_inv E (wt_dev w) dv s (live w dv)" and snd: "task_sound s tp" "\<forall>x \<in> set (pending_tasks dv). task_sound s x"
    using inv n by (simp_all add: dev_inv_def)
  have tp: "tp \<in> set (live w dv)" "tp \<notin> set (pending_tasks dv)" using b n by (auto simp: live_def base_inv_def)
  consider "wt_handle E WT_EVENT_TASK_RUN w s = Inl OOB"
    | s' dv' where "wt_handle E WT_EVENT_TASK_RUN w s = Inr (w\<lparr>next_task := None\<rparr>, s')" "base_inv E (wt_dev w) dv' s' (live w dv)"
      "pending_tasks dv' = pending_tasks dv" "running_task dv' = Some tp" "fence_state dv' = DICEDEV_FENCE_STATE_WAITING"
      "same_rest s s'" "\<forall>x. x \<noteq> tp \<longrightarrow> tasks s' x = tasks s x" "task_key s' = task_key s"
    using run_base [OF b tp(1) snd(1) t refl n(1)] by blast
  then show ?thesis
  proof cases
    case 1
    then show ?thesis by (simp add: step_ok_def)
  next
    case 2
    have l: "live (w\<lparr>next_task := None\<rparr>) dv' = live w dv" using 2 n by (simp add: live_def)
    have "task_sound s' x" if "x \<in> set (pending_tasks dv)" for x
      using that snd(2) tp(2) 2(7) task_sound_rest [OF 2(6), of x] by (metis)
    then have "dev_inv E (w\<lparr>next_task := None\<rparr>) dv' s'" using 2 by (simp add: dev_inv_def l)
    moreover have "waiting_kept w dv s (w\<lparr>next_task := None\<rparr>) dv' s'"
      using 2(3,6-8) tp(2) task_key_dom [OF 2(8)] by (auto simp: waiting_kept_def waiting_def)
    ultimately show ?thesis using l by (intro step_ok_stay [OF 2(1)]) simp_all
  qed
qed

lemma wt_fn_step_ok:
  assumes "dev_inv E w dv s"
  shows "step_ok E w dv s (wt_fn_step E w s)"
  using assms
proof (cases rule: get_eventE)
  case (idle ev)
  then show ?thesis
    using assms by (intro step_ok_stay [of _ w s]) (auto simp: wt_fn_step_def wt_handle_def waiting_kept_def)
next
  case (finish tp)
  then show ?thesis using finish_ok [OF assms] by (simp add: wt_fn_step_def)
next
  case (nxt tp tps)
  then show ?thesis using next_ok [OF assms] by (simp add: wt_fn_step_def)
next
  case (bind tp t bf)
  then show ?thesis using bind_ok [OF assms bind(2,4-7)] by (simp add: wt_fn_step_def)
next
  case (run tp t bf)
  then show ?thesis using run_ok [OF assms run(2-6)] by (simp add: wt_fn_step_def)
qed


section \<open>Stopping the thread\<close>

lemma task_destroy_locked:
  assumes "task_linked d s tp" "devs s d = Some dv" "slock dv"
  shows "task_destroy E tp s = Inl DEADLOCK"
  using assms(1) by (rule task_linkedE) (simp add: task_destroy_def assms(2,3) Let_def)

lemma exit_run:
  assumes "dev_inv E w dv s"
  shows "wt_fn_exit E (wt_dev w) s =
    (if pending_tasks dv = [] \<and> running_task dv = None then Inr s else Inl DEADLOCK)"
proof -
  let ?d = "wt_dev w"
  have d: "devs s ?d = Some dv" "\<not> slock dv" and k: "\<forall>tp \<in> set (live w dv). task_linked ?d s tp"
    using assms by (simp_all add: dev_inv_def base_inv_def)
  have dead: "task_destroy E tp (s\<lparr>devs := (devs s)(?d \<mapsto> dv')\<rparr>) = Inl DEADLOCK"
    if "tp \<in> set (live w dv)" "slock dv'" for tp dv'
  proof (rule task_destroy_locked)
    show "task_linked ?d (s\<lparr>devs := (devs s)(?d \<mapsto> dv')\<rparr>) tp"
      using k that(1) by (simp add: task_linked_def task_key_def ctx_key_def buff_key_def)
  qed (use that in auto)
  show ?thesis
  proof (cases "pending_tasks dv")
    case Nil
    then show ?thesis
      using d dead by (cases "running_task dv") (simp_all add: wt_fn_exit_def live_def del: bindR_eq_Inr)
  next
    case (Cons tp tps)
    then show ?thesis using d dead by (simp add: wt_fn_exit_def live_def)
  qed
qed

section \<open>A sample queue\<close>

definition queued_dev0 :: dicedev_device where
  "queued_dev0 = bound_dev0\<lparr>pending_tasks := [20]\<rparr>"

definition queued0 :: "u32 list \<Rightarrow> kstate" where
  "queued0 ws = (job0 ws)\<lparr>devs := [10 \<mapsto> queued_dev0], ctxs := [12 \<mapsto> ctx0\<lparr>task_count := 1\<rparr>]\<rparr>"

definition w0 :: wt_state where
  "w0 = \<lparr>wt_dev = 10, next_task = None\<rparr>"

lemma dev_inv_queued0:
  assumes "length ws < 2 ^ 62"
  shows "dev_inv env0 w0 queued_dev0 (queued0 ws)"
proof -
  have l: "live w0 queued_dev0 = [20]" by (simp add: live_def w0_def queued_dev0_def bound_dev0_def)
  have s: "devs (queued0 ws) 10 = Some queued_dev0" "tasks (queued0 ws) = [20 \<mapsto> task0 ws]" "cmds (queued0 ws) = [21 \<mapsto> ws]"
    "ctxs (queued0 ws) = [12 \<mapsto> ctx0\<lparr>task_count := 1\<rparr>]" "buffs (queued0 ws) = [11 \<mapsto> bound_buff0]" "pts (queued0 ws) = [13 \<mapsto> table0]"
    by (simp_all add: queued0_def job0_def bound0_def state0_def)
  have "slots_ok 10 bound0" using slot_inv_bound0 by (simp add: slot_inv_def)
  then have "slots_ok 10 (queued0 ws)"
    using slots_ok_cong [of bound0 10 bound_dev0 "queued0 ws" queued_dev0] by (simp add: s queued_dev0_def) (simp add: bound0_def)
  moreover have "task_linked 10 (queued0 ws) 20"
    by (simp add: task_linked_def task_key_def ctx_key_def buff_key_def s task0_def bound_buff0_def)
  moreover have "counted 10 (queued0 ws) [20]"
    by (auto simp: counted_def tasks_of_def task_key_def s split: if_splits)
  moreover have "task_sound (queued0 ws) 20"
    using assms by (simp add: task_sound_def s task0_def)
  ultimately show ?thesis by (simp add: dev_inv_def base_inv_def l s)
    (simp add: w0_def queued_dev0_def bound_dev0_def s)
qed

section \<open>Properties\<close>

text \<open>
  C23. In a consistent state an iteration of the worker thread never meets a failed assertion,
  a bad pointer, a deadlock or an endless wait. It either reads out of bounds while executing
  user commands, or ends in a consistent state again, where each context's task count is the
  number of its live tasks and the slot table matches the buffers. The live tasks change as a
  first-in-first-out queue: at most the task at the head is served, and only tasks of failed
  contexts are dropped.
\<close>

theorem worker_step_keeps_invariant:
  assumes "dev_inv E w dv s"
  shows "wt_fn_step E w s = Inl OOB \<or> (\<exists>w' s' dv'. wt_fn_step E w s = Inr (w', s') \<and> wt_dev w' = wt_dev w \<and>
    dev_inv E w' dv' s' \<and> fifo_step (task_failed s) (live w dv) (live w' dv'))"
  using wt_fn_step_ok [OF assms] unfolding step_ok_def by blast

theorem worker_step_keeps_invariant_witness:
  "\<exists>w' s' dv'. wt_fn_step env0 w0 (queued0 [4]) = Inr (w', s') \<and> dev_inv env0 w' dv' s'"
proof -
  have inv: "dev_inv env0 w0 queued_dev0 (queued0 [4])" by (rule dev_inv_queued0) simp
  have "wt_get_event w0 (queued0 [4]) = Inr (WT_EVENT_TASK_GET_NEXT, queued0 [4])"
    by (simp add: wt_get_event_def w0_def queued0_def queued_dev0_def bound_dev0_def dev0_def)
  then have "wt_fn_step env0 w0 (queued0 [4]) \<noteq> Inl OOB"
    by (simp add: wt_fn_step_def wt_handle_def wt_take_next_def w0_def queued0_def queued_dev0_def bound_dev0_def job0_def)
  then show ?thesis using worker_step_keeps_invariant [OF inv] by blast
qed

text \<open>
  C24. Stopping the thread while a task is pending or running never returns: the clean-up takes
  the device lock and then destroys the task, which takes the same lock. With no such task it
  returns and changes nothing.
\<close>

theorem worker_stop_deadlocks:
  assumes "dev_inv E w dv s"
  shows "wt_fn_exit E (wt_dev w) s =
    (if pending_tasks dv = [] \<and> running_task dv = None then Inr s else Inl DEADLOCK)"
  by (rule exit_run [OF assms])

theorem worker_stop_deadlocks_witness: "wt_fn_exit env0 10 (queued0 [4]) = Inl DEADLOCK"
proof -
  have inv: "dev_inv env0 w0 queued_dev0 (queued0 [4])" by (rule dev_inv_queued0) simp
  show ?thesis using worker_stop_deadlocks [OF inv] by (simp add: w0_def queued_dev0_def)
qed

text \<open>
  Tasks are worked off in the order in which they were added: after adding any tasks to
  an empty queue, taking as many gives them back in the same order and leaves it empty.
\<close>

theorem tasks_first_in_first_out:
  assumes "ctxs s c = Some cx" "devs s (ctx_dev cx) = Some dv" "\<not> slock dv" "pending_tasks dv = []"
  shows "\<exists>s' s''. put_all (dicedev_wt_add_task c) tps s = Inr s' \<and>
    read_n (take_for c) (length tps) s' = Inr (tps, s'') \<and> queue_contents c s'' = []"
proof -
  have "queue_ok c s" "queue_contents c s = []" using assms by (auto simp: queue_ok_def queue_contents_def)
  then show ?thesis using pending.first_in_first_out by blast
qed

theorem tasks_first_in_first_out_witness:
  "\<exists>s' s''. put_all (dicedev_wt_add_task 12) [31, 32, 33] state0 = Inr s' \<and>
     read_n (take_for 12) 3 s' = Inr ([31, 32, 33], s'')"
  using tasks_first_in_first_out [of state0 12 ctx0 dev0 "[31, 32, 33]"] by (auto simp: numeral_3_eq_3)

end
