(* ===== verification/Dicedev_Buffer.thy ===== *)
theory Dicedev_Buffer
  imports Dicedev_Wt_Inv
begin

text \<open>
  The buffer files (\<^verbatim>\<open>dicedev_buffer.c\<close>): mapping, writing commands, reading results, the
  seed, and the life of a buffer.
\<close>

section \<open>Operations\<close>

text \<open>
  A system call gives an error or a value, and the new state. Copying from user space gives
  \<open>None\<close> when the address faults. A call that may sleep ends in \<open>Return\<close>, or in \<open>Block\<close> with
  the state it leaves while it sleeps; it is tried again when its wait queue is woken.
\<close>

type_synonym 'a syscall = "((errno + 'a) \<times> kstate) result"

datatype 'a outcome = Block kstate | Return "errno + 'a" kstate

definition kmalloc :: "env \<Rightarrow> kstate \<Rightarrow> ptr option \<times> kstate" where
  "kmalloc E s = (case alloc E (mem s) of (p, m) \<Rightarrow> (p, s\<lparr>mem := m\<rparr>))"

text \<open>
  A \<open>private_data\<close> pointer used as a pointer to a buffer. Where the code tests it for NULL the
  test is written out.
\<close>

definition as_buff :: "private_data \<Rightarrow> ptr result" where
  "as_buff p = (case p of PrivBuff b \<Rightarrow> Inr b | PrivNull \<Rightarrow> Inl NULL_DEREF | _ \<Rightarrow> Inl WILD)"

definition file_buff :: "ptr \<Rightarrow> kstate \<Rightarrow> ptr result" where
  "file_buff fp s = bindR (deref (files s) fp) (\<lambda>f. as_buff (private_data f))"

definition READS_AVAILABLE :: "dicedev_reader \<Rightarrow> u64" where
  "READS_AVAILABLE r = reader_result_count r - reader_offset r"

text \<open>\<open>None\<close> is \<open>VM_FAULT_SIGBUS\<close>; otherwise the page that is mapped.\<close>

definition dicedev_buffer_vm_fault :: "ptr \<Rightarrow> nat \<Rightarrow> kstate \<Rightarrow> ptr option result" where
  "dicedev_buffer_vm_fault b pgoff s = bindR (deref (buffs s) b) (\<lambda>bf.
     bindR (deref (pts s) (buff_pt bf)) (\<lambda>t.
     if pgoff \<ge> num_pages t then Inr None
     else bindR (index (pages t) pgoff) (\<lambda>p. bindR (not_null (page p)) (\<lambda>a. Inr (Some a)))))"

text \<open>The result is the \<open>vm_private_data\<close> of the new mapping.\<close>

definition dicedev_buffer_mmap :: "ptr \<Rightarrow> kstate \<Rightarrow> ptr syscall" where
  "dicedev_buffer_mmap fp s = bindR (deref (files s) fp) (\<lambda>f.
     if private_data f = PrivNull then Inr (Inl EINVAL, s)
     else bindR (as_buff (private_data f)) (\<lambda>b. Inr (Inr b, s)))"

text \<open>
  The user's command words are a function of their index. The error labels at the end of the
  code wake \<open>task->ctx->wq\<close>, where \<open>task\<close> is not initialised, or NULL when its allocation
  failed: \<open>bad\<close> is the fault of that access. The iterator of the task, which is left
  uninitialised, is set before the task runs; here it is 0.
\<close>

definition write_undo :: "fault \<Rightarrow> ptr \<Rightarrow> ptr \<Rightarrow> kstate \<Rightarrow> u64 syscall" where
  "write_undo bad d c s = bindR (spin_lock_irqsave d s) (\<lambda>s.
     bindR (modify_ctx c (\<lambda>cx. cx\<lparr>task_count := task_count cx - 1\<rparr>) s) (\<lambda>s. Inl bad))"

definition new_write :: "ptr \<Rightarrow> ptr \<Rightarrow> ptr \<Rightarrow> u64 \<Rightarrow> dicedev_task" where
  "new_write c b cp count = \<lparr>t_ctx = c, t_result_count = 0, t_buff_out = b,
     t_body = DICEDEV_TASK_TYPE_WRITE \<lparr>w_cmd = cp, w_cmd_size = count, w_it_offset = 0\<rparr>\<rparr>"

definition dicedev_buffer_write :: "env \<Rightarrow> ptr \<Rightarrow> (nat \<Rightarrow> u32) option \<Rightarrow> u64 \<Rightarrow> kstate \<Rightarrow> u64 syscall" where
  "dicedev_buffer_write E fp ubuf count s =
     (if count mod 4 \<noteq> 0 then Inr (Inl EINVAL, s)
     else bindR (file_buff fp s) (\<lambda>b. bindR (deref (buffs s) b) (\<lambda>bf. let d = buff_dev bf; c = buff_ctx bf in
       bindR (spin_lock_irqsave d s) (\<lambda>s.
       if destroyed bf then bindR (spin_unlock_irqrestore d s) (\<lambda>s. Inr (Inl EPERM, s))
       else
         bindR (modify_ctx c (\<lambda>cx. cx\<lparr>task_count := task_count cx + 1\<rparr>) s) (\<lambda>s.
         bindR (spin_unlock_irqrestore d s) (\<lambda>s.
         case kmalloc E s of
           (None, s) \<Rightarrow> write_undo WILD d c s
         | (Some cp, s) \<Rightarrow> (case ubuf of
             None \<Rightarrow> write_undo WILD d c s
           | Some u \<Rightarrow> (case kmalloc E s of
               (None, s) \<Rightarrow> write_undo NULL_DEREF d c s
             | (Some tp, s) \<Rightarrow>
                 let s = s\<lparr>cmds := (cmds s)(cp \<mapsto> map u [0..<unat count div 4]),
                       tasks := (tasks s)(tp \<mapsto> new_write c b cp count)\<rparr>
                 in bindR (dicedev_wt_add_task c tp s) (\<lambda>s. Inr (Inr count, s))))))))))"

definition buff_read_result :: "ptr \<Rightarrow> kstate \<Rightarrow> ((errno + dice) \<times> kstate) result" where
  "buff_read_result b s = bindR (deref (buffs s) b) (\<lambda>bf.
     let off = reader_offset (reader bf); page_no = unat off div 512 in
     bindR (modify_buff b (\<lambda>bf. bf\<lparr>reader := (reader bf)\<lparr>reader_offset := off + 1\<rparr>\<rparr>) s) (\<lambda>s.
     bindR (deref (pts s) (buff_pt bf)) (\<lambda>t.
     if page_no \<ge> num_pages t then Inr (Inl EINVAL, s)
     else bindR (index (pages t) page_no) (\<lambda>p.
       bindR (not_null (page p)) (\<lambda>a.
       bindR (deref (page_mem (mem s)) a) (\<lambda>ws.
       bindR (index ws (2 * (unat off mod 512))) (\<lambda>v.
       bindR (index ws (2 * (unat off mod 512) + 1)) (\<lambda>ty.
       Inr (Inr \<lparr>dice_value = v, dice_type = ty\<rparr>, s)))))))))"

text \<open>
  \<open>copied\<close> says whether \<open>copy_to_user\<close> succeeds. A result of \<open>None\<close> is the end of file. The
  context is looked at only while there is nothing to read and the buffer is not destroyed.
\<close>

definition dicedev_buffer_read :: "ptr \<Rightarrow> bool \<Rightarrow> u64 \<Rightarrow> kstate \<Rightarrow> dice option outcome result" where
  "dicedev_buffer_read fp copied count s =
     (if count \<noteq> 8 then Inr (Return (Inl EINVAL) s)
     else bindR (file_buff fp s) (\<lambda>b. bindR (deref (buffs s) b) (\<lambda>bf. let d = buff_dev bf in
       bindR (spin_lock_irqsave d s) (\<lambda>s.
       bindR (if READS_AVAILABLE (reader bf) = 0 \<and> \<not> destroyed bf
              then bindR (deref (ctxs s) (buff_ctx bf)) (\<lambda>cx. Inr (task_count cx > 0))
              else Inr False) (\<lambda>sleep.
       if sleep then bindR (spin_unlock_irqrestore d s) (\<lambda>s. Inr (Block s))
       else if READS_AVAILABLE (reader bf) = 0
       then bindR (spin_unlock_irqrestore d s) (\<lambda>s. Inr (Return (Inr None) s))
       else bindR (buff_read_result b s) (\<lambda>(r, s).
         bindR (spin_unlock_irqrestore d s) (\<lambda>s.
         case r of
           Inl e \<Rightarrow> Inr (Return (Inl EFAULT) s)
         | Inr x \<Rightarrow> Inr (Return (if copied then Inr (Some x) else Inl EFAULT) s))))))))"

definition dicedev_buffer_ioctl :: "ptr \<Rightarrow> u32 \<Rightarrow> dicedev_ioctl_seed option \<Rightarrow> kstate \<Rightarrow> unit syscall" where
  "dicedev_buffer_ioctl fp cmd arg s = bindR (deref (files s) fp) (\<lambda>f.
     if private_data f = PrivNull then Inr (Inl EINVAL, s)
     else bindR (as_buff (private_data f)) (\<lambda>b.
       if cmd = DICEDEV_BUFFER_IOCTL_SEED
       then (case arg of
           None \<Rightarrow> Inr (Inl EFAULT, s)
         | Some a \<Rightarrow> bindR (modify_buff b (\<lambda>bf. bf\<lparr>seed_chg := True, seed := ucast (ioctl_seed a)\<rparr>) s) (\<lambda>s.
             Inr (Inr (), s)))
       else Inr (Inl ENOTTY, s)))"

definition dicedev_buffer_destroy :: "env \<Rightarrow> ptr \<Rightarrow> kstate \<Rightarrow> kstate result" where
  "dicedev_buffer_destroy E b s = bindR (deref (buffs s) b) (\<lambda>bf. let d = buff_dev bf in
     bindR (spin_lock_irqsave d s) (\<lambda>s.
     bindR (if binded_slot bf \<noteq> DICEDEV_BUFFER_NO_SLOT then unbind_slot E d b s else Inr s) (\<lambda>s.
     bindR (spin_unlock_irqrestore d s) (\<lambda>s.
     bindR (deref (pts s) (buff_pt bf)) (\<lambda>t.
     bindR (dicedev_pt_free (Some t) (mem s)) (\<lambda>m.
     Inr (s\<lparr>mem := m, pts := (pts s)(buff_pt bf := None)\<rparr>)))))))"

definition dicedev_buffer_release :: "env \<Rightarrow> ptr \<Rightarrow> kstate \<Rightarrow> kstate result" where
  "dicedev_buffer_release E fp s = bindR (file_buff fp s) (\<lambda>b.
     bindR (dicedev_buffer_destroy E b s) (\<lambda>s. Inr (s\<lparr>buffs := (buffs s)(b := None)\<rparr>)))"

text \<open>
  \<open>anon_inode_getfile\<close> gives a new file with one reference, or an error pointer, whose code
  the only caller replaces by \<open>ENOMEM\<close>. \<open>get_file\<close> takes a second reference. The error paths
  free the page table structure; it enters the store only when the buffer is complete.
\<close>

definition zero_pt :: dicedev_page_table where
  "zero_pt = \<lparr>pt_page = zero_page, pages = [], num_pages = 0, max_size = 0\<rparr>"

definition dicedev_buffer_init :: "env \<Rightarrow> ptr \<Rightarrow> ptr \<Rightarrow> u64 \<Rightarrow> u64 \<Rightarrow> kstate \<Rightarrow> unit syscall" where
  "dicedev_buffer_init E c b sz allow s = (case kmalloc E s of
     (None, s) \<Rightarrow> Inr (Inl ENOMEM, s)
   | (Some tp, s) \<Rightarrow>
       bindR (modify_buff b (\<lambda>bf. bf\<lparr>buff_pt := tp\<rparr>) s) (\<lambda>s.
       bindR (deref (ctxs s) c) (\<lambda>cx.
       bindR (deref (devs s) (ctx_dev cx)) (\<lambda>dv.
       bindR (dicedev_pt_init E (Some zero_pt) sz (mem s)) (\<lambda>(err, t, m).
       let s = s\<lparr>mem := m\<rparr> in
       if err \<noteq> None then Inr (Inl ENOMEM, s)
       else bindR (not_null t) (\<lambda>t.
         bindR (modify_buff b (\<lambda>bf. bf\<lparr>buff_ctx := c, buff_dev := ctx_dev cx, destroyed := False,
           seed := DICEDEV_DEFAULT_SEED, seed_chg := False, allowed := ucast allow, binded_slot := DICEDEV_BUFFER_NO_SLOT,
           reader := \<lparr>reader_result_count = 0, reader_offset = 0\<rparr>\<rparr>) s) (\<lambda>s.
         case kmalloc E s of
           (None, s) \<Rightarrow> bindR (dicedev_pt_free (Some t) (mem s)) (\<lambda>m. Inr (Inl ENOMEM, s\<lparr>mem := m\<rparr>))
         | (Some fp, s) \<Rightarrow>
             bindR (modify_buff b (\<lambda>bf. bf\<lparr>buff_file := fp\<rparr>) s) (\<lambda>s.
             Inr (Inr (), s\<lparr>pts := (pts s)(tp \<mapsto> t),
               files := (files s)(fp \<mapsto> \<lparr>private_data = PrivBuff b, f_count = 2\<rparr>)\<rparr>)))))))))"

text \<open>\<open>newfd\<close> is what \<open>get_unused_fd_flags\<close> returns.\<close>

definition dicedev_buffer_get_fd :: "errno + int \<Rightarrow> ptr \<Rightarrow> kstate \<Rightarrow> int syscall" where
  "dicedev_buffer_get_fd newfd b s = (case newfd of
     Inl e \<Rightarrow> Inr (Inl e, s)
   | Inr fd \<Rightarrow> bindR (deref (buffs s) b) (\<lambda>bf. Inr (Inr fd, s\<lparr>fds := (fds s)(fd \<mapsto> buff_file bf)\<rparr>)))"

section \<open>Reading results\<close>

text \<open>The pairs of words of a result buffer, as dice.\<close>

fun dice_of :: "u32 list \<Rightarrow> dice list" where
  "dice_of (v # ty # ws) = \<lparr>dice_value = v, dice_type = ty\<rparr> # dice_of ws"
| "dice_of ws = []"

lemma dice_of_nth:
  "2 * i + 1 < length ws \<Longrightarrow> dice_of ws ! i = \<lparr>dice_value = ws ! (2 * i), dice_type = ws ! (2 * i + 1)\<rparr>"
proof (induction ws arbitrary: i rule: dice_of.induct)
  case (1 v ty ws)
  then show ?case by (cases i) auto
qed auto

lemma length_dice_of [simp]: "length (dice_of ws) = length ws div 2"
  by (induction ws rule: dice_of.induct) auto

definition unread :: "ptr \<Rightarrow> kstate \<Rightarrow> dice list" where
  "unread b s = (case buffs s b of None \<Rightarrow> [] | Some bf \<Rightarrow>
     drop (unat (reader_offset (reader bf))) (take (unat (reader_result_count (reader bf))) (dice_of (buffer_words s b))))"

text \<open>
  A result buffer that can be read: an open buffer file whose results fit into the pages of the
  buffer, and whose device is not locked.
\<close>

definition readable :: "ptr \<Rightarrow> ptr \<Rightarrow> kstate \<Rightarrow> bool" where
  "readable fp b s \<longleftrightarrow> (\<exists>f bf t dv. files s fp = Some f \<and> private_data f = PrivBuff b \<and> buffs s b = Some bf \<and>
     devs s (buff_dev bf) = Some dv \<and> \<not> slock dv \<and> pts s (buff_pt bf) = Some t \<and> num_pages t = length (pages t) \<and>
     backed s b \<and> reader_offset (reader bf) \<le> reader_result_count (reader bf) \<and>
     unat (reader_result_count (reader bf)) \<le> 512 * num_pages t)"

lemma readableE:
  assumes "readable fp b s"
  obtains f bf t dv where "files s fp = Some f" "private_data f = PrivBuff b" "file_buff fp s = Inr b" "buffs s b = Some bf"
    "devs s (buff_dev bf) = Some dv" "\<not> slock dv" "pts s (buff_pt bf) = Some t" "num_pages t = length (pages t)"
    "backed s b" "reader_offset (reader bf) \<le> reader_result_count (reader bf)"
    "unat (reader_result_count (reader bf)) \<le> 512 * num_pages t" "buffer_pages s b = pages t"
  using assms by (auto simp: readable_def file_buff_def as_buff_def buffer_pages_def)

lemma readableD:
  assumes "readable fp b s" "buffs s b = Some bf"
  shows "file_buff fp s = Inr b" "\<exists>dv. devs s (buff_dev bf) = Some dv \<and> \<not> slock dv" "backed s b"
    "reader_offset (reader bf) \<le> reader_result_count (reader bf)"
    "unat (reader_result_count (reader bf)) \<le> 512 * length (buffer_pages s b)"
  using assms by (auto simp: readable_def file_buff_def as_buff_def buffer_pages_def)

definition advanced :: "dicedev_buffer \<Rightarrow> dicedev_buffer" where
  "advanced bf = bf\<lparr>reader := (reader bf)\<lparr>reader_offset := reader_offset (reader bf) + 1\<rparr>\<rparr>"

lemma backed_page:
  assumes "backed s b" "i < length (buffer_pages s b)"
  obtains a ws where "page (buffer_pages s b ! i) = Some a" "page_mem (mem s) a = Some ws" "length ws = 1024"
    "page_words s (buffer_pages s b ! i) = ws"
proof -
  let ?p = "buffer_pages s b ! i"
  have "length (page_words s ?p) = 1024" using assms by (simp add: backed_def)
  then show thesis using that by (auto simp: page_words_def split: option.splits bind_splits)
qed

lemma buffer_words_nth:
  assumes "backed s b" "i < length (buffer_pages s b)" "j < 1024"
  shows "buffer_words s b ! (i * 1024 + j) = page_words s (buffer_pages s b ! i) ! j"
    "length (buffer_words s b) = 1024 * length (buffer_pages s b)"
  using nth_concat_same [of "map (page_words s) (buffer_pages s b)" 1024 i j]
    length_concat_same [of "map (page_words s) (buffer_pages s b)" 1024] assms
  by (simp_all add: buffer_words_def backed_def)

lemma die_at:
  assumes "backed s b" "k < 512 * length (buffer_pages s b)"
  shows "dice_of (buffer_words s b) ! k = \<lparr>dice_value = page_words s (buffer_pages s b ! (k div 512)) ! (2 * (k mod 512)),
    dice_type = page_words s (buffer_pages s b ! (k div 512)) ! (2 * (k mod 512) + 1)\<rparr>"
proof -
  have p: "k div 512 < length (buffer_pages s b)" using assms(2) by (simp add: less_mult_imp_div_less mult.commute)
  have k: "2 * k = k div 512 * 1024 + 2 * (k mod 512)" using div_mult_mod_eq [of k 512] by linarith
  have "k mod 512 < 512" by simp
  then have l: "2 * (k mod 512) < 1024" "2 * (k mod 512) + 1 < 1024" by linarith+
  have "2 * k + 1 < length (buffer_words s b)" using buffer_words_nth(2) [OF assms(1) p l(1)] assms(2) by simp
  then show ?thesis
    using buffer_words_nth(1) [OF assms(1) p l(1)] buffer_words_nth(1) [OF assms(1) p l(2)] by (simp add: dice_of_nth k)
qed

lemma read_result_run:
  assumes "buffs s b = Some bf" "pts s (buff_pt bf) = Some t" "backed s b" "num_pages t = length (pages t)"
    and "unat (reader_offset (reader bf)) < 512 * num_pages t"
  shows "buff_read_result b s = Inr (Inr (dice_of (buffer_words s b) ! unat (reader_offset (reader bf))),
    s\<lparr>buffs := (buffs s)(b \<mapsto> advanced bf)\<rparr>)"
proof -
  let ?k = "unat (reader_offset (reader bf))"
  have t: "buffer_pages s b = pages t" using assms(1,2) by (simp add: buffer_pages_def)
  have i: "?k div 512 < length (buffer_pages s b)" using assms(4,5) t by (simp add: less_mult_imp_div_less mult.commute)
  obtain a ws where a: "page (pages t ! (?k div 512)) = Some a" "page_mem (mem s) a = Some ws" "length ws = 1024"
      "page_words s (pages t ! (?k div 512)) = ws"
    using backed_page [OF assms(3) i] t by metis
  have "?k mod 512 < 512" by simp
  then have l: "2 * (?k mod 512) < 1024" "Suc (2 * (?k mod 512)) < 1024" by linarith+
  show ?thesis
    using assms i a l t die_at [OF assms(3), of ?k]
    by (simp add: buff_read_result_def Let_def advanced_def del: bindR_eq_Inr)
qed

lemma read_available:
  assumes "readable fp b s" "unread b s = x # xs"
  shows "\<exists>bf. buffs s b = Some bf \<and> dicedev_buffer_read fp copied 8 s =
      Inr (Return (if copied then Inr (Some x) else Inl EFAULT) (s\<lparr>buffs := (buffs s)(b \<mapsto> advanced bf)\<rparr>)) \<and>
    readable fp b (s\<lparr>buffs := (buffs s)(b \<mapsto> advanced bf)\<rparr>) \<and>
    unread b (s\<lparr>buffs := (buffs s)(b \<mapsto> advanced bf)\<rparr>) = xs"
proof -
  obtain f bf t dv where r: "files s fp = Some f" "private_data f = PrivBuff b" "file_buff fp s = Inr b" "buffs s b = Some bf"
      "devs s (buff_dev bf) = Some dv" "\<not> slock dv" "pts s (buff_pt bf) = Some t" "num_pages t = length (pages t)"
      "backed s b" "reader_offset (reader bf) \<le> reader_result_count (reader bf)"
      "unat (reader_result_count (reader bf)) \<le> 512 * num_pages t" "buffer_pages s b = pages t"
    using readableE [OF assms(1)] by metis
  let ?o = "reader_offset (reader bf)" and ?c = "reader_result_count (reader bf)" and ?l = "dice_of (buffer_words s b)"
  let ?s = "s\<lparr>buffs := (buffs s)(b \<mapsto> advanced bf)\<rparr>"
  have u: "drop (unat ?o) (take (unat ?c) ?l) = x # xs" using assms(2) r(4) by (simp add: unread_def)
  then have o: "unat ?o < unat ?c" by (metis drop_eq_Nil2 length_take list.distinct(1) min.coboundedI2 not_le)
  then have lt: "?o < ?c" by (simp add: word_less_nat_alt)
  have ne: "?c - ?o \<noteq> 0" using lt by auto
  have o1: "unat (?o + 1) = Suc (unat ?o)" using o by (rule unat_Suc_less)
  have x: "x = ?l ! unat ?o"
    by (metis u drop_eq_Nil2 leI list.distinct(1) list.sel(1) hd_drop_conv_nth nth_take o)
  let ?sl = "s\<lparr>devs := (devs s)(buff_dev bf \<mapsto> dv\<lparr>slock := True\<rparr>)\<rparr>"
  have same: "backed ?sl b = backed s b" "buffer_words ?sl b = buffer_words s b" "backed ?s b = backed s b"
      "buffer_words ?s b = buffer_words s b"
    using same_pages(3,4) [of ?sl s] same_pages(3,4) [of ?s s] r(4)
    by (simp_all add: buff_key_def fun_eq_iff advanced_def)
  have "buff_read_result b ?sl = Inr (Inr x, ?sl\<lparr>buffs := (buffs s)(b \<mapsto> advanced bf)\<rparr>)"
    using read_result_run [of ?sl b bf t] r same o x by simp
  then have "dicedev_buffer_read fp copied 8 s = Inr (Return (if copied then Inr (Some x) else Inl EFAULT) ?s)"
    using r(3-6) ne by (cases s) (simp add: dicedev_buffer_read_def READS_AVAILABLE_def Let_def fun_upd_idem del: bindR_eq_Inr)
  moreover have "readable fp b ?s"
    using r same o o1 unfolding readable_def by (auto simp: advanced_def word_le_nat_alt)
  moreover have "unread b ?s = xs"
    using u same o1 by (simp add: unread_def advanced_def) (metis drop_Suc list.sel(3) tl_drop)
  ultimately show ?thesis using r(4) by blast
qed

lemma read_empty:
  assumes "readable fp b s" "unread b s = []" "buffs s b = Some bf"
  shows "dicedev_buffer_read fp copied 8 s = (if destroyed bf then Inr (Return (Inr None) s)
    else bindR (deref (ctxs s) (buff_ctx bf)) (\<lambda>cx. Inr (if task_count cx > 0 then Block s else Return (Inr None) s)))"
proof -
  note r = readableD [OF assms(1,3)]
  obtain dv where dv: "devs s (buff_dev bf) = Some dv" "\<not> slock dv" using r(2) by blast
  have "length (buffer_words s b) = 1024 * length (buffer_pages s b)"
    using r(3) length_concat_same [of "map (page_words s) (buffer_pages s b)" 1024] by (simp add: buffer_words_def backed_def)
  then have "unat (reader_offset (reader bf)) = unat (reader_result_count (reader bf))"
    using assms(2,3) r(4,5) by (auto simp: unread_def word_le_nat_alt)
  then have "READS_AVAILABLE (reader bf) = 0" by (simp add: READS_AVAILABLE_def word_unat_eq_iff [symmetric])
  then show ?thesis using r(1) dv assms(3)
    by (cases "ctxs s (buff_ctx bf)") (simp_all add: dicedev_buffer_read_def Let_def del: bindR_eq_Inr)
qed

text \<open>A program that reads one die; for it every other outcome of the call is a failure.\<close>

definition read_die :: "ptr \<Rightarrow> kstate \<Rightarrow> (dice \<times> kstate) result" where
  "read_die fp s = bindR (dicedev_buffer_read fp True 8 s) (\<lambda>r. case r of
     Return (Inr (Some x)) s \<Rightarrow> Inr (x, s) | _ \<Rightarrow> Inl BUG)"

interpretation results: value_source "read_die fp" "readable fp b" "unread b" for fp b
proof
  show "\<exists>s'. read_die fp s = Inr (x, s') \<and> readable fp b s' \<and> unread b s' = xs"
    if "readable fp b s" "unread b s = x # xs" for s x xs
    using read_available [OF that, of True] by (auto simp: read_die_def)
qed

section \<open>The life of a buffer\<close>

lemma alloc_cases:
  obtains (full) "kmalloc E s = (None, s\<lparr>mem := (mem s)\<lparr>clock := Suc (clock (mem s))\<rparr>\<rparr>)" "\<not> alloc_ok E (clock (mem s))"
  | (got) "kmalloc E s = (Some (next_ptr (mem s)),
      s\<lparr>mem := (mem s)\<lparr>next_ptr := Suc (next_ptr (mem s)), clock := Suc (clock (mem s))\<rparr>\<rparr>)" "alloc_ok E (clock (mem s))"
  by (cases "alloc_ok E (clock (mem s))") (simp_all add: kmalloc_def alloc_def)

text \<open>A new buffer, on top of what the structure held before.\<close>

definition fresh_buffer :: "ptr \<Rightarrow> ptr \<Rightarrow> ptr \<Rightarrow> ptr \<Rightarrow> u64 \<Rightarrow> dicedev_buffer \<Rightarrow> dicedev_buffer" where
  "fresh_buffer c d tp fp allow bf = bf\<lparr>buff_pt := tp, buff_ctx := c, buff_dev := d, destroyed := False,
     seed := DICEDEV_DEFAULT_SEED, seed_chg := False, allowed := ucast allow, binded_slot := DICEDEV_BUFFER_NO_SLOT,
     reader := \<lparr>reader_result_count = 0, reader_offset = 0\<rparr>, buff_file := fp\<rparr>"

definition table_for :: "env \<Rightarrow> kmem \<Rightarrow> kmem \<Rightarrow> u64 \<Rightarrow> dicedev_page_table \<Rightarrow> bool" where
  "table_for E m m' sz t \<longleftrightarrow> (\<exists>ep qs. pt_owns E m' t ep qs \<and> num_pages t = (unat sz + 4095) div 4096 \<and> max_size t = sz \<and>
     (\<forall>q \<in> set qs. page_mem m' q = Some (replicate 1024 0)) \<and> set (ep # qs) \<inter> dom (page_mem m) = {} \<and>
     page_mem m' |` (- set (ep # qs)) = page_mem m)"

lemma kmalloc_mem: "kmem_ok (mem s) \<Longrightarrow> kmalloc E s = (r, s') \<Longrightarrow> kmem_ok (mem s') \<and> page_mem (mem s') = page_mem (mem s)"
  by (auto simp: kmalloc_def alloc_def kmem_ok_def less_SucI split: if_splits)

text \<open>The two outcomes of \<open>dicedev_buffer_init\<close>.\<close>

definition same_kernel :: "kstate \<Rightarrow> kstate \<Rightarrow> bool" where
  "same_kernel s s' \<longleftrightarrow> devs s' = devs s \<and> ctxs s' = ctxs s \<and> tasks s' = tasks s \<and> cmds s' = cmds s \<and> fds s' = fds s"

definition buffer_made :: "env \<Rightarrow> ptr \<Rightarrow> ptr \<Rightarrow> u64 \<Rightarrow> u64 \<Rightarrow> kstate \<Rightarrow> kstate \<Rightarrow> bool" where
  "buffer_made E c b sz allow s s' \<longleftrightarrow> (\<exists>cx bf tp fp t. ctxs s c = Some cx \<and> buffs s b = Some bf \<and>
     next_ptr (mem s) \<le> tp \<and> tp < fp \<and> fp < next_ptr (mem s') \<and> pts s' = (pts s)(tp \<mapsto> t) \<and>
     files s' = (files s)(fp \<mapsto> \<lparr>private_data = PrivBuff b, f_count = 2\<rparr>) \<and>
     buffs s' = (buffs s)(b \<mapsto> fresh_buffer c (ctx_dev cx) tp fp allow bf) \<and> table_for E (mem s) (mem s') sz t)"

lemma buffer_madeE:
  assumes "buffer_made E c b sz allow s s'" "ctxs s c = Some cx" "buffs s b = Some bf"
  obtains tp fp t ep qs where "next_ptr (mem s) \<le> tp" "tp < fp" "fp < next_ptr (mem s')" "pts s' = (pts s)(tp \<mapsto> t)"
    "files s' = (files s)(fp \<mapsto> \<lparr>private_data = PrivBuff b, f_count = 2\<rparr>)"
    "buffs s' = (buffs s)(b \<mapsto> fresh_buffer c (ctx_dev cx) tp fp allow bf)"
    "pt_owns E (mem s') t ep qs" "num_pages t = (unat sz + 4095) div 4096" "max_size t = sz"
    "set (ep # qs) \<inter> dom (page_mem (mem s)) = {}" "page_mem (mem s') |` (- set (ep # qs)) = page_mem (mem s)"
proof -
  obtain tp fp t where h: "next_ptr (mem s) \<le> tp" "tp < fp" "fp < next_ptr (mem s')" "pts s' = (pts s)(tp \<mapsto> t)"
      "files s' = (files s)(fp \<mapsto> \<lparr>private_data = PrivBuff b, f_count = 2\<rparr>)"
      "buffs s' = (buffs s)(b \<mapsto> fresh_buffer c (ctx_dev cx) tp fp allow bf)" "table_for E (mem s) (mem s') sz t"
    using assms unfolding buffer_made_def by auto
  from h(7) show thesis unfolding table_for_def using that [OF h(1-6)] by blast
qed

lemma buffer_init_spec:
  assumes "kmem_ok (mem s)" "unat sz \<le> 0x400000" "ctxs s c = Some cx" "devs s (ctx_dev cx) = Some dv" "buffs s b = Some bf"
  shows "\<exists>r s'. dicedev_buffer_init E c b sz allow s = Inr (r, s') \<and> kmem_ok (mem s') \<and> same_kernel s s' \<and>
    next_ptr (mem s) \<le> next_ptr (mem s') \<and>
    (case r of
       Inl e \<Rightarrow> e = ENOMEM \<and> page_mem (mem s') = page_mem (mem s) \<and> pts s' = pts s \<and> files s' = files s \<and>
         (\<exists>bf'. buffs s' = (buffs s)(b \<mapsto> bf'))
     | Inr _ \<Rightarrow> buffer_made E c b sz allow s s')"
proof (cases rule: alloc_cases [of E s])
  case full
  have "(buffs s)(b \<mapsto> bf) = buffs s" using assms(5) by (rule fun_upd_idem)
  then have "\<exists>bf'. buffs s = (buffs s)(b \<mapsto> bf')" by metis
  then show ?thesis using assms full by (simp add: dicedev_buffer_init_def same_kernel_def kmem_ok_def)
next
  case got
  let ?tp = "next_ptr (mem s)"
  let ?m = "(mem s)\<lparr>next_ptr := Suc ?tp, clock := Suc (clock (mem s))\<rparr>"
  have k: "kmem_ok ?m" using assms(1) by (auto simp: kmem_ok_def less_SucI)
  obtain err t m where init: "dicedev_pt_init E (Some zero_pt) sz ?m = Inr (err, Some t, m)" "kmem_ok m"
    and out: "case err of None \<Rightarrow> table_for E ?m m sz t | Some e \<Rightarrow> e = ENOMEM \<and> page_mem m = page_mem (mem s)"
    using pt_init_spec [OF k assms(2), of E zero_pt] by (fastforce simp: table_for_def split: option.splits)
  have le: "Suc ?tp \<le> next_ptr m" using pt_init_mono [OF init(1)] by simp
  show ?thesis
  proof (cases err)
    case (Some e)
    then show ?thesis using got init out le assms(3-5)
      by (auto simp: dicedev_buffer_init_def same_kernel_def)
  next
    case None
    let ?s = "s\<lparr>mem := m, buffs := (buffs s)(b \<mapsto> fresh_buffer c (ctx_dev cx) ?tp (buff_file bf) allow bf)\<rparr>"
    have run: "dicedev_buffer_init E c b sz allow s = (case kmalloc E ?s of
           (None, s) \<Rightarrow> bindR (dicedev_pt_free (Some t) (mem s)) (\<lambda>m. Inr (Inl ENOMEM, s\<lparr>mem := m\<rparr>))
         | (Some fp, s) \<Rightarrow> bindR (modify_buff b (\<lambda>bf. bf\<lparr>buff_file := fp\<rparr>) s) (\<lambda>s.
             Inr (Inr (), s\<lparr>pts := (pts s)(?tp \<mapsto> t),
               files := (files s)(fp \<mapsto> \<lparr>private_data = PrivBuff b, f_count = 2\<rparr>)\<rparr>)))"
      using got None init assms(3-5)
      by (cases bf) (simp add: dicedev_buffer_init_def fresh_buffer_def del: bindR_eq_Inr)
    show ?thesis
    proof (cases rule: alloc_cases [of E ?s])
      case full
      obtain ep qs where o: "pt_owns E (m\<lparr>clock := Suc (clock m)\<rparr>) t ep qs" "page_mem m |` (- set (ep # qs)) = page_mem (mem s)"
        using out None by (auto simp: table_for_def pt_owns_def)
      have "kmem_ok (m\<lparr>clock := Suc (clock m), page_mem := page_mem (mem s)\<rparr>)"
        using assms(1) le by (fastforce simp: kmem_ok_def)
      then show ?thesis using full(1) pt_free_owned [OF o(1)] o(2) le
        by (simp add: run same_kernel_def del: set_simps) blast
    next
      case got
      have "kmem_ok (m\<lparr>next_ptr := Suc (next_ptr m), clock := Suc (clock m)\<rparr>)" using init(2) by (auto simp: kmem_ok_def less_SucI)
      moreover have "table_for E (mem s) (m\<lparr>next_ptr := Suc (next_ptr m), clock := Suc (clock m)\<rparr>) sz t"
        using out None by (simp add: table_for_def pt_owns_def)
      moreover have "(fresh_buffer c (ctx_dev cx) ?tp (buff_file bf) allow bf)\<lparr>buff_file := fp\<rparr> =
          fresh_buffer c (ctx_dev cx) ?tp fp allow bf" for fp
        by (simp add: fresh_buffer_def)
      ultimately show ?thesis using got(1) le assms(3-5)
        by (simp add: run same_kernel_def buffer_made_def)
          (intro exI [of _ ?tp] conjI exI [of _ "next_ptr m"] exI [of _ t]; simp)
    qed
  qed
qed

lemma buffer_init_plenty:
  assumes p: "plenty E (unat ((sz + 0x1000 - 1) div 0x1000) + 4) (mem s)" and r: "dicedev_buffer_init E c b sz allow s = Inr (r, s')"
  shows "\<exists>u. r = Inr u"
proof -
  let ?n = "unat ((sz + 0x1000 - 1) div 0x1000)" and ?m = "(mem s)\<lparr>next_ptr := Suc (next_ptr (mem s)), clock := Suc (clock (mem s))\<rparr>"
  have a: "alloc_ok E (clock (mem s))" using p by (auto simp: plenty_def dest: spec [of _ 0])
  have m: "plenty E (?n + 3) ?m" by (rule plenty_alloc [of E _ "mem s"]) (use p in \<open>simp_all add: eval_nat_numeral\<close>)
  have i: "err = None \<and> alloc_ok E (clock m')" if f: "dicedev_pt_init E (Some zero_pt) sz ?m = Inr (err, t', m')" for err t' m'
  proof -
    have "err = None \<and> clock m' = clock ?m + ?n + 2" by (rule pt_init_plenty [OF plenty_le [OF m] f]) simp
    then show ?thesis using m unfolding plenty_def by (auto dest: spec [of _ "?n + 2"])
  qed
  show ?thesis using r a by (auto simp: dicedev_buffer_init_def modify_buff_def kmalloc_def alloc_def Let_def dest!: i split: if_splits)
qed

lemma buffer_init_alloc_ok:
  assumes "\<forall>n. alloc_ok E n" "dicedev_buffer_init E c b sz allow s = Inr (r, s')"
  shows "\<exists>u. r = Inr u"
  by (rule buffer_init_plenty [OF _ assms(2)]) (simp add: plenty_def assms(1))

text \<open>A buffer without a slot does not disturb the slots.\<close>

lemma slots_ok_add:
  assumes "slots_ok d (s\<lparr>buffs := (buffs s)(b := None)\<rparr>)" "binded_slot bf = -1"
  shows "slots_ok d (s\<lparr>buffs := (buffs s)(b \<mapsto> bf)\<rparr>)"
  using assms by (auto simp: slots_ok_def split: if_splits)

text \<open>Destroying a buffer gives back its slot, its pages and its page table.\<close>

lemma destroy_unbound:
  assumes "buffs s b = Some bf" "devs s (buff_dev bf) = Some dv" "\<not> slock dv" "binded_slot bf = -1"
    and "pts s (buff_pt bf) = Some t" "pt_owns E (mem s) t ep qs"
  shows "dicedev_buffer_destroy E b s = Inr (s\<lparr>mem := (mem s)\<lparr>page_mem := page_mem (mem s) |` (- set (ep # qs))\<rparr>,
    pts := (pts s)(buff_pt bf := None)\<rparr>)"
  using assms(1-5) pt_free_owned [OF assms(6)]
  by (cases s) (simp add: dicedev_buffer_destroy_def Let_def fun_upd_idem del: bindR_eq_Inr)

lemma buffer_destroy_run:
  assumes "drains E" "buffs s b = Some bf" "devs s (buff_dev bf) = Some dv" "\<not> slock dv" "\<not> feed_lock dv" "slots_ok (buff_dev bf) s"
    and "pts s (buff_pt bf) = Some t" "pt_owns E (mem s) t ep qs"
  shows "dicedev_buffer_destroy E b s = Inr (s\<lparr>
    devs := (devs s)(buff_dev bf \<mapsto> if binded_slot bf \<noteq> -1 then dev_unbound E bf dv else dv),
    buffs := (buffs s)(b \<mapsto> if binded_slot bf \<noteq> -1 then buff_unbound bf else bf),
    mem := (mem s)\<lparr>page_mem := page_mem (mem s) |` (- set (ep # qs))\<rparr>, pts := (pts s)(buff_pt bf := None)\<rparr>)"
proof -
  have f: "dicedev_pt_free (Some t) (mem s) = Inr ((mem s)\<lparr>page_mem := page_mem (mem s) |` (- set (ep # qs))\<rparr>)"
    by (rule pt_free_owned [OF assms(8)])
  have n: "\<not> slock (dev_unbound E bf dv)" using assms(4) by (simp add: dev_unbound_def)
  show ?thesis
  proof (cases "binded_slot bf = -1")
    case True
    then show ?thesis using destroy_unbound [OF assms(2-4) True assms(7,8)] assms(2,3) by (cases s) (simp add: fun_upd_idem)
  next
    case False
    then show ?thesis using assms(2-4,7) f n unbind_locked [OF assms(1,3,5,2) refl assms(6) False]
      by (cases s) (simp add: dicedev_buffer_destroy_def Let_def fun_upd_idem del: bindR_eq_Inr)
  qed
qed

lemma buffer_release_run:
  assumes "files s fp = Some f" "private_data f = PrivBuff b"
    and "drains E" "buffs s b = Some bf" "devs s (buff_dev bf) = Some dv" "\<not> slock dv" "\<not> feed_lock dv" "slots_ok (buff_dev bf) s"
    and "pts s (buff_pt bf) = Some t" "pt_owns E (mem s) t ep qs"
  shows "dicedev_buffer_release E fp s = Inr (s\<lparr>
    devs := (devs s)(buff_dev bf \<mapsto> if binded_slot bf \<noteq> -1 then dev_unbound E bf dv else dv),
    buffs := (buffs s)(b := None),
    mem := (mem s)\<lparr>page_mem := page_mem (mem s) |` (- set (ep # qs))\<rparr>, pts := (pts s)(buff_pt bf := None)\<rparr>)"
  using assms(1,2) buffer_destroy_run [OF assms(3-)]
  by (simp add: dicedev_buffer_release_def file_buff_def as_buff_def del: bindR_eq_Inr)

section \<open>Writing commands\<close>

text \<open>A buffer file whose buffer and context can be used.\<close>

definition usable :: "ptr \<Rightarrow> ptr \<Rightarrow> dicedev_buffer \<Rightarrow> dicedev_context \<Rightarrow> dicedev_device \<Rightarrow> kstate \<Rightarrow> bool" where
  "usable fp b bf cx dv s \<longleftrightarrow> (\<exists>f. files s fp = Some f \<and> private_data f = PrivBuff b) \<and> buffs s b = Some bf \<and>
     \<not> destroyed bf \<and> ctxs s (buff_ctx bf) = Some cx \<and> ctx_dev cx = buff_dev bf \<and> devs s (buff_dev bf) = Some dv \<and> \<not> slock dv"

definition write_queued :: "ptr \<Rightarrow> dicedev_buffer \<Rightarrow> dicedev_context \<Rightarrow> dicedev_device \<Rightarrow> (nat \<Rightarrow> u32) \<Rightarrow> u64 \<Rightarrow> kstate \<Rightarrow> kstate" where
  "write_queued b bf cx dv u count s = (let cp = next_ptr (mem s); tp = Suc cp in
     s\<lparr>mem := (mem s)\<lparr>next_ptr := Suc tp, clock := Suc (Suc (clock (mem s)))\<rparr>,
       ctxs := (ctxs s)(buff_ctx bf \<mapsto> cx\<lparr>task_count := task_count cx + 1\<rparr>),
       cmds := (cmds s)(cp \<mapsto> map u [0..<unat count div 4]),
       tasks := (tasks s)(tp \<mapsto> new_write (buff_ctx bf) b cp count),
       devs := (devs s)(buff_dev bf \<mapsto> dv\<lparr>pending_tasks := pending_tasks dv @ [tp], event_cond := Suc (event_cond dv)\<rparr>)\<rparr>)"

lemma write_run:
  assumes "usable fp b bf cx dv s" "count mod 4 = 0"
  shows "dicedev_buffer_write E fp ubuf count s =
    (if \<not> alloc_ok E (clock (mem s)) then Inl WILD
     else case ubuf of None \<Rightarrow> Inl WILD
       | Some u \<Rightarrow> if alloc_ok E (Suc (clock (mem s))) then Inr (Inr count, write_queued b bf cx dv u count s) else Inl NULL_DEREF)"
proof -
  have u: "file_buff fp s = Inr b" "buffs s b = Some bf" "\<not> destroyed bf" "ctxs s (buff_ctx bf) = Some cx"
      "ctx_dev cx = buff_dev bf" "devs s (buff_dev bf) = Some dv" "\<not> slock dv"
    using assms(1) by (auto simp: usable_def file_buff_def as_buff_def)
  show ?thesis
    by (cases s; cases dv; cases ubuf)
      (use assms(2) u in \<open>simp_all add: dicedev_buffer_write_def write_undo_def kmalloc_def alloc_def Let_def
         add_task_run write_queued_def fun_upd_idem del: bindR_eq_Inr\<close>)
qed

section \<open>Properties\<close>

text \<open>
  C25. Reading a result buffer hands out the dice of its pages one after the other, in order and
  across page borders, and leaves the others to be read: \<open>n\<close> reads give the first \<open>n\<close> unread
  results.
\<close>

theorem results_read_in_order:
  assumes "readable fp b s" "n \<le> length (unread b s)"
  shows "\<exists>s'. read_n (read_die fp) n s = Inr (take n (unread b s), s') \<and> readable fp b s' \<and> unread b s' = drop n (unread b s)"
  by (rule results.read_prefix [OF assms])

definition results0 :: kstate where
  "results0 = state0\<lparr>buffs := [11 \<mapsto> buff0\<lparr>reader := \<lparr>reader_result_count = 513, reader_offset = 511\<rparr>\<rparr>],
     pts := [13 \<mapsto> table0\<lparr>pages := [mk_page env0 17, mk_page env0 18], num_pages := 2\<rparr>],
     mem := (mem state0)\<lparr>page_mem := [17 \<mapsto> replicate 1022 0 @ [6, 3], 18 \<mapsto> [5, 4] @ replicate 1022 0]\<rparr>\<rparr>"

lemma two_of: "length l = 1024 \<Longrightarrow> drop 511 (take 513 l) = [l ! 511, l ! 512]"
  by (auto simp: list_eq_iff_nth_eq less_2_cases_iff nth_Cons')

lemma results0_unread:
  "readable 14 11 results0" "unread 11 results0 = [\<lparr>dice_value = 6, dice_type = 3\<rparr>, \<lparr>dice_value = 5, dice_type = 4\<rparr>]"
proof -
  have p: "buffer_pages results0 11 = [mk_page env0 17, mk_page env0 18]" by (simp add: buffer_pages_def results0_def buff0_def)
  have w: "page_words results0 (mk_page env0 17) = replicate 1022 0 @ [6, 3]"
      "page_words results0 (mk_page env0 18) = [5, 4] @ replicate 1022 0"
    by (simp_all add: page_words_def results0_def)
  have b: "backed results0 11" by (simp add: backed_def p w) (simp add: results0_def buff0_def)
  show "readable 14 11 results0"
    using b by (simp add: readable_def) (simp add: results0_def state0_def buff0_def)
  have "dice_of (buffer_words results0 11) ! 511 = \<lparr>dice_value = 6, dice_type = 3\<rparr>"
      "dice_of (buffer_words results0 11) ! 512 = \<lparr>dice_value = 5, dice_type = 4\<rparr>"
    using die_at [OF b, of 511] die_at [OF b, of 512] by (simp_all add: p w nth_append)
  moreover have "length (dice_of (buffer_words results0 11)) = 1024"
    by (simp add: buffer_words_def p w)
  ultimately show "unread 11 results0 = [\<lparr>dice_value = 6, dice_type = 3\<rparr>, \<lparr>dice_value = 5, dice_type = 4\<rparr>]"
    by (simp add: unread_def results0_def [THEN arg_cong [of _ _ buffs]] two_of)
qed

theorem results_read_in_order_witness:
  "\<exists>s'. read_n (read_die 14) 2 results0 =
     Inr ([\<lparr>dice_value = 6, dice_type = 3\<rparr>, \<lparr>dice_value = 5, dice_type = 4\<rparr>], s')"
  using results_read_in_order [OF results0_unread(1), of 2] by (auto simp: results0_unread(2))

text \<open>
  C26. With every result read, a read of a buffer whose context was closed returns the end of the
  file without looking at the context, which is no longer there. Otherwise it sleeps exactly
  while the context has unfinished tasks.
\<close>

theorem read_without_results:
  assumes "readable fp b s" "unread b s = []" "buffs s b = Some bf"
  shows "dicedev_buffer_read fp copied 8 s = (if destroyed bf then Inr (Return (Inr None) s)
    else bindR (deref (ctxs s) (buff_ctx bf)) (\<lambda>cx. Inr (if task_count cx > 0 then Block s else Return (Inr None) s)))"
  using assms by (rule read_empty)

definition closed0 :: kstate where
  "closed0 = state0\<lparr>ctxs := Map.empty, buffs := [11 \<mapsto> buff0\<lparr>destroyed := True\<rparr>]\<rparr>"

theorem read_without_results_witness: "dicedev_buffer_read 14 True 8 closed0 = Inr (Return (Inr None) closed0)"
proof -
  have "readable 14 11 closed0"
    by (simp add: readable_def backed_def buffer_pages_def page_words_def closed0_def state0_def buff0_def table0_def dev0_def)
  moreover have "unread 11 closed0 = []" "buffs closed0 11 = Some (buff0\<lparr>destroyed := True\<rparr>)"
    by (simp_all add: unread_def closed0_def buff0_def)
  ultimately show ?thesis using read_without_results [of 14 11 closed0 "buff0\<lparr>destroyed := True\<rparr>" True] by simp
qed

text \<open>
  C27. Creating a buffer and releasing its file gives back everything: the pages, the page table
  and the buffer structure. When the creation fails it leaves no page, table or file behind.
\<close>

theorem buffer_init_release_roundtrip:
  assumes "kmem_ok (mem s)" "unat sz \<le> 0x400000" "ctxs s c = Some cx" "devs s (ctx_dev cx) = Some dv" "buffs s b = Some bf"
    and "drains E" "\<not> slock dv" "\<not> feed_lock dv" "slots_ok (ctx_dev cx) (s\<lparr>buffs := (buffs s)(b := None)\<rparr>)"
    and "dom (pts s) \<subseteq> {..<next_ptr (mem s)}" "dom (files s) \<subseteq> {..<next_ptr (mem s)}"
  shows "\<exists>r s'. dicedev_buffer_init E c b sz allow s = Inr (r, s') \<and> (case r of
      Inl e \<Rightarrow> e = ENOMEM \<and> page_mem (mem s') = page_mem (mem s) \<and> pts s' = pts s \<and> files s' = files s
    | Inr _ \<Rightarrow> \<exists>fp s''. files s' fp = Some \<lparr>private_data = PrivBuff b, f_count = 2\<rparr> \<and> dicedev_buffer_release E fp s' = Inr s'' \<and>
        page_mem (mem s'') = page_mem (mem s) \<and> pts s'' = pts s \<and> devs s'' = devs s \<and> buffs s'' = (buffs s)(b := None))"
proof -
  obtain r s' where run: "dicedev_buffer_init E c b sz allow s = Inr (r, s')" and k: "same_kernel s s'"
    and out: "case r of Inl e \<Rightarrow> e = ENOMEM \<and> page_mem (mem s') = page_mem (mem s) \<and> pts s' = pts s \<and> files s' = files s
      | Inr _ \<Rightarrow> buffer_made E c b sz allow s s'"
    using buffer_init_spec [OF assms(1-5), of E allow] by (fastforce split: sum.splits)
  show ?thesis
  proof (cases r)
    case (Inl e)
    then show ?thesis using run out by simp
  next
    case (Inr u)
    then have "buffer_made E c b sz allow s s'" using out by simp
    then obtain tp fp t ep qs where m: "next_ptr (mem s) \<le> tp" "pts s' = (pts s)(tp \<mapsto> t)"
        "files s' = (files s)(fp \<mapsto> \<lparr>private_data = PrivBuff b, f_count = 2\<rparr>)"
        "buffs s' = (buffs s)(b \<mapsto> fresh_buffer c (ctx_dev cx) tp fp allow bf)"
        "pt_owns E (mem s') t ep qs" "page_mem (mem s') |` (- set (ep # qs)) = page_mem (mem s)"
      using buffer_madeE [OF _ assms(3,5)] by metis
    let ?bf = "fresh_buffer c (ctx_dev cx) tp fp allow bf"
    have bf: "buff_dev ?bf = ctx_dev cx" "buff_pt ?bf = tp" "binded_slot ?bf = -1" by (simp_all add: fresh_buffer_def)
    have d: "devs s' = devs s" using k by (simp add: same_kernel_def)
    have ok: "slots_ok (ctx_dev cx) s'"
      using slots_ok_add [OF assms(9) bf(3)] slots_ok_cong [of "s\<lparr>buffs := (buffs s)(b \<mapsto> ?bf)\<rparr>" "ctx_dev cx" dv s' dv] assms(4) d m(4)
      by simp
    have "dicedev_buffer_release E fp s' = Inr (s'\<lparr>devs := (devs s')(buff_dev ?bf \<mapsto> if binded_slot ?bf \<noteq> -1 then dev_unbound E ?bf dv else dv),
        buffs := (buffs s')(b := None), mem := (mem s')\<lparr>page_mem := page_mem (mem s') |` (- set (ep # qs))\<rparr>,
        pts := (pts s')(buff_pt ?bf := None)\<rparr>)"
      by (rule buffer_release_run [where f = "\<lparr>private_data = PrivBuff b, f_count = 2\<rparr>" and t = t]) (use m bf d ok assms in simp_all)
    moreover have "pts s tp = None" using m(1) assms(10) by (meson domIff lessThan_iff not_le subsetD)
    ultimately show ?thesis using Inr run m bf d assms(4)
      by (auto simp del: set_simps simp: fun_upd_idem intro!: exI [of _ fp])
  qed
qed

definition pre0 :: kstate where
  "pre0 = state0\<lparr>mem := (mem state0)\<lparr>next_ptr := 30\<rparr>, buffs := (buffs state0)(29 \<mapsto> buff0)\<rparr>"

theorem buffer_init_release_roundtrip_witness:
  "\<exists>u s' fp s''. dicedev_buffer_init env0 12 29 8192 7 pre0 = Inr (Inr u, s') \<and> dicedev_buffer_release env0 fp s' = Inr s'' \<and>
     page_mem (mem s'') = page_mem (mem state0) \<and> buffs s'' = buffs state0"
proof -
  have k: "kmem_ok (mem pre0)" by (auto simp: kmem_ok_def pre0_def state0_def split: if_splits)
  have "slots_ok 10 (pre0\<lparr>buffs := (buffs pre0)(29 := None)\<rparr>) = slots_ok 10 state0"
    by (rule slots_ok_cong [of _ _ dev0 _ dev0]) (auto simp: pre0_def state0_def)
  then have ok: "slots_ok 10 (pre0\<lparr>buffs := (buffs pre0)(29 := None)\<rparr>)" using slot_inv_state0 by (simp add: slot_inv_def)
  have p: "ctxs pre0 12 = Some ctx0" "devs pre0 (ctx_dev ctx0) = Some dev0" "buffs pre0 29 = Some buff0"
      "dom (pts pre0) \<subseteq> {..<next_ptr (mem pre0)}" "dom (files pre0) \<subseteq> {..<next_ptr (mem pre0)}"
      "slots_ok (ctx_dev ctx0) (pre0\<lparr>buffs := (buffs pre0)(29 := None)\<rparr>)"
    using ok by (auto simp: pre0_def state0_def ctx0_def split: if_splits)
  have sz: "unat (8192 :: u64) \<le> 0x400000" "drains env0" by simp_all
  note rt = buffer_init_release_roundtrip [OF k sz(1) p(1-3) sz(2) dev0_sel(2,3) p(6,4,5), of 7]
  from rt obtain r s' where r: "dicedev_buffer_init env0 12 29 8192 7 pre0 = Inr (r, s')" by blast
  obtain u where "r = Inr u" using buffer_init_alloc_ok [OF _ r] by (auto simp: env0_def)
  moreover have "(buffs pre0)(29 := None) = buffs state0" "page_mem (mem pre0) = page_mem (mem state0)"
    by (auto simp: pre0_def state0_def fun_eq_iff)
  ultimately show ?thesis using rt r by auto
qed

text \<open>
  A page fault in a mapping of a buffer is served with the buffer's page at that offset, and
  gives \<open>VM_FAULT_SIGBUS\<close> exactly when the offset is past the end; it never reads outside
  the page array.
\<close>

theorem mapped_pages:
  assumes "files s fp = Some f" "private_data f = PrivBuff b" "backed s b" "buffs s b = Some bf" "pts s (buff_pt bf) = Some t"
    "num_pages t = length (pages t)"
  shows "dicedev_buffer_mmap fp s = Inr (Inr b, s) \<and> dicedev_buffer_vm_fault b pgoff s =
    Inr (if pgoff < length (buffer_pages s b) then page (buffer_pages s b ! pgoff) else None)"
proof -
  have p: "buffer_pages s b = pages t" using assms(4,5) by (simp add: buffer_pages_def)
  have "dicedev_buffer_vm_fault b pgoff s = Inr (page (pages t ! pgoff))" if lt: "pgoff < length (pages t)"
  proof -
    obtain a where "page (pages t ! pgoff) = Some a" using backed_page [OF assms(3), of pgoff] lt p by metis
    then show ?thesis using lt assms(4-6) by (simp add: dicedev_buffer_vm_fault_def del: bindR_eq_Inr)
  qed
  then show ?thesis using assms p by (simp add: dicedev_buffer_mmap_def as_buff_def) (simp add: dicedev_buffer_vm_fault_def)
qed

theorem mapped_pages_witness:
  "dicedev_buffer_vm_fault 11 0 state0 = Inr (Some 17) \<and> dicedev_buffer_vm_fault 11 1 state0 = Inr None"
proof -
  have b: "backed state0 11" "buffer_pages state0 11 = [mk_page env0 17]"
    by (simp_all add: backed_def buffer_pages_def page_words_def state0_def buff0_def table0_def)
  note m = mapped_pages [of state0 14 "\<lparr>private_data = PrivBuff 11, f_count = 2\<rparr>" 11 buff0 table0]
  show ?thesis using m [of 0] m [of 1] b by (simp add: state0_def) (simp add: buff0_def table0_def)
qed

text \<open>
  C28. A write whose commands cannot be copied from the program's memory, or for which memory is
  short, does not return an error: the error path wakes the wait queue of a task that does not
  exist, through a pointer that is uninitialised or NULL. Every other write to a usable buffer
  queues its task and returns the number of bytes.
\<close>

theorem write_error_path_faults:
  assumes "usable fp b bf cx dv s" "count mod 4 = 0"
  shows "dicedev_buffer_write E fp ubuf count s =
    (if \<not> alloc_ok E (clock (mem s)) then Inl WILD
     else case ubuf of None \<Rightarrow> Inl WILD
       | Some u \<Rightarrow> if alloc_ok E (Suc (clock (mem s))) then Inr (Inr count, write_queued b bf cx dv u count s) else Inl NULL_DEREF)"
  using assms by (rule write_run)

theorem write_error_path_faults_witness: "dicedev_buffer_write env0 14 None 8 state0 = Inl WILD"
  using write_error_path_faults [of 14 11 buff0 ctx0 dev0 state0 8 env0 None]
  by (simp add: usable_def env0_def state0_def)

text \<open>
  C29. Changing the seed of a buffer tells the device nothing. The device learns the seed when the
  buffer is bound to a slot, so as long as the buffer keeps its slot, the next task that uses
  it runs without the slot being bound again, whatever the new seed.
\<close>

theorem seed_change_ignored_while_bound:
  assumes "files s fp = Some f" "private_data f = PrivBuff b" "buffs s b = Some bf" "devs s (wt_dev w) = Some dv"
    and "next_task w = Some tp" "tasks s tp = Some t" "t_buff_out t = b" "binded_slot bf \<noteq> -1" "\<not> slock dv"
    and "fence_state dv = DICEDEV_FENCE_STATE_NONE" "\<not> should_stop (wt_thread dv)" "\<not> should_park (wt_thread dv)"
  shows "\<exists>s'. dicedev_buffer_ioctl fp DICEDEV_BUFFER_IOCTL_SEED (Some \<lparr>ioctl_seed = x\<rparr>) s = Inr (Inr (), s') \<and>
    devs s' = devs s \<and> map_option seed (buffs s' b) = Some (ucast x) \<and> wt_get_event w s' = Inr (WT_EVENT_TASK_RUN, s')"
proof -
  let ?s = "s\<lparr>buffs := (buffs s)(b \<mapsto> bf\<lparr>seed_chg := True, seed := ucast x\<rparr>)\<rparr>"
  have "dicedev_buffer_ioctl fp DICEDEV_BUFFER_IOCTL_SEED (Some \<lparr>ioctl_seed = x\<rparr>) s = Inr (Inr (), ?s)"
    using assms by (simp add: dicedev_buffer_ioctl_def as_buff_def del: bindR_eq_Inr)
  moreover have "wt_get_event w ?s = Inr (WT_EVENT_TASK_RUN, ?s)"
    using assms by (cases s) (simp add: wt_get_event_def fun_upd_idem del: bindR_eq_Inr)
  ultimately show ?thesis by simp
qed

theorem seed_change_ignored_while_bound_witness:
  "\<exists>s'. dicedev_buffer_ioctl 14 DICEDEV_BUFFER_IOCTL_SEED (Some \<lparr>ioctl_seed = 7\<rparr>) (queued0 [4]) = Inr (Inr (), s') \<and>
    wt_get_event (w0\<lparr>next_task := Some 20\<rparr>) s' = Inr (WT_EVENT_TASK_RUN, s')"
  using seed_change_ignored_while_bound [of "queued0 [4]" 14 "\<lparr>private_data = PrivBuff 11, f_count = 2\<rparr>" 11 bound_buff0
      "w0\<lparr>next_task := Some 20\<rparr>" queued_dev0 20 "task0 [4]" 7]
  by (simp add: queued0_def job0_def bound0_def state0_def w0_def task0_def queued_dev0_def bound_dev0_def bound_buff0_def dev0_def)
    blast

end
