(* ===== verification/Dicedev_Base.thy ===== *)
theory Dicedev_Base
  imports Dicedev_Buffer
begin

text \<open>
  The character device, its ioctl handlers, the interrupt handler and the PCI driver
  (\<^verbatim>\<open>dicedev_base.c\<close>).
\<close>

section \<open>The character device\<close>

definition DICEDEV_MAX_DEVICES :: nat where [simp]: "DICEDEV_MAX_DEVICES = 256"
definition DICEDEV_MAX_BUFFER_SIZE :: int where [simp]: "DICEDEV_MAX_BUFFER_SIZE = int DICEDEV_PAGE_SIZE * 1024"
definition DICEDEV_MAX_ALLOWED :: u64 where "DICEDEV_MAX_ALLOWED = push_bit 33 1 - 1"

text \<open>The file is the one the kernel has just made for the \<open>open\<close> call on device \<open>d\<close>.\<close>

definition dicedev_open :: "env \<Rightarrow> ptr \<Rightarrow> ptr \<Rightarrow> kstate \<Rightarrow> unit syscall" where
  "dicedev_open E d fp s = (case kmalloc E s of
     (None, s) \<Rightarrow> Inr (Inl ENOMEM, s)
   | (Some c, s) \<Rightarrow> bindR (deref (files s) fp) (\<lambda>f.
       Inr (Inr (), s\<lparr>ctxs := (ctxs s)(c \<mapsto> \<lparr>ctx_dev = d, ctx_failed = False, task_count = 0, wq = 0, allocated_buffers = []\<rparr>),
         files := (files s)(fp \<mapsto> f\<lparr>private_data := PrivCtx c\<rparr>)\<rparr>)))"

text \<open>The kernel drops a reference to a buffer file, and releases the file with the last one.\<close>

definition fput :: "env \<Rightarrow> ptr \<Rightarrow> kstate \<Rightarrow> kstate result" where
  "fput E fp s = bindR (deref (files s) fp) (\<lambda>f.
     if f_count f = 0 then Inl WILD
     else if f_count f = 1
     then bindR (dicedev_buffer_release E fp s) (\<lambda>s. Inr (s\<lparr>files := (files s)(fp := None)\<rparr>))
     else Inr (s\<lparr>files := (files s)(fp \<mapsto> f\<lparr>f_count := f_count f - 1\<rparr>)\<rparr>))"

text \<open>The three parts of \<open>dicedev_release\<close>: marking the buffers, waiting, and closing them.\<close>

fun mark_destroyed :: "ptr list \<Rightarrow> kstate \<Rightarrow> kstate result" where
  "mark_destroyed [] s = Inr s"
| "mark_destroyed (b # bs) s = bindR (modify_buff b (\<lambda>bf. bf\<lparr>destroyed := True\<rparr>) s) (mark_destroyed bs)"

definition close_buffer :: "env \<Rightarrow> ptr \<Rightarrow> ptr \<Rightarrow> ptr \<Rightarrow> kstate \<Rightarrow> kstate result" where
  "close_buffer E d c b s = bindR (spin_lock_irqsave d s) (\<lambda>s.
     bindR (deref (buffs s) b) (\<lambda>bf.
     bindR (if binded_slot bf \<noteq> DICEDEV_BUFFER_NO_SLOT then unbind_slot E d b s else Inr s) (\<lambda>s.
     bindR (spin_unlock_irqrestore d s) (\<lambda>s.
     bindR (modify_ctx c (\<lambda>cx. cx\<lparr>allocated_buffers := remove1 b (allocated_buffers cx)\<rparr>) s) (\<lambda>s.
     fput E (buff_file bf) s)))))"

fun close_buffers :: "env \<Rightarrow> ptr \<Rightarrow> ptr \<Rightarrow> ptr list \<Rightarrow> kstate \<Rightarrow> kstate result" where
  "close_buffers E d c [] s = Inr s"
| "close_buffers E d c (b # bs) s = bindR (close_buffer E d c b s) (close_buffers E d c bs)"

definition dicedev_release_wait :: "env \<Rightarrow> ptr \<Rightarrow> kstate \<Rightarrow> unit outcome result" where
  "dicedev_release_wait E c s = bindR (deref (ctxs s) c) (\<lambda>cx.
     if task_count cx > 0 then Inr (Block s)
     else bindR (close_buffers E (ctx_dev cx) c (allocated_buffers cx) s) (\<lambda>s.
       Inr (Return (Inr ()) (s\<lparr>ctxs := (ctxs s)(c := None)\<rparr>))))"

definition as_ctx :: "private_data \<Rightarrow> ptr result" where
  "as_ctx p = (case p of PrivCtx c \<Rightarrow> Inr c | PrivNull \<Rightarrow> Inl NULL_DEREF | _ \<Rightarrow> Inl WILD)"

definition dicedev_release :: "env \<Rightarrow> ptr \<Rightarrow> kstate \<Rightarrow> unit outcome result" where
  "dicedev_release E fp s = bindR (deref (files s) fp) (\<lambda>f.
     bindR (as_ctx (private_data f)) (\<lambda>c.
     bindR (deref (ctxs s) c) (\<lambda>cx.
     bindR (spin_lock_irqsave (ctx_dev cx) s) (\<lambda>s.
     bindR (mark_destroyed (allocated_buffers cx) s) (\<lambda>s.
     bindR (spin_unlock_irqrestore (ctx_dev cx) s) (\<lambda>s.
     dicedev_release_wait E c s))))))"

section \<open>The ioctl handlers\<close>

definition zero_buffer :: dicedev_buffer where
  "zero_buffer = \<lparr>buff_pt = 0, buff_dev = 0, buff_ctx = 0, buff_file = 0, destroyed = False, seed = 0, seed_chg = False,
     allowed = 0, usage_count = 0, binded_slot = 0, reader = \<lparr>reader_result_count = 0, reader_offset = 0\<rparr>\<rparr>"

text \<open>The end of \<open>dicedev_ioctl_create_set\<close>, from \<open>dicedev_buffer_get_fd\<close> on.\<close>

definition create_set_install :: "env \<Rightarrow> errno + int \<Rightarrow> ptr \<Rightarrow> ptr \<Rightarrow> kstate \<Rightarrow> int syscall" where
  "create_set_install E newfd c b s = bindR (dicedev_buffer_get_fd newfd b s) (\<lambda>(r, s). case r of
     Inl e \<Rightarrow> bindR (dicedev_buffer_destroy E b s) (\<lambda>s. Inr (Inl e, s\<lparr>buffs := (buffs s)(b := None)\<rparr>))
   | Inr fd \<Rightarrow> bindR (modify_ctx c (\<lambda>cx. cx\<lparr>allocated_buffers := b # allocated_buffers cx\<rparr>) s) (\<lambda>s. Inr (Inr fd, s)))"

definition dicedev_ioctl_create_set ::
    "env \<Rightarrow> errno + int \<Rightarrow> ptr \<Rightarrow> dicedev_ioctl_create_set option \<Rightarrow> kstate \<Rightarrow> int syscall" where
  "dicedev_ioctl_create_set E newfd c arg s = (case arg of
     None \<Rightarrow> Inr (Inl EFAULT, s)
   | Some cs \<Rightarrow>
       if cs_size cs < 0 \<or> cs_size cs > DICEDEV_MAX_BUFFER_SIZE then Inr (Inl EINVAL, s)
       else if cs_allowed cs > DICEDEV_MAX_ALLOWED then Inr (Inl EINVAL, s)
       else (case kmalloc E s of
         (None, s) \<Rightarrow> Inr (Inl ENOMEM, s)
       | (Some b, s) \<Rightarrow>
           let s = s\<lparr>buffs := (buffs s)(b \<mapsto> zero_buffer)\<rparr> in
           bindR (dicedev_buffer_init E c b (word_of_int (cs_size cs)) (cs_allowed cs) s) (\<lambda>(r, s).
           case r of
             Inl e \<Rightarrow> Inr (Inl ENOMEM, s\<lparr>buffs := (buffs s)(b := None)\<rparr>)
           | Inr _ \<Rightarrow> create_set_install E newfd c b s)))"

text \<open>\<open>fdget\<close> of a descriptor that is not open gives a NULL file.\<close>

definition fd_private :: "int \<Rightarrow> kstate \<Rightarrow> private_data result" where
  "fd_private fd s = bindR (not_null (fds s fd)) (\<lambda>fp. bindR (deref (files s) fp) (\<lambda>f. Inr (private_data f)))"

definition new_run :: "ptr \<Rightarrow> ptr \<Rightarrow> ptr \<Rightarrow> dicedev_ioctl_run \<Rightarrow> dicedev_task" where
  "new_run c cb db r = \<lparr>t_ctx = c, t_result_count = 0, t_buff_out = db, t_body = DICEDEV_TASK_TYPE_RUN
     \<lparr>r_cBuff = cb, r_offset = ucast (run_addr r), r_size = ucast (run_size r), r_curr_pg = None, r_curr_pg_no = 0,
       r_curr_pg_off = 0, r_bytes_left = 0\<rparr>\<rparr>"

definition dicedev_ioctl_run :: "env \<Rightarrow> ptr \<Rightarrow> dicedev_ioctl_run option \<Rightarrow> kstate \<Rightarrow> int syscall" where
  "dicedev_ioctl_run E c arg s = (case arg of
     None \<Rightarrow> Inr (Inl EFAULT, s)
   | Some r \<Rightarrow>
       if run_addr r mod 4 \<noteq> 0 \<or> run_size r mod 4 \<noteq> 0 then Inr (Inl EINVAL, s)
       else bindR (fd_private (run_cfd r) s) (\<lambda>cp. bindR (fd_private (run_bfd r) s) (\<lambda>dp.
       if cp = PrivNull \<or> dp = PrivNull then Inr (Inl EINVAL, s)
       else bindR (as_buff cp) (\<lambda>cb. bindR (deref (buffs s) cb) (\<lambda>cbf.
       bindR (deref (pts s) (buff_pt cbf)) (\<lambda>t.
       if (ucast (run_addr r) :: u64) + ucast (run_size r) > max_size t then Inr (Inl EINVAL, s)
       else if buff_ctx cbf \<noteq> c then Inr (Inl EINVAL, s)
       else bindR (as_buff dp) (\<lambda>db. bindR (deref (buffs s) db) (\<lambda>dbf.
       if buff_ctx dbf \<noteq> c then Inr (Inl EINVAL, s)
       else bindR (deref (ctxs s) c) (\<lambda>cx.
       if ctx_failed cx then Inr (Inl EIO, s)
       else (case kmalloc E s of
         (None, s) \<Rightarrow> Inr (Inl ENOMEM, s)
       | (Some tp, s) \<Rightarrow>
           bindR (spin_lock_irqsave (buff_dev dbf) s) (\<lambda>s.
           bindR (modify_ctx c (\<lambda>cx. cx\<lparr>task_count := task_count cx + 1\<rparr>) s) (\<lambda>s.
           bindR (spin_unlock_irqrestore (buff_dev dbf) s) (\<lambda>s.
           bindR (dicedev_wt_add_task c tp (s\<lparr>tasks := (tasks s)(tp \<mapsto> new_run c cb db r)\<rparr>)) (\<lambda>s.
           Inr (Inr 0, s)))))))))))))))"

definition dicedev_ioctl_wait :: "ptr \<Rightarrow> dicedev_ioctl_wait option \<Rightarrow> kstate \<Rightarrow> int outcome result" where
  "dicedev_ioctl_wait c arg s = (case arg of
     None \<Rightarrow> Inr (Return (Inl EFAULT) s)
   | Some w \<Rightarrow> bindR (deref (ctxs s) c) (\<lambda>cx.
       if ucast (wait_cnt w) < task_count cx then Inr (Block s)
       else if ctx_failed cx then Inr (Return (Inl EIO) s)
       else Inr (Return (Inr 0) s)))"

definition dicedev_ioctl_seed_increment :: "ptr \<Rightarrow> dicedev_ioctl_seed_increment option \<Rightarrow> kstate \<Rightarrow> int syscall" where
  "dicedev_ioctl_seed_increment c arg s = (case arg of
     None \<Rightarrow> Inr (Inl EFAULT, s)
   | Some si \<Rightarrow>
       if enable_increment si \<noteq> 0 \<and> enable_increment si \<noteq> 1 then Inr (Inl EINVAL, s)
       else bindR (deref (ctxs s) c) (\<lambda>cx.
         bindR (spin_lock_irqsave (ctx_dev cx) s) (\<lambda>s.
         bindR (dicedev_iow (ctx_dev cx) DICEDEV_INCREMENT_SEED (enable_increment si) s) (\<lambda>s.
         bindR (spin_unlock_irqrestore (ctx_dev cx) s) (\<lambda>s. Inr (Inr 0, s))))))"

text \<open>
  The user memory at the argument of an ioctl, read as each of the structures; \<open>None\<close> when the
  address faults. \<open>newfd\<close> is what \<open>get_unused_fd_flags\<close> returns.
\<close>

record user_arg =
  as_create_set :: "dicedev_ioctl_create_set option"
  as_run :: "dicedev_ioctl_run option"
  as_wait :: "dicedev_ioctl_wait option"
  as_seed_increment :: "dicedev_ioctl_seed_increment option"

definition returns :: "'a syscall \<Rightarrow> 'a outcome result" where
  "returns m = bindR m (\<lambda>(r, s). Inr (Return r s))"

definition dicedev_ioctl :: "env \<Rightarrow> errno + int \<Rightarrow> ptr \<Rightarrow> u32 \<Rightarrow> user_arg \<Rightarrow> kstate \<Rightarrow> int outcome result" where
  "dicedev_ioctl E newfd fp cmd arg s = bindR (deref (files s) fp) (\<lambda>f.
     bindR (as_ctx (private_data f)) (\<lambda>c.
     if cmd = DICEDEV_IOCTL_CREATE_SET then returns (dicedev_ioctl_create_set E newfd c (as_create_set arg) s)
     else if cmd = DICEDEV_IOCTL_RUN then returns (dicedev_ioctl_run E c (as_run arg) s)
     else if cmd = DICEDEV_IOCTL_WAIT then dicedev_ioctl_wait c (as_wait arg) s
     else if cmd = DICEDEV_IOCTL_ENABLE_SEED_INCREMENT
     then returns (dicedev_ioctl_seed_increment c (as_seed_increment arg) s)
     else Inr (Return (Inl EINVAL) s)))"

section \<open>The interrupt handler\<close>

definition dicedev_ctx_fail :: "ptr \<Rightarrow> kstate \<Rightarrow> kstate result" where
  "dicedev_ctx_fail c s = modify_ctx c (\<lambda>cx. cx\<lparr>ctx_failed := True\<rparr>) s"

text \<open>The result says whether the interrupt was for this device.\<close>

definition dicedev_isr :: "env \<Rightarrow> ptr \<Rightarrow> kstate \<Rightarrow> (bool \<times> kstate) result" where
  "dicedev_isr E d s = bindR (spin_lock_irqsave d s) (\<lambda>s.
     bindR (dicedev_ior E d DICEDEV_INTR s) (\<lambda>(i, s).
     bindR (dicedev_ior E d DICEDEV_INTR_ENABLE s) (\<lambda>(en, s).
     let istatus = i AND en in
     bindR (if istatus = 0 then Inr s
       else bindR (dicedev_iow d DICEDEV_INTR istatus s) (\<lambda>s.
         bindR (deref (devs s) d) (\<lambda>dv.
         bindR (if istatus AND (DICEDEV_INTR_CMD_ERROR OR DICEDEV_INTR_MEM_ERROR) = 0 then Inr s
           else bindR (bug_on (running_task dv = None)) (\<lambda>_.
             bindR (not_null (running_task dv)) (\<lambda>tp.
             bindR (deref (tasks s) tp) (\<lambda>t. dicedev_ctx_fail (t_ctx t) s)))) (\<lambda>s.
         if istatus AND DICEDEV_INTR_FENCE_WAIT = 0 then Inr s
         else bindR (bug_on (running_task dv = None)) (\<lambda>_.
           bindR (modify_dev d (\<lambda>dv. dv\<lparr>fence_state := DICEDEV_FENCE_STATE_REACHED\<rparr>) s) (\<lambda>s.
           wake_up_event_cond d s)))))) (\<lambda>s.
     bindR (spin_unlock_irqrestore d s) (\<lambda>s. Inr (istatus \<noteq> 0, s))))))"

section \<open>Executing the handlers\<close>

text \<open>The enabled interrupts that the handler finds, and the accesses it makes to find and clear them.\<close>

definition isr_status :: "env \<Rightarrow> dicedev_device \<Rightarrow> u32" where
  "isr_status E dv = (let i = ioread E (bar dv) DICEDEV_INTR in
     i AND ioread E (bar dv @ [IoRead DICEDEV_INTR i]) DICEDEV_INTR_ENABLE)"

definition isr_bar :: "env \<Rightarrow> dicedev_device \<Rightarrow> mmio list" where
  "isr_bar E dv = (let i = ioread E (bar dv) DICEDEV_INTR; h = bar dv @ [IoRead DICEDEV_INTR i];
       h' = h @ [IoRead DICEDEV_INTR_ENABLE (ioread E h DICEDEV_INTR_ENABLE)]
     in if isr_status E dv = 0 then h' else h' @ [IoWrite DICEDEV_INTR (isr_status E dv)])"

definition isr_error :: "env \<Rightarrow> dicedev_device \<Rightarrow> bool" where
  "isr_error E dv \<longleftrightarrow> isr_status E dv AND (DICEDEV_INTR_CMD_ERROR OR DICEDEV_INTR_MEM_ERROR) \<noteq> 0"

definition isr_fence :: "env \<Rightarrow> dicedev_device \<Rightarrow> bool" where
  "isr_fence E dv \<longleftrightarrow> isr_status E dv AND DICEDEV_INTR_FENCE_WAIT \<noteq> 0"

lemma isr_error_status: "isr_error E dv \<Longrightarrow> isr_status E dv \<noteq> 0" "isr_fence E dv \<Longrightarrow> isr_status E dv \<noteq> 0"
  by (auto simp: isr_error_def isr_fence_def)

definition isr_dev :: "env \<Rightarrow> dicedev_device \<Rightarrow> dicedev_device" where
  "isr_dev E dv = (let dv' = dv\<lparr>bar := isr_bar E dv\<rparr> in if isr_fence E dv
     then dv'\<lparr>fence_state := DICEDEV_FENCE_STATE_REACHED, event_cond := Suc (event_cond dv)\<rparr> else dv')"

definition failed_ctxs :: "kstate \<Rightarrow> ptr \<Rightarrow> ptr \<rightharpoonup> dicedev_context" where
  "failed_ctxs s tp = (case tasks s tp of None \<Rightarrow> ctxs s
     | Some t \<Rightarrow> (ctxs s)(t_ctx t := map_option (\<lambda>cx. cx\<lparr>ctx_failed := True\<rparr>) (ctxs s (t_ctx t))))"

lemmas isr_defs = isr_dev_def isr_bar_def isr_error_def isr_fence_def isr_status_def Let_def

lemma isr_run:
  assumes "devs s d = Some dv" "\<not> slock dv" "running_task dv = Some tp" "tasks s tp = Some t" "ctxs s (t_ctx t) = Some cx"
  shows "dicedev_isr E d s = Inr (isr_status E dv \<noteq> 0, s\<lparr>devs := (devs s)(d \<mapsto> isr_dev E dv),
    ctxs := if isr_error E dv then (ctxs s)(t_ctx t \<mapsto> cx\<lparr>ctx_failed := True\<rparr>) else ctxs s\<rparr>)"
  using assms
  by (cases s; cases dv) (simp add: dicedev_isr_def dicedev_ior_def dicedev_iow_def dicedev_ctx_fail_def isr_defs del: bindR_eq_Inr)

lemma isr_idle_run:
  assumes "devs s d = Some dv" "\<not> slock dv" "running_task dv = None"
  shows "dicedev_isr E d s = (if isr_error E dv \<or> isr_fence E dv then Inl BUG
    else Inr (isr_status E dv \<noteq> 0, s\<lparr>devs := (devs s)(d \<mapsto> isr_dev E dv)\<rparr>))"
  using assms
  by (cases s; cases dv) (simp add: dicedev_isr_def dicedev_ior_def dicedev_iow_def dicedev_ctx_fail_def isr_defs del: bindR_eq_Inr)

subsection \<open>Queueing a run\<close>

definition names_buffer :: "int \<Rightarrow> ptr \<Rightarrow> dicedev_buffer \<Rightarrow> kstate \<Rightarrow> bool" where
  "names_buffer fd b bf s \<longleftrightarrow> (\<exists>fp f. fds s fd = Some fp \<and> files s fp = Some f \<and> private_data f = PrivBuff b \<and> buffs s b = Some bf)"

definition run_queued :: "ptr \<Rightarrow> ptr \<Rightarrow> ptr \<Rightarrow> dicedev_ioctl_run \<Rightarrow> dicedev_context \<Rightarrow> dicedev_device \<Rightarrow> kstate \<Rightarrow> kstate" where
  "run_queued c cb db r cx dv s = (let tp = next_ptr (mem s) in
     s\<lparr>mem := (mem s)\<lparr>next_ptr := Suc tp, clock := Suc (clock (mem s))\<rparr>,
       ctxs := (ctxs s)(c \<mapsto> cx\<lparr>task_count := task_count cx + 1\<rparr>),
       tasks := (tasks s)(tp \<mapsto> new_run c cb db r),
       devs := (devs s)(ctx_dev cx \<mapsto> dv\<lparr>pending_tasks := pending_tasks dv @ [tp], event_cond := Suc (event_cond dv)\<rparr>)\<rparr>)"

text \<open>The sum of two 32-bit numbers does not wrap around in 64 bits.\<close>

lemma sum_no_wrap: "unat ((ucast a :: u64) + ucast b) = unat a + unat b" for a b :: u32
proof -
  have "unat a < 2 ^ 32" "unat b < 2 ^ 32" using unsigned_less [of a] unsigned_less [of b] by simp_all
  then show ?thesis using unat_add_lem [of "ucast a :: u64" "ucast b"] by (simp add: unat_widen)
qed

definition run_refused :: "ptr \<Rightarrow> dicedev_ioctl_run \<Rightarrow> dicedev_buffer \<Rightarrow> dicedev_buffer \<Rightarrow> dicedev_page_table \<Rightarrow> bool" where
  "run_refused c r cbf dbf t \<longleftrightarrow> run_addr r mod 4 \<noteq> 0 \<or> run_size r mod 4 \<noteq> 0 \<or> unat (max_size t) < unat (run_addr r) + unat (run_size r) \<or>
     buff_ctx cbf \<noteq> c \<or> buff_ctx dbf \<noteq> c"

lemma run_run:
  assumes "names_buffer (run_cfd r) cb cbf s" "names_buffer (run_bfd r) db dbf s" "pts s (buff_pt cbf) = Some t"
    and "ctxs s c = Some cx" "buff_dev dbf = ctx_dev cx" "devs s (ctx_dev cx) = Some dv" "\<not> slock dv"
  shows "dicedev_ioctl_run E c (Some r) s = (if run_refused c r cbf dbf t then Inr (Inl EINVAL, s)
    else if ctx_failed cx then Inr (Inl EIO, s)
    else if alloc_ok E (clock (mem s)) then Inr (Inr 0, run_queued c cb db r cx dv s)
    else Inr (Inl ENOMEM, s\<lparr>mem := (mem s)\<lparr>clock := Suc (clock (mem s))\<rparr>\<rparr>))"
proof -
  have f: "fd_private (run_cfd r) s = Inr (PrivBuff cb)" "fd_private (run_bfd r) s = Inr (PrivBuff db)"
      "buffs s cb = Some cbf" "buffs s db = Some dbf"
    using assms(1,2) by (auto simp: names_buffer_def fd_private_def)
  have w: "max_size t < (ucast (run_addr r) :: u64) + ucast (run_size r) \<longleftrightarrow> unat (max_size t) < unat (run_addr r) + unat (run_size r)"
    by (simp only: word_less_nat_alt sum_no_wrap)
  show ?thesis
    using assms(3-7) f w
    by (cases s) (simp add: dicedev_ioctl_run_def run_refused_def as_buff_def kmalloc_def alloc_def run_queued_def Let_def
      add_task_run del: bindR_eq_Inr)
qed

subsection \<open>Creating a buffer\<close>

definition set_refused :: "dicedev_ioctl_create_set \<Rightarrow> bool" where
  "set_refused cs \<longleftrightarrow> cs_size cs < 0 \<or> cs_size cs > DICEDEV_MAX_BUFFER_SIZE \<or> cs_allowed cs > DICEDEV_MAX_ALLOWED"

text \<open>
  A refused or failed creation: what it may leave behind is a file structure without an owner.
\<close>

definition unchanged :: "kstate \<Rightarrow> kstate \<Rightarrow> bool" where
  "unchanged s s' \<longleftrightarrow> same_kernel s s' \<and> page_mem (mem s') = page_mem (mem s) \<and> pts s' = pts s \<and> buffs s' = buffs s \<and>
     next_ptr (mem s) \<le> next_ptr (mem s') \<and> (files s' = files s \<or> (\<exists>fp f. next_ptr (mem s) \<le> fp \<and> fp < next_ptr (mem s') \<and>
       private_data f \<in> range PrivBuff \<and> files s' = (files s)(fp \<mapsto> f)))"

text \<open>The new buffer of context \<open>c\<close>, reached through the descriptor \<open>fd\<close>.\<close>

definition set_made :: "env \<Rightarrow> ptr \<Rightarrow> dicedev_ioctl_create_set \<Rightarrow> int \<Rightarrow> kstate \<Rightarrow> kstate \<Rightarrow> bool" where
  "set_made E c cs fd s s' \<longleftrightarrow> (\<exists>cx b tp fp t. ctxs s c = Some cx \<and> next_ptr (mem s) \<le> b \<and> b < tp \<and> tp < fp \<and>
     fp < next_ptr (mem s') \<and> table_for E (mem s) (mem s') (word_of_int (cs_size cs)) t \<and> pts s' = (pts s)(tp \<mapsto> t) \<and>
     files s' = (files s)(fp \<mapsto> \<lparr>private_data = PrivBuff b, f_count = 2\<rparr>) \<and> fds s' = (fds s)(fd \<mapsto> fp) \<and>
     buffs s' = (buffs s)(b \<mapsto> fresh_buffer c (ctx_dev cx) tp fp (cs_allowed cs) zero_buffer) \<and>
     ctxs s' = (ctxs s)(c \<mapsto> cx\<lparr>allocated_buffers := b # allocated_buffers cx\<rparr>) \<and>
     devs s' = devs s \<and> tasks s' = tasks s \<and> cmds s' = cmds s)"

lemma set_size:
  assumes "\<not> set_refused cs"
  shows "unat (word_of_int (cs_size cs) :: u64) = nat (cs_size cs)" "nat (cs_size cs) \<le> 0x400000"
proof -
  have "0 \<le> cs_size cs" "cs_size cs \<le> 0x400000" using assms by (auto simp: set_refused_def)
  then show "nat (cs_size cs) \<le> 0x400000" by simp
  have "unat (word_of_int (cs_size cs) :: u64) = nat (cs_size cs mod 2 ^ 64)" by (simp add: unat_eq_nat_uint uint_word_of_int)
  with \<open>0 \<le> cs_size cs\<close> \<open>cs_size cs \<le> 0x400000\<close> show "unat (word_of_int (cs_size cs) :: u64) = nat (cs_size cs)" by simp
qed

text \<open>The end of a creation, after \<open>dicedev_buffer_init\<close> has led from \<open>s1\<close> to \<open>s2\<close>.\<close>

lemma install_ok:
  fixes s :: kstate
  defines "b \<equiv> next_ptr (mem s)"
  assumes s1: "s1 = s\<lparr>mem := (mem s)\<lparr>next_ptr := Suc b, clock := Suc (clock (mem s))\<rparr>, buffs := (buffs s)(b \<mapsto> zero_buffer)\<rparr>"
    and k: "same_kernel s1 s2" and made: "buffer_made E c b (word_of_int (cs_size cs)) (cs_allowed cs) s1 s2" and c: "ctxs s c = Some cx"
  shows "\<exists>s'. create_set_install E (Inr fd) c b s2 = Inr (Inr fd, s') \<and> mem s' = mem s2 \<and> set_made E c cs fd s s'"
proof -
  obtain tp fp t where m: "next_ptr (mem s1) \<le> tp" "tp < fp" "fp < next_ptr (mem s2)" "pts s2 = (pts s1)(tp \<mapsto> t)"
      "files s2 = (files s1)(fp \<mapsto> \<lparr>private_data = PrivBuff b, f_count = 2\<rparr>)"
      "buffs s2 = (buffs s1)(b \<mapsto> fresh_buffer c (ctx_dev cx) tp fp (cs_allowed cs) zero_buffer)"
      "table_for E (mem s1) (mem s2) (word_of_int (cs_size cs)) t"
    using made c by (auto simp: buffer_made_def s1)
  let ?s = "s2\<lparr>fds := (fds s2)(fd \<mapsto> fp), ctxs := (ctxs s2)(c \<mapsto> cx\<lparr>allocated_buffers := b # allocated_buffers cx\<rparr>)\<rparr>"
  have "create_set_install E (Inr fd) c b s2 = Inr (Inr fd, ?s)"
    using m(6) k c by (simp add: create_set_install_def dicedev_buffer_get_fd_def same_kernel_def s1 fresh_buffer_def del: bindR_eq_Inr)
  moreover have "set_made E c cs fd s ?s"
    unfolding set_made_def using m k c
    by (intro exI [of _ cx] exI [of _ b] exI [of _ tp] exI [of _ fp] exI [of _ t])
      (auto simp: same_kernel_def s1 b_def table_for_def)
  ultimately show ?thesis by simp
qed

lemma install_fails:
  fixes s :: kstate
  defines "b \<equiv> next_ptr (mem s)"
  assumes s1: "s1 = s\<lparr>mem := (mem s)\<lparr>next_ptr := Suc b, clock := Suc (clock (mem s))\<rparr>, buffs := (buffs s)(b \<mapsto> zero_buffer)\<rparr>"
    and k: "same_kernel s1 s2" "kmem_ok (mem s2)" and made: "buffer_made E c b sz allow s1 s2" and c: "ctxs s c = Some cx"
      "devs s (ctx_dev cx) = Some dv" "\<not> slock dv" "buffs s (next_ptr (mem s)) = None" "dom (pts s) \<subseteq> {..<next_ptr (mem s)}"
  shows "\<exists>s'. create_set_install E (Inl e) c b s2 = Inr (Inl e, s') \<and> kmem_ok (mem s') \<and> unchanged s s' \<and>
    (\<exists>fp. files s' fp = Some \<lparr>private_data = PrivBuff b, f_count = 2\<rparr> \<and> buffs s' b = None)"
proof -
  have s1c: "ctxs s1 c = Some cx" "buffs s1 b = Some zero_buffer" using c by (simp_all add: s1)
  obtain tp fp t ep qs where m: "next_ptr (mem s1) \<le> tp" "tp < fp" "fp < next_ptr (mem s2)" "pts s2 = (pts s1)(tp \<mapsto> t)"
      "files s2 = (files s1)(fp \<mapsto> \<lparr>private_data = PrivBuff b, f_count = 2\<rparr>)"
      "buffs s2 = (buffs s1)(b \<mapsto> fresh_buffer c (ctx_dev cx) tp fp allow zero_buffer)"
      "pt_owns E (mem s2) t ep qs" "page_mem (mem s2) |` (- set (ep # qs)) = page_mem (mem s1)"
    using buffer_madeE [OF made s1c] by metis
  let ?bf = "fresh_buffer c (ctx_dev cx) tp fp allow zero_buffer"
  let ?s = "s2\<lparr>mem := (mem s2)\<lparr>page_mem := page_mem (mem s1)\<rparr>, pts := (pts s2)(tp := None), buffs := (buffs s2)(b := None)\<rparr>"
  have bf: "buff_dev ?bf = ctx_dev cx" "buff_pt ?bf = tp" "binded_slot ?bf = -1" by (simp_all add: fresh_buffer_def)
  have "dicedev_buffer_destroy E b s2 = Inr (s2\<lparr>mem := (mem s2)\<lparr>page_mem := page_mem (mem s2) |` (- set (ep # qs))\<rparr>,
      pts := (pts s2)(buff_pt ?bf := None)\<rparr>)"
    by (rule destroy_unbound [where dv = dv and t = t]) (use m bf c k in \<open>simp_all add: same_kernel_def s1\<close>)
  then have "create_set_install E (Inl e) c b s2 = Inr (Inl e, ?s)"
    by (simp add: create_set_install_def dicedev_buffer_get_fd_def m(8) bf(2) del: bindR_eq_Inr set_simps)
  moreover have "pts s tp = None" using m(1) c(5) by (intro fresh_None) (auto simp: s1 b_def)
  then have "unchanged s ?s" using m k c(4) by (auto simp: unchanged_def same_kernel_def s1 b_def intro!: exI [of _ fp] exI [of _ "\<lparr>private_data = PrivBuff b, f_count = 2\<rparr>"])
  moreover have "kmem_ok (mem ?s)" using kmem_ok_restrict [OF k(2), of "- set (ep # qs)"] m(8) by simp
  ultimately show ?thesis using m(5) by auto
qed

lemma create_set_spec:
  assumes "kmem_ok (mem s)" "ctxs s c = Some cx" "devs s (ctx_dev cx) = Some dv" "\<not> slock dv" "buffs s (next_ptr (mem s)) = None"
    "dom (pts s) \<subseteq> {..<next_ptr (mem s)}"
  shows "\<exists>r s'. dicedev_ioctl_create_set E newfd c arg s = Inr (r, s') \<and> kmem_ok (mem s') \<and> (case r of
      Inl e \<Rightarrow> unchanged s s' \<and> (case arg of None \<Rightarrow> e = EFAULT
        | Some cs \<Rightarrow> e = (if set_refused cs then EINVAL else ENOMEM) \<or> newfd = Inl e)
    | Inr fd \<Rightarrow> newfd = Inr fd \<and> (\<exists>cs. arg = Some cs \<and> \<not> set_refused cs \<and> set_made E c cs fd s s'))"
proof (cases "\<exists>cs. arg = Some cs \<and> \<not> set_refused cs")
  case False
  then show ?thesis using assms(1)
    by (cases arg) (auto simp: dicedev_ioctl_create_set_def unchanged_def same_kernel_def set_refused_def)
next
  case True
  then obtain cs where cs: "arg = Some cs" "\<not> set_refused cs" by blast
  show ?thesis
  proof (cases rule: alloc_cases [of E s])
    case full
    then show ?thesis using assms(1) cs
      by (auto simp: dicedev_ioctl_create_set_def unchanged_def same_kernel_def set_refused_def kmem_ok_def)
  next
    case got
    let ?b = "next_ptr (mem s)"
    define s1 where "s1 = s\<lparr>mem := (mem s)\<lparr>next_ptr := Suc ?b, clock := Suc (clock (mem s))\<rparr>, buffs := (buffs s)(?b \<mapsto> zero_buffer)\<rparr>"
    have k: "kmem_ok (mem s1)" using assms(1) by (auto simp: s1_def kmem_ok_def less_SucI)
    obtain r s2 where init: "dicedev_buffer_init E c ?b (word_of_int (cs_size cs)) (cs_allowed cs) s1 = Inr (r, s2)"
        "kmem_ok (mem s2)" "same_kernel s1 s2" "next_ptr (mem s1) \<le> next_ptr (mem s2)"
      and out: "case r of Inl e \<Rightarrow> e = ENOMEM \<and> page_mem (mem s2) = page_mem (mem s1) \<and> pts s2 = pts s1 \<and> files s2 = files s1 \<and>
          (\<exists>bf'. buffs s2 = (buffs s1)(?b \<mapsto> bf'))
        | Inr _ \<Rightarrow> buffer_made E c ?b (word_of_int (cs_size cs)) (cs_allowed cs) s1 s2"
      using buffer_init_spec [OF k, of "word_of_int (cs_size cs)" c cx dv ?b zero_buffer E "cs_allowed cs"] set_size [OF cs(2)] assms(2,3)
      by (auto simp: s1_def)
    have run: "dicedev_ioctl_create_set E newfd c arg s = (case r of
             Inl e \<Rightarrow> Inr (Inl ENOMEM, s2\<lparr>buffs := (buffs s2)(?b := None)\<rparr>)
           | Inr _ \<Rightarrow> create_set_install E newfd c ?b s2)"
      using cs got init(1) by (simp add: dicedev_ioctl_create_set_def set_refused_def s1_def del: bindR_eq_Inr)
    show ?thesis
    proof (cases r)
      case (Inl e)
      let ?s = "s2\<lparr>buffs := (buffs s2)(?b := None)\<rparr>"
      have "dicedev_ioctl_create_set E newfd c arg s = Inr (Inl ENOMEM, ?s)" using run Inl by simp
      moreover have "unchanged s ?s" "kmem_ok (mem ?s)"
        using out Inl init(2-4) assms(5) by (auto simp: s1_def unchanged_def same_kernel_def)
      ultimately show ?thesis using cs by auto
    next
      case (Inr u)
      then have made: "buffer_made E c ?b (word_of_int (cs_size cs)) (cs_allowed cs) s1 s2" using out by simp
      show ?thesis
      proof (cases newfd)
        case (Inr fd)
        obtain s' where "create_set_install E (Inr fd) c ?b s2 = Inr (Inr fd, s')" "mem s' = mem s2" "set_made E c cs fd s s'"
          using install_ok [OF s1_def init(3) made assms(2), of fd] by blast
        then show ?thesis using run Inr \<open>r = Inr u\<close> init(2) cs by (intro exI [of _ "Inr fd"] exI [of _ s']) auto
      next
        case (Inl e)
        obtain s' where "create_set_install E (Inl e) c ?b s2 = Inr (Inl e, s')" "kmem_ok (mem s')" "unchanged s s'"
          using install_fails [OF s1_def init(3,2) made assms(2-6), of e] by blast
        then show ?thesis using run Inl \<open>r = Inr u\<close> cs by (intro exI [of _ "Inl e"] exI [of _ s']) auto
      qed
    qed
  qed
qed

text \<open>When its allocations succeed, so does a valid request.\<close>

lemma create_set_succeeds:
  assumes "kmem_ok (mem s)" "ctxs s c = Some cx" "devs s (ctx_dev cx) = Some dv" "\<not> slock dv" "buffs s (next_ptr (mem s)) = None"
    "dom (pts s) \<subseteq> {..<next_ptr (mem s)}" "plenty E (unat ((word_of_int (cs_size cs) + 0x1000 - 1 :: u64) div 0x1000) + 5) (mem s)" "\<not> set_refused cs"
  shows "\<exists>s'. dicedev_ioctl_create_set E (Inr fd) c (Some cs) s = Inr (Inr fd, s')"
proof -
  obtain r s' where r: "dicedev_ioctl_create_set E (Inr fd) c (Some cs) s = Inr (r, s')" "\<forall>x. r = Inr x \<longrightarrow> x = fd"
    using create_set_spec [OF assms(1-6), of E "Inr fd" "Some cs"] by (fastforce split: sum.splits)
  let ?s = "s\<lparr>mem := (mem s)\<lparr>next_ptr := Suc (next_ptr (mem s)), clock := Suc (clock (mem s))\<rparr>,
    buffs := (buffs s)(next_ptr (mem s) \<mapsto> zero_buffer)\<rparr>"
  have a: "alloc_ok E (clock (mem s))" using assms(7) by (auto simp: plenty_def dest: spec [of _ 0])
  have "plenty E (unat ((word_of_int (cs_size cs) + 0x1000 - 1 :: u64) div 0x1000) + 4) (mem ?s)"
    by (rule plenty_alloc [of E _ "mem s"]) (use assms(7) in \<open>simp_all add: eval_nat_numeral\<close>)
  note i = buffer_init_plenty [OF this]
  have "\<exists>x. r = Inr x"
    using r(1) assms(8) a
    by (auto simp: dicedev_ioctl_create_set_def set_refused_def kmalloc_def alloc_def create_set_install_def
      dicedev_buffer_get_fd_def dest!: i)
  then show ?thesis using r by auto
qed

section \<open>Properties\<close>

text \<open>
  C30. Creating a buffer never faults. It refuses a size outside 0 to 4 MiB and dice masks of more
  than 33 bits. When it returns a descriptor, the context has a new buffer of the requested
  size behind it, with zeroed pages of its own, the default seed and no slot. When it returns
  an error, no page, page table, buffer or descriptor remains.
\<close>

theorem create_set_outcome:
  assumes "kmem_ok (mem s)" "ctxs s c = Some cx" "devs s (ctx_dev cx) = Some dv" "\<not> slock dv" "buffs s (next_ptr (mem s)) = None"
    "dom (pts s) \<subseteq> {..<next_ptr (mem s)}"
  shows "\<exists>r s'. dicedev_ioctl_create_set E newfd c arg s = Inr (r, s') \<and> kmem_ok (mem s') \<and> (case r of
      Inl e \<Rightarrow> unchanged s s' \<and> (case arg of None \<Rightarrow> e = EFAULT
        | Some cs \<Rightarrow> e = (if set_refused cs then EINVAL else ENOMEM) \<or> newfd = Inl e)
    | Inr fd \<Rightarrow> newfd = Inr fd \<and> (\<exists>cs. arg = Some cs \<and> \<not> set_refused cs \<and> set_made E c cs fd s s'))"
  using assms by (rule create_set_spec)

lemma state0_ready:
  "kmem_ok (mem state0)" "devs state0 (ctx_dev ctx0) = Some dev0" "buffs state0 (next_ptr (mem state0)) = None"
  "dom (pts state0) \<subseteq> {..<next_ptr (mem state0)}"
  by (auto simp: kmem_ok_def state0_def ctx0_def split: if_splits)

theorem create_set_outcome_witness:
  "\<exists>r s'. dicedev_ioctl_create_set env0 (Inr 5) 12 (Some \<lparr>cs_size = 8192, cs_allowed = 0x3F\<rparr>) state0 = Inr (r, s') \<and> kmem_ok (mem s')"
  using create_set_outcome [OF state0_ready(1) state0_sel(2) state0_ready(2) dev0_sel(2) state0_ready(3,4)] by blast

text \<open>
  C31. The mask of allowed dice may have 33 bits, but the buffer keeps 32 of them: a program that
  asks for the die of bit 32 only gets a buffer on which no die is allowed.
\<close>

theorem create_set_cuts_allowed:
  assumes "kmem_ok (mem s)" "ctxs s c = Some cx" "devs s (ctx_dev cx) = Some dv" "\<not> slock dv" "buffs s (next_ptr (mem s)) = None"
    "dom (pts s) \<subseteq> {..<next_ptr (mem s)}" "0 \<le> sz" "sz \<le> 0x400000"
  shows "\<not> set_refused \<lparr>cs_size = sz, cs_allowed = 0x100000000\<rparr> \<and>
    (\<forall>fd s'. dicedev_ioctl_create_set E newfd c (Some \<lparr>cs_size = sz, cs_allowed = 0x100000000\<rparr>) s = Inr (Inr fd, s') \<longrightarrow>
      (\<exists>fp f b bf. fds s' fd = Some fp \<and> files s' fp = Some f \<and> private_data f = PrivBuff b \<and> buffs s' b = Some bf \<and> allowed bf = 0))"
proof (intro conjI allI impI)
  let ?cs = "\<lparr>cs_size = sz, cs_allowed = 0x100000000\<rparr> :: dicedev_ioctl_create_set"
  show "\<not> set_refused ?cs" using assms(7,8) by (simp add: set_refused_def DICEDEV_MAX_ALLOWED_def)
  fix fd s' assume "dicedev_ioctl_create_set E newfd c (Some ?cs) s = Inr (Inr fd, s')"
  then have "set_made E c ?cs fd s s'" using create_set_spec [OF assms(1-6), of E newfd "Some ?cs"] by auto
  then show "\<exists>fp f b bf. fds s' fd = Some fp \<and> files s' fp = Some f \<and> private_data f = PrivBuff b \<and> buffs s' b = Some bf \<and> allowed bf = 0"
    by (auto simp: set_made_def fresh_buffer_def)
qed

theorem create_set_cuts_allowed_witness:
  "\<exists>s' fp f b bf. dicedev_ioctl_create_set env0 (Inr 5) 12 (Some \<lparr>cs_size = 4096, cs_allowed = 0x100000000\<rparr>) state0 = Inr (Inr 5, s') \<and>
    fds s' 5 = Some fp \<and> files s' fp = Some f \<and> private_data f = PrivBuff b \<and> buffs s' b = Some bf \<and> allowed bf = 0"
proof -
  let ?cs = "\<lparr>cs_size = 4096, cs_allowed = 0x100000000\<rparr> :: dicedev_ioctl_create_set"
  note cut = create_set_cuts_allowed [OF state0_ready(1) state0_sel(2) state0_ready(2) dev0_sel(2) state0_ready(3,4),
      of 4096 env0 "Inr 5"]
  have n: "\<not> set_refused ?cs" using cut by simp
  obtain s' where r: "dicedev_ioctl_create_set env0 (Inr 5) 12 (Some ?cs) state0 = Inr (Inr 5, s')"
    using create_set_succeeds [OF state0_ready(1) state0_sel(2) state0_ready(2) dev0_sel(2) state0_ready(3,4) _ n] by (force simp: env0_def plenty_def)
  then show ?thesis using cut by auto
qed

text \<open>
  C32. A run is refused unless its address and size are multiples of 4, its end lies within the
  command buffer, and both buffers belong to the caller's context; after a failure of the
  context it returns \<open>-EIO\<close>. Otherwise it is queued as the last pending task, counted in its
  context, and the worker thread is woken. The end is computed without wrapping around.
\<close>

theorem run_outcome:
  assumes "names_buffer (run_cfd r) cb cbf s" "names_buffer (run_bfd r) db dbf s" "pts s (buff_pt cbf) = Some t"
    and "ctxs s c = Some cx" "buff_dev dbf = ctx_dev cx" "devs s (ctx_dev cx) = Some dv" "\<not> slock dv"
  shows "dicedev_ioctl_run E c (Some r) s = (if run_refused c r cbf dbf t then Inr (Inl EINVAL, s)
    else if ctx_failed cx then Inr (Inl EIO, s)
    else if alloc_ok E (clock (mem s)) then Inr (Inr 0, run_queued c cb db r cx dv s)
    else Inr (Inl ENOMEM, s\<lparr>mem := (mem s)\<lparr>clock := Suc (clock (mem s))\<rparr>\<rparr>))"
  using assms by (rule run_run)

definition run0 :: dicedev_ioctl_run where
  "run0 = \<lparr>run_cfd = 4, run_addr = 0xFFFFFFF8, run_size = 0x10, run_bfd = 4\<rparr>"

theorem run_outcome_witness: "dicedev_ioctl_run env0 12 (Some run0) state0 = Inr (Inl EINVAL, state0)"
proof -
  have n: "names_buffer 4 11 buff0 state0" by (simp add: names_buffer_def state0_def)
  have "run_refused 12 run0 buff0 buff0 table0" by (simp add: run_refused_def run0_def table0_def)
  then show ?thesis
    using run_outcome [of run0 11 buff0 state0 11 buff0 table0 12 ctx0 dev0 env0] n by (simp add: run0_def)
qed



text \<open>
  C34. The interrupt handler acknowledges exactly the enabled interrupts that are pending. With a
  task at the device, a command or memory error fails the context of that task and of no other,
  and a fence interrupt marks the task as finished and wakes the worker thread. With no task at
  the device such an interrupt is a \<open>BUG\<close>.
\<close>

theorem isr_outcome:
  assumes "devs s d = Some dv" "\<not> slock dv"
    and "\<forall>tp. running_task dv = Some tp \<longrightarrow> (\<exists>t cx. tasks s tp = Some t \<and> ctxs s (t_ctx t) = Some cx)"
  shows "dicedev_isr E d s = (case running_task dv of
      None \<Rightarrow> if isr_error E dv \<or> isr_fence E dv then Inl BUG
        else Inr (isr_status E dv \<noteq> 0, s\<lparr>devs := (devs s)(d \<mapsto> isr_dev E dv)\<rparr>)
    | Some tp \<Rightarrow> Inr (isr_status E dv \<noteq> 0, s\<lparr>devs := (devs s)(d \<mapsto> isr_dev E dv),
        ctxs := if isr_error E dv then failed_ctxs s tp else ctxs s\<rparr>))"
proof (cases "running_task dv")
  case None
  then show ?thesis using isr_idle_run [OF assms(1,2)] by simp
next
  case (Some tp)
  then obtain t cx where t: "tasks s tp = Some t" "ctxs s (t_ctx t) = Some cx" using assms(3) by blast
  then show ?thesis using isr_run [OF assms(1,2) Some t] Some by (simp add: failed_ctxs_def)
qed

definition fence_env :: env where
  "fence_env = env0\<lparr>ioread := \<lambda>h r. if r = DICEDEV_INTR then 0x1 else if r = DICEDEV_INTR_ENABLE then 0x1D else 255\<rparr>"

theorem isr_outcome_witness: "dicedev_isr fence_env 10 state0 = Inl BUG"
proof -
  have "isr_fence fence_env dev0" by (simp add: isr_fence_def isr_status_def fence_env_def Let_def abi_defs)
  then show ?thesis using isr_outcome [of state0 10 dev0 fence_env] by simp
qed

text \<open>
  C35. Waiting sleeps exactly while the context has more unfinished tasks than the given number.
  When it does not, it returns \<open>-EIO\<close> if the context has failed and 0 otherwise; either way
  it changes nothing.
\<close>

theorem wait_outcome:
  assumes "ctxs s c = Some cx" "task_count cx = of_nat n" "n < 2 ^ 64"
  shows "dicedev_ioctl_wait c (Some \<lparr>wait_cnt = k\<rparr>) s = Inr (if unat k < n then Block s
    else Return (if ctx_failed cx then Inl EIO else Inr 0) s)"
proof -
  have "unat (of_nat n :: u64) = n" using assms(3) by (rule unat_of_nat_u64)
  then have "(ucast k :: u64) < of_nat n \<longleftrightarrow> unat k < n" by (simp only: word_less_nat_alt unat_widen)
  then show ?thesis using assms(1,2) by (simp add: dicedev_ioctl_wait_def)
qed

theorem wait_outcome_witness: "dicedev_ioctl_wait 12 (Some \<lparr>wait_cnt = 0\<rparr>) (queued0 [4]) = Inr (Block (queued0 [4]))"
  using wait_outcome [of "queued0 [4]" 12 "ctx0\<lparr>task_count := 1\<rparr>" 1 0] by (simp add: queued0_def)

end
