(* ===== verification/Dicedev_Pci.thy ===== *)
theory Dicedev_Pci
  imports Dicedev_Base
begin

text \<open>
  The PCI driver of \<^verbatim>\<open>dicedev_base.c\<close>: how a device comes, goes, sleeps and wakes up, and
  how the module is loaded and unloaded.
\<close>

section \<open>Operations\<close>

text \<open>
  What the driver holds of the kernel is a list of resources, the last one first. The answers of
  the kernel's services to a probe are a record: an error, or the success of a call.
\<close>

type_synonym pci_dev = nat

datatype resource = PCI_ENABLED | PCI_REGIONS | PCI_BAR | IRQ_LINE | WORKER | CDEV | DEV_NODE

record driver =
  ks :: kstate
  dicedev_devices :: "ptr option list"
  drvdata :: "pci_dev \<rightharpoonup> ptr"
  held :: "(pci_dev \<times> resource) list"

record services =
  ret_enable :: "errno option"
  ret_dma_mask :: "errno option"
  ret_regions :: "errno option"
  ret_iomap :: bool
  ret_irq :: "errno option"
  ret_cdev :: "errno option"
  ret_node :: bool

definition acquire :: "pci_dev \<Rightarrow> resource \<Rightarrow> driver \<Rightarrow> driver" where
  "acquire pd r D = D\<lparr>held := (pd, r) # held D\<rparr>"

definition give_back :: "pci_dev \<Rightarrow> resource \<Rightarrow> driver \<Rightarrow> driver" where
  "give_back pd r D = D\<lparr>held := remove1 (pd, r) (held D)\<rparr>"

definition on_ks :: "(kstate \<Rightarrow> kstate result) \<Rightarrow> driver \<Rightarrow> driver result" where
  "on_ks f D = bindR (f (ks D)) (\<lambda>s. Inr (D\<lparr>ks := s\<rparr>))"

subsection \<open>Probing\<close>

definition zero_device :: dicedev_device where
  "zero_device = \<lparr>idx = 0, dev_node = False, bar = [], slock = False, feed_lock = False,
     fence_state = DICEDEV_FENCE_STATE_NONE, dev_failed = False, buff_slots = replicate DICEDEV_NUM_SLOTS None, free_slots = 0,
     wt_thread = \<lparr>should_stop = False, should_park = False\<rparr>, event_cond = 0, pending_tasks = [], running_task = None\<rparr>"

text \<open>The loop that looks for a free index.\<close>

fun free_index :: "ptr option list \<Rightarrow> nat" where
  "free_index [] = 0"
| "free_index (None # ds) = 0"
| "free_index (Some _ # ds) = Suc (free_index ds)"

text \<open>The labels at the end of \<open>dicedev_probe\<close>, each falling through to the next.\<close>

definition err_max_dev :: "ptr \<Rightarrow> driver \<Rightarrow> driver result" where
  "err_max_dev d D = Inr (D\<lparr>ks := (ks D)\<lparr>devs := (devs (ks D))(d := None)\<rparr>\<rparr>)"

definition err_enable_dev :: "ptr \<Rightarrow> driver \<Rightarrow> driver result" where
  "err_enable_dev d D = bindR (deref (devs (ks D)) d) (\<lambda>dv.
     bindR (store (dicedev_devices D) (idx dv) None) (\<lambda>ds. err_max_dev d (D\<lparr>dicedev_devices := ds\<rparr>)))"

definition err_dma_mask :: "pci_dev \<Rightarrow> ptr \<Rightarrow> driver \<Rightarrow> driver result" where
  "err_dma_mask pd d D = err_enable_dev d (give_back pd PCI_ENABLED D)"

definition err_iomap :: "pci_dev \<Rightarrow> ptr \<Rightarrow> driver \<Rightarrow> driver result" where
  "err_iomap pd d D = err_dma_mask pd d (give_back pd PCI_REGIONS D)"

definition err_request_irq :: "pci_dev \<Rightarrow> ptr \<Rightarrow> driver \<Rightarrow> driver result" where
  "err_request_irq pd d D = err_iomap pd d (give_back pd PCI_BAR D)"

definition err_cdev_add :: "pci_dev \<Rightarrow> ptr \<Rightarrow> driver \<Rightarrow> driver result" where
  "err_cdev_add pd d D = bindR (on_ks (dicedev_iow d DICEDEV_ENABLE 0) D) (\<lambda>D.
     bindR (on_ks (dicedev_iow d DICEDEV_INTR_ENABLE 0) D) (\<lambda>D.
     err_request_irq pd d (give_back pd IRQ_LINE D)))"

definition failing :: "errno option \<Rightarrow> driver result \<Rightarrow> (errno option \<times> driver) result" where
  "failing e m = bindR m (\<lambda>D. Inr (e, D))"

text \<open>The defaults, the worker thread, the registers, and the loop that unbinds every slot.\<close>

fun unbind_all :: "env \<Rightarrow> ptr \<Rightarrow> nat list \<Rightarrow> kstate \<Rightarrow> kstate result" where
  "unbind_all E d [] s = Inr s"
| "unbind_all E d (i # is) s =
     bindR (feed_cmd E d [DICEDEV_USER_CMD_UNBIND_SLOT_HEADER (int i)] s) (unbind_all E d is)"

definition device_start :: "env \<Rightarrow> ptr \<Rightarrow> kstate \<Rightarrow> kstate result" where
  "device_start E d s =
     bindR (modify_dev d (\<lambda>dv. dv\<lparr>fence_state := DICEDEV_FENCE_STATE_NONE, dev_failed := False,
       buff_slots := replicate DICEDEV_NUM_SLOTS None, free_slots := of_nat DICEDEV_NUM_SLOTS\<rparr>) s) (\<lambda>s.
     bindR (dicedev_wt_init d s) (\<lambda>s.
     bindR (dicedev_iow d DICEDEV_INTR DICEDEV_ALL_INTR s) (\<lambda>s.
     bindR (dicedev_iow d DICEDEV_INTR_ENABLE DICEDEV_ACTIVE_INTR s) (\<lambda>s.
     bindR (dicedev_iow d DICEDEV_CMD_FENCE_WAIT 1 s) (\<lambda>s.
     bindR (dicedev_iow d DICEDEV_CMD_FENCE_LAST 0 s) (\<lambda>s.
     bindR (dicedev_iow d DICEDEV_ENABLE 1 s) (\<lambda>s.
     unbind_all E d [0..<DICEDEV_NUM_SLOTS] s)))))))"

text \<open>The rest of \<open>dicedev_probe\<close> once the interrupt line is connected. \<open>None\<close> is the return value 0.\<close>

definition probe_online :: "env \<Rightarrow> services \<Rightarrow> pci_dev \<Rightarrow> ptr \<Rightarrow> driver \<Rightarrow> (errno option \<times> driver) result" where
  "probe_online E K pd d D = bindR (on_ks (device_start E d) D) (\<lambda>D.
     let D = acquire pd WORKER D in
     if ret_cdev K \<noteq> None then failing (ret_cdev K) (err_cdev_add pd d D)
     else let D = acquire pd CDEV D in
       if \<not> ret_node K
       then bindR (on_ks (modify_dev d (\<lambda>dv. dv\<lparr>dev_node := False\<rparr>)) D) (\<lambda>D. failing None (err_cdev_add pd d D))
       else bindR (on_ks (modify_dev d (\<lambda>dv. dv\<lparr>dev_node := True\<rparr>)) D) (\<lambda>D. Inr (None, acquire pd DEV_NODE D)))"

text \<open>The hardware resources, one after the other.\<close>

definition probe_resources :: "env \<Rightarrow> services \<Rightarrow> pci_dev \<Rightarrow> ptr \<Rightarrow> driver \<Rightarrow> (errno option \<times> driver) result" where
  "probe_resources E K pd d D =
     (if ret_enable K \<noteq> None then failing (ret_enable K) (err_enable_dev d D)
      else let D = acquire pd PCI_ENABLED D in
      if ret_dma_mask K \<noteq> None then failing (ret_dma_mask K) (err_dma_mask pd d D)
      else if ret_regions K \<noteq> None then failing (ret_regions K) (err_dma_mask pd d D)
      else let D = acquire pd PCI_REGIONS D in
      if \<not> ret_iomap K then failing (Some ENOMEM) (err_iomap pd d D)
      else let D = acquire pd PCI_BAR D in
      if ret_irq K \<noteq> None then failing (ret_irq K) (err_request_irq pd d D)
      else probe_online E K pd d (acquire pd IRQ_LINE D))"

definition dicedev_probe :: "env \<Rightarrow> services \<Rightarrow> pci_dev \<Rightarrow> driver \<Rightarrow> (errno option \<times> driver) result" where
  "dicedev_probe E K pd D = (case kmalloc E (ks D) of
     (None, s) \<Rightarrow> Inr (Some ENOMEM, D\<lparr>ks := s\<rparr>)
   | (Some d, s) \<Rightarrow>
       let D = D\<lparr>ks := s\<lparr>devs := (devs s)(d \<mapsto> zero_device)\<rparr>, drvdata := (drvdata D)(pd \<mapsto> d)\<rparr>;
           i = free_index (dicedev_devices D)
       in if i = DICEDEV_MAX_DEVICES then failing (Some ENOSPC) (err_max_dev d D)
          else bindR (store (dicedev_devices D) i (Some d)) (\<lambda>ds.
            bindR (on_ks (modify_dev d (\<lambda>dv. dv\<lparr>idx := i\<rparr>)) (D\<lparr>dicedev_devices := ds\<rparr>)) (\<lambda>D.
            probe_resources E K pd d D)))"

subsection \<open>Removing, sleeping and waking up\<close>

text \<open>\<open>kthread_stop\<close> asks the thread to stop and waits until it has left its function.\<close>

definition kthread_stop :: "env \<Rightarrow> ptr \<Rightarrow> kstate \<Rightarrow> kstate result" where
  "kthread_stop E d s = bindR (modify_dev d (\<lambda>dv. dv\<lparr>wt_thread := (wt_thread dv)\<lparr>should_stop := True\<rparr>\<rparr>) s) (wt_fn_exit E d)"

definition dicedev_remove :: "env \<Rightarrow> pci_dev \<Rightarrow> driver \<Rightarrow> driver result" where
  "dicedev_remove E pd D = bindR (not_null (drvdata D pd)) (\<lambda>d.
     bindR (deref (devs (ks D)) d) (\<lambda>dv.
     let D = give_back pd CDEV (if dev_node dv then give_back pd DEV_NODE D else D) in
     bindR (on_ks (dicedev_iow d DICEDEV_INTR_ENABLE 0) D) (\<lambda>D.
     bindR (on_ks (kthread_stop E d) D) (\<lambda>D.
     bindR (on_ks (dicedev_iow d DICEDEV_ENABLE 0) (give_back pd WORKER D)) (\<lambda>D.
     let D = give_back pd PCI_ENABLED (give_back pd PCI_REGIONS (give_back pd PCI_BAR (give_back pd IRQ_LINE D))) in
     err_enable_dev d D)))))"

definition dicedev_suspend :: "pci_dev \<Rightarrow> driver \<Rightarrow> driver result" where
  "dicedev_suspend pd D = bindR (not_null (drvdata D pd)) (\<lambda>d.
     bindR (on_ks (dicedev_iow d DICEDEV_INTR_ENABLE 0) D) (\<lambda>D.
     bindR (on_ks (modify_dev d (\<lambda>dv. dv\<lparr>wt_thread := (wt_thread dv)\<lparr>should_park := True\<rparr>\<rparr>)) D) (\<lambda>D.
     on_ks (dicedev_iow d DICEDEV_ENABLE 0) D)))"

definition dicedev_resume :: "pci_dev \<Rightarrow> driver \<Rightarrow> driver result" where
  "dicedev_resume pd D = bindR (not_null (drvdata D pd)) (\<lambda>d.
     bindR (on_ks (modify_dev d (\<lambda>dv. dv\<lparr>wt_thread := (wt_thread dv)\<lparr>should_park := False\<rparr>\<rparr>)) D) (\<lambda>D.
     bindR (on_ks (dicedev_iow d DICEDEV_INTR_ENABLE DICEDEV_ACTIVE_INTR) D) (\<lambda>D.
     on_ks (dicedev_iow d DICEDEV_ENABLE 1) D)))"

subsection \<open>The module\<close>

datatype registration = CHRDEV_REGION | DICEDEV_CLASS | PCI_DRIVER

text \<open>The three arguments are the answers of the three registrations.\<close>

definition dicedev_init :: "errno option \<Rightarrow> errno option \<Rightarrow> errno option \<Rightarrow> registration list \<Rightarrow> errno option \<times> registration list" where
  "dicedev_init chrdev cls pci rs =
     (if chrdev \<noteq> None then (chrdev, rs)
      else let rs = CHRDEV_REGION # rs in
      if cls \<noteq> None then (cls, remove1 CHRDEV_REGION rs)
      else let rs = DICEDEV_CLASS # rs in
      if pci \<noteq> None then (pci, remove1 CHRDEV_REGION (remove1 DICEDEV_CLASS rs))
      else (None, PCI_DRIVER # rs))"

definition dicedev_exit :: "registration list \<Rightarrow> registration list" where
  "dicedev_exit rs = remove1 CHRDEV_REGION (remove1 DICEDEV_CLASS (remove1 PCI_DRIVER rs))"

section \<open>Executing a probe\<close>

lemma free_index_le: "free_index ds \<le> length ds"
  by (induction ds rule: free_index.induct) auto

lemma free_index_full: "free_index ds = length ds \<longleftrightarrow> None \<notin> set ds"
  by (induction ds rule: free_index.induct) auto

lemma free_index_None: "None \<in> set ds \<Longrightarrow> free_index ds < length ds \<and> ds ! free_index ds = None"
  by (induction ds rule: free_index.induct) auto

lemma unbind_all_run:
  assumes "drains E"
  shows "devs s d = Some dv \<Longrightarrow> \<not> feed_lock dv \<Longrightarrow> unbind_all E d is s = Inr (s\<lparr>devs := (devs s)(d \<mapsto>
    dv\<lparr>bar := fed_hist E (map (\<lambda>i. DICEDEV_USER_CMD_UNBIND_SLOT_HEADER (int i)) is) (bar dv)\<rparr>)\<rparr>)"
proof (induction "is" arbitrary: s dv)
  case Nil
  then show ?case by (cases s) (simp add: fun_upd_idem)
next
  case (Cons i "is")
  let ?dv = "dv\<lparr>bar := fed_hist E [DICEDEV_USER_CMD_UNBIND_SLOT_HEADER (int i)] (bar dv)\<rparr>"
  have "feed_cmd E d [DICEDEV_USER_CMD_UNBIND_SLOT_HEADER (int i)] s = Inr (s\<lparr>devs := (devs s)(d \<mapsto> ?dv)\<rparr>)"
    using assms Cons.prems by simp
  moreover note Cons.IH [of "s\<lparr>devs := (devs s)(d \<mapsto> ?dv)\<rparr>" ?dv]
  ultimately show ?case using Cons.prems assms by (simp add: fed_hist_fed_hist cong: if_cong)
qed

text \<open>What the device is told when it starts.\<close>

definition start_bar :: "env \<Rightarrow> mmio list" where
  "start_bar E = fed_hist E (map (\<lambda>i. DICEDEV_USER_CMD_UNBIND_SLOT_HEADER (int i)) [0..<16])
     [IoWrite DICEDEV_INTR DICEDEV_ALL_INTR, IoWrite DICEDEV_INTR_ENABLE DICEDEV_ACTIVE_INTR,
      IoWrite DICEDEV_CMD_FENCE_WAIT 1, IoWrite DICEDEV_CMD_FENCE_LAST 0, IoWrite DICEDEV_ENABLE 1]"

definition started :: "env \<Rightarrow> nat \<Rightarrow> dicedev_device" where
  "started E i = zero_device\<lparr>idx := i, free_slots := 16, bar := start_bar E\<rparr>"

lemma device_start_run:
  assumes "drains E" "devs s d = Some (zero_device\<lparr>idx := i\<rparr>)"
  shows "device_start E d s = Inr (s\<lparr>devs := (devs s)(d \<mapsto> started E i)\<rparr>)"
  using assms
  by (simp add: device_start_def dicedev_wt_init_def unbind_all_run zero_device_def del: bindR_eq_Inr upt_conv_Cons)
    (simp add: started_def start_bar_def zero_device_def)

text \<open>The driver when a probe has entered the device \<open>dv\<close> in its table.\<close>

definition entered :: "pci_dev \<Rightarrow> dicedev_device \<Rightarrow> driver \<Rightarrow> driver" where
  "entered pd dv D = (let d = next_ptr (mem (ks D)) in
     D\<lparr>ks := (ks D)\<lparr>mem := (mem (ks D))\<lparr>next_ptr := Suc d, clock := Suc (clock (mem (ks D)))\<rparr>, devs := (devs (ks D))(d \<mapsto> dv)\<rparr>,
       drvdata := (drvdata D)(pd \<mapsto> d), dicedev_devices := (dicedev_devices D)[idx dv := Some d]\<rparr>)"

lemma probe_enters:
  assumes "length (dicedev_devices D) = DICEDEV_MAX_DEVICES" "None \<in> set (dicedev_devices D)" "alloc_ok E (clock (mem (ks D)))"
  shows "dicedev_probe E K pd D = probe_resources E K pd (next_ptr (mem (ks D)))
    (entered pd (zero_device\<lparr>idx := free_index (dicedev_devices D)\<rparr>) D)"
proof -
  have "free_index (dicedev_devices D) < 256" using free_index_None [OF assms(2)] assms(1) by simp
  then show ?thesis using assms
    by (cases D) (simp add: dicedev_probe_def kmalloc_def alloc_def entered_def on_ks_def Let_def del: bindR_eq_Inr)
qed

text \<open>Leaving the table again.\<close>

definition restored :: "driver \<Rightarrow> driver \<Rightarrow> bool" where
  "restored D D' \<longleftrightarrow> dicedev_devices D' = dicedev_devices D \<and> devs (ks D') = devs (ks D) \<and> held D' = held D"

lemma entered_leaves:
  assumes "length (dicedev_devices D) = DICEDEV_MAX_DEVICES" "idx dv < 256" "dicedev_devices D ! idx dv = None"
    "devs (ks D) (next_ptr (mem (ks D))) = None"
  shows "\<exists>D'. err_enable_dev (next_ptr (mem (ks D))) ((entered pd dv D)\<lparr>held := h\<rparr>) = Inr D' \<and>
    dicedev_devices D' = dicedev_devices D \<and> devs (ks D') = devs (ks D) \<and> held D' = h \<and>
    drvdata D' = (drvdata D)(pd \<mapsto> next_ptr (mem (ks D)))"
  using assms by (simp add: err_enable_dev_def err_max_dev_def entered_def Let_def fun_upd_idem list_update_same_conv)

lemmas resource_defs = acquire_def give_back_def err_dma_mask_def err_iomap_def err_request_irq_def failing_def

text \<open>The answers of the services that are asked before the device is started.\<close>

definition early_error :: "services \<Rightarrow> errno option" where
  "early_error K = (if ret_enable K \<noteq> None then ret_enable K else if ret_dma_mask K \<noteq> None then ret_dma_mask K
     else if ret_regions K \<noteq> None then ret_regions K else if \<not> ret_iomap K then Some ENOMEM else ret_irq K)"

lemma resources_early:
  assumes "early_error K = Some e" "\<And>h. \<exists>D'. err_enable_dev d (D\<lparr>held := h\<rparr>) = Inr D' \<and> P h D'"
  shows "\<exists>D'. probe_resources E K pd d D = Inr (Some e, D') \<and> P (held D) D'"
proof -
  obtain D' where D': "err_enable_dev d (D\<lparr>held := held D\<rparr>) = Inr D'" "P (held D) D'" using assms(2) by blast
  then have "probe_resources E K pd d D = Inr (Some e, D')"
    using assms(1) by (auto simp: probe_resources_def early_error_def resource_defs Let_def split: if_splits simp del: bindR_eq_Inr)
  then show ?thesis using D'(2) by blast
qed

lemma resources_online:
  assumes "early_error K = None"
  shows "probe_resources E K pd d D =
    probe_online E K pd d (D\<lparr>held := (pd, IRQ_LINE) # (pd, PCI_BAR) # (pd, PCI_REGIONS) # (pd, PCI_ENABLED) # held D\<rparr>)"
  using assms by (auto simp: probe_resources_def early_error_def acquire_def Let_def split: if_splits)

lemma dev_inv_started:
  assumes "drains E" "devs s d = Some (started E i\<lparr>dev_node := True\<rparr>)"
    and "\<forall>b bf. buffs s b = Some bf \<longrightarrow> buff_dev bf \<noteq> d" "\<forall>c cx. ctxs s c = Some cx \<longrightarrow> ctx_dev cx \<noteq> d"
  shows "dev_inv E \<lparr>wt_dev = d, next_task = None\<rparr> (started E i\<lparr>dev_node := True\<rparr>) s"
proof -
  have "count_list (replicate n (None :: ptr option)) None = n" for n by (induction n) auto
  then have "slots_ok d s" using assms(2,3) by (simp add: slots_ok_def started_def zero_device_def) blast
  moreover have "counted d s []" using assms(4) by (auto simp: counted_def)
  ultimately show ?thesis using assms(1,2) by (simp add: dev_inv_def base_inv_def live_def started_def zero_device_def)
qed

text \<open>The driver after a probe in which every service answers.\<close>

definition probed :: "env \<Rightarrow> pci_dev \<Rightarrow> driver \<Rightarrow> driver" where
  "probed E pd D = (let d = next_ptr (mem (ks D)); i = free_index (dicedev_devices D); D = entered pd (zero_device\<lparr>idx := i\<rparr>) D in
     D\<lparr>ks := (ks D)\<lparr>devs := (devs (ks D))(d \<mapsto> started E i\<lparr>dev_node := True\<rparr>)\<rparr>, held := (pd, DEV_NODE) # (pd, CDEV) # (pd, WORKER) #
       (pd, IRQ_LINE) # (pd, PCI_BAR) # (pd, PCI_REGIONS) # (pd, PCI_ENABLED) # held D\<rparr>)"

lemma probe_run:
  assumes "length (dicedev_devices D) = DICEDEV_MAX_DEVICES" "None \<in> set (dicedev_devices D)" "alloc_ok E (clock (mem (ks D)))"
    and "early_error K = None" "ret_cdev K = None" "ret_node K" "drains E"
  shows "dicedev_probe E K pd D = Inr (None, probed E pd D)"
proof -
  let ?i = "free_index (dicedev_devices D)" and ?d = "next_ptr (mem (ks D))"
  define D1 where "D1 = entered pd (zero_device\<lparr>idx := ?i\<rparr>) D"
  have s: "device_start E ?d (ks D1) = Inr ((ks D1)\<lparr>devs := (devs (ks D1))(?d \<mapsto> started E ?i)\<rparr>)"
    by (rule device_start_run [OF assms(7)]) (simp add: D1_def entered_def Let_def)
  show ?thesis
    unfolding probe_enters [OF assms(1-3)] resources_online [OF assms(4)] D1_def [symmetric]
    using s assms(5,6) by (simp add: probe_online_def on_ks_def acquire_def Let_def del: bindR_eq_Inr)
      (simp add: probed_def D1_def entered_def Let_def)
qed

section \<open>Properties\<close>

text \<open>
  C36. When every service of the kernel answers, probing succeeds: the device has the first free
  index, no pending interrupts, its interrupts and the device enabled, the fence set up and all
  16 slots unbound in this order, and the worker thread starts from a consistent state.
\<close>

theorem probe_success:
  assumes "length (dicedev_devices D) = DICEDEV_MAX_DEVICES" "None \<in> set (dicedev_devices D)" "alloc_ok E (clock (mem (ks D)))"
    and "early_error K = None" "ret_cdev K = None" "ret_node K" "drains E" "d = next_ptr (mem (ks D))"
    and "\<forall>b bf. buffs (ks D) b = Some bf \<longrightarrow> buff_dev bf \<noteq> d" "\<forall>c cx. ctxs (ks D) c = Some cx \<longrightarrow> ctx_dev cx \<noteq> d"
  shows "\<exists>D' dv. dicedev_probe E K pd D = Inr (None, D') \<and> drvdata D' pd = Some d \<and>
    dicedev_devices D' = (dicedev_devices D)[free_index (dicedev_devices D) := Some d] \<and>
    dev_inv E \<lparr>wt_dev = d, next_task = None\<rparr> dv (ks D') \<and> idx dv = free_index (dicedev_devices D) \<and>
    writes (bar dv) = [(DICEDEV_INTR, DICEDEV_ALL_INTR), (DICEDEV_INTR_ENABLE, DICEDEV_ACTIVE_INTR), (DICEDEV_CMD_FENCE_WAIT, 1),
      (DICEDEV_CMD_FENCE_LAST, 0), (DICEDEV_ENABLE, 1)] @
      map (\<lambda>i. (CMD_MANUAL_FEED, DICEDEV_USER_CMD_UNBIND_SLOT_HEADER (int i))) [0..<16]"
proof -
  let ?i = "free_index (dicedev_devices D)" and ?D = "probed E pd D"
  let ?dv = "started E ?i\<lparr>dev_node := True\<rparr>"
  note probe_run [OF assms(1-7), of pd]
  moreover have "dev_inv E \<lparr>wt_dev = d, next_task = None\<rparr> ?dv (ks ?D)"
    by (rule dev_inv_started [OF assms(7)]) (use assms(8-10) in \<open>auto simp: probed_def entered_def Let_def\<close>)
  moreover have "drvdata ?D pd = Some d" "dicedev_devices ?D = (dicedev_devices D)[?i := Some d]" "idx ?dv = ?i" "bar ?dv = start_bar E"
    by (simp_all add: probed_def entered_def assms(8) started_def Let_def)
  ultimately show ?thesis
    using fed_hist(3) [OF assms(7)] by (intro exI [of _ ?D] exI [of _ ?dv]) (simp add: start_bar_def comp_def del: upt_conv_Cons)
qed

definition driver0 :: driver where
  "driver0 = \<lparr>ks = \<lparr>mem = mem0, pts = Map.empty, devs = Map.empty, ctxs = Map.empty, buffs = Map.empty, tasks = Map.empty,
     cmds = Map.empty, files = Map.empty, fds = Map.empty\<rparr>, dicedev_devices = replicate 256 None, drvdata = Map.empty, held = []\<rparr>"

definition services0 :: services where
  "services0 = \<lparr>ret_enable = None, ret_dma_mask = None, ret_regions = None, ret_iomap = True, ret_irq = None, ret_cdev = None,
     ret_node = True\<rparr>"

lemma driver0_ready:
  "length (dicedev_devices driver0) = DICEDEV_MAX_DEVICES" "None \<in> set (dicedev_devices driver0)"
  "alloc_ok env0 (clock (mem (ks driver0)))" "early_error services0 = None" "0 = next_ptr (mem (ks driver0))"
  by (simp_all add: driver0_def env0_def services0_def early_error_def mem0_def)

theorem probe_success_witness:
  "\<exists>D' dv. dicedev_probe env0 services0 7 driver0 = Inr (None, D') \<and> dev_inv env0 \<lparr>wt_dev = 0, next_task = None\<rparr> dv (ks D')"
proof -
  have "ret_cdev services0 = None" "ret_node services0" by (simp_all add: services0_def)
  moreover have "\<forall>b bf. buffs (ks driver0) b = Some bf \<longrightarrow> buff_dev bf \<noteq> 0" "\<forall>c cx. ctxs (ks driver0) c = Some cx \<longrightarrow> ctx_dev cx \<noteq> 0"
    by (simp_all add: driver0_def)
  ultimately show ?thesis using probe_success [OF driver0_ready(1-4) _ _ drains_env0 driver0_ready(5), of 7] by blast
qed

text \<open>
  C37. A probe that fails before the device is started gives back everything: the device
  structure, its index and every resource of the kernel, whichever step fails.
\<close>

theorem probe_unwinds:
  assumes "length (dicedev_devices D) = DICEDEV_MAX_DEVICES" "devs (ks D) (next_ptr (mem (ks D))) = None"
    and "\<not> alloc_ok E (clock (mem (ks D))) \<or> None \<notin> set (dicedev_devices D) \<or> early_error K \<noteq> None"
  shows "\<exists>e D'. dicedev_probe E K pd D = Inr (Some e, D') \<and> restored D D'"
proof (cases "alloc_ok E (clock (mem (ks D))) \<and> None \<in> set (dicedev_devices D)")
  case True
  then obtain e where e: "early_error K = Some e" using assms(3) by blast
  let ?i = "free_index (dicedev_devices D)"
  have i: "?i < 256" "dicedev_devices D ! ?i = None" using free_index_None [of "dicedev_devices D"] True assms(1) by simp_all
  note leave = entered_leaves [OF assms(1) _ _ assms(2), of "zero_device\<lparr>idx := ?i\<rparr>", where pd = pd]
  show ?thesis
    unfolding probe_enters [OF assms(1) True [THEN conjunct2] True [THEN conjunct1]] restored_def
    using resources_early [OF e, of "next_ptr (mem (ks D))" "entered pd (zero_device\<lparr>idx := ?i\<rparr>) D"
        "\<lambda>h D'. dicedev_devices D' = dicedev_devices D \<and> devs (ks D') = devs (ks D) \<and> held D' = h" E pd] leave i
    by (fastforce simp: entered_def Let_def)
next
  case False
  show ?thesis
  proof (cases "alloc_ok E (clock (mem (ks D)))")
    case True
    then have "free_index (dicedev_devices D) = 256" using False free_index_full [of "dicedev_devices D"] assms(1) by auto
    then show ?thesis using True assms(2)
      by (simp add: dicedev_probe_def kmalloc_def alloc_def failing_def err_max_dev_def Let_def restored_def fun_upd_idem)
  qed (simp add: dicedev_probe_def kmalloc_def alloc_def restored_def)
qed

theorem probe_unwinds_witness:
  "\<exists>e D'. dicedev_probe env0 (services0\<lparr>ret_irq := Some EINVAL\<rparr>) 7 driver0 = Inr (Some e, D') \<and> restored driver0 D'"
  using probe_unwinds [OF driver0_ready(1), of env0 "services0\<lparr>ret_irq := Some EINVAL\<rparr>" 7]
  by (simp add: driver0_def services0_def early_error_def)

text \<open>
  C38. A probe that fails after the device is started frees the device structure while the worker
  thread goes on running. When it is the creation of the device node that fails, it even reports
  success, so that a later removal of the device uses the freed structure.
\<close>

theorem late_probe_failure:
  assumes "length (dicedev_devices D) = DICEDEV_MAX_DEVICES" "None \<in> set (dicedev_devices D)" "alloc_ok E (clock (mem (ks D)))"
    and "early_error K = None" "ret_cdev K \<noteq> None \<or> \<not> ret_node K" "drains E" "d = next_ptr (mem (ks D))"
  shows "\<exists>D'. dicedev_probe E K pd D = Inr (ret_cdev K, D') \<and> drvdata D' pd = Some d \<and> devs (ks D') d = None \<and>
    (pd, WORKER) \<in> set (held D') \<and> dicedev_remove E pd D' = Inl WILD"
proof -
  let ?i = "free_index (dicedev_devices D)"
  define D1 where "D1 = entered pd (zero_device\<lparr>idx := ?i\<rparr>) D"
  have s: "device_start E d (ks D1) = Inr ((ks D1)\<lparr>devs := (devs (ks D1))(d \<mapsto> started E ?i)\<rparr>)"
    by (rule device_start_run [OF assms(6)]) (simp add: D1_def entered_def assms(7) Let_def)
  have i: "?i < length (dicedev_devices D1)" using free_index_None [OF assms(2)] by (simp add: D1_def entered_def Let_def)
  have x: "idx (started E ?i) = ?i" by (simp add: started_def)
  have "\<exists>D'. dicedev_probe E K pd D = Inr (ret_cdev K, D') \<and> drvdata D' = drvdata D1 \<and> devs (ks D') d = None \<and>
      (pd, WORKER) \<in> set (held D')"
    unfolding probe_enters [OF assms(1-3)] resources_online [OF assms(4)] D1_def [symmetric] assms(7) [symmetric]
    using s i x assms(5)
    by (simp add: probe_online_def on_ks_def err_cdev_add_def err_enable_dev_def err_max_dev_def resource_defs Let_def
      del: bindR_eq_Inr) blast
  moreover have "drvdata D1 pd = Some d" by (simp add: D1_def entered_def assms(7) Let_def)
  ultimately show ?thesis by (auto simp: dicedev_remove_def)
qed

theorem late_probe_failure_witness:
  "\<exists>D'. dicedev_probe env0 (services0\<lparr>ret_node := False\<rparr>) 7 driver0 = Inr (None, D') \<and> dicedev_remove env0 7 D' = Inl WILD"
proof -
  have "early_error (services0\<lparr>ret_node := False\<rparr>) = None" "ret_cdev (services0\<lparr>ret_node := False\<rparr>) = None"
    by (simp_all add: early_error_def services0_def)
  then show ?thesis
    using late_probe_failure [OF driver0_ready(1-3) _ _ drains_env0 driver0_ready(5), of "services0\<lparr>ret_node := False\<rparr>" 7] by auto
qed

text \<open>
  C39. Removing a device with no pending and no running task stops the thread and gives back the
  index, the structure and every resource. With such a task it never returns.
\<close>

theorem remove_outcome:
  assumes "dev_inv E w dv (ks D)" "drvdata D pd = Some (wt_dev w)" "idx dv < length (dicedev_devices D)" "dev_node dv"
    and "held D = [(pd, DEV_NODE), (pd, CDEV), (pd, WORKER), (pd, IRQ_LINE), (pd, PCI_BAR), (pd, PCI_REGIONS), (pd, PCI_ENABLED)] @ h"
  shows "if pending_tasks dv = [] \<and> running_task dv = None
    then \<exists>D'. dicedev_remove E pd D = Inr D' \<and> held D' = h \<and> dicedev_devices D' = (dicedev_devices D)[idx dv := None] \<and>
      devs (ks D') = (devs (ks D))(wt_dev w := None)
    else dicedev_remove E pd D = Inl DEADLOCK"
proof -
  let ?d = "wt_dev w" and ?s = "ks D"
  define dv' where "dv' = dv\<lparr>bar := bar dv @ [IoWrite DICEDEV_INTR_ENABLE 0], wt_thread := (wt_thread dv)\<lparr>should_stop := True\<rparr>\<rparr>"
  have d: "devs ?s ?d = Some dv" using assms(1) by (simp add: dev_inv_def base_inv_def)
  have "dev_inv E w dv' (?s\<lparr>devs := (devs ?s)(?d \<mapsto> dv')\<rparr>)"
    by (rule dev_inv_dev [OF assms(1)]) (simp_all add: dv'_def)
  note exit = exit_run [OF this]
  have stop: "kthread_stop E ?d (?s\<lparr>devs := (devs ?s)(?d \<mapsto> dv\<lparr>bar := bar dv @ [IoWrite DICEDEV_INTR_ENABLE 0]\<rparr>)\<rparr>) =
      (if pending_tasks dv = [] \<and> running_task dv = None then Inr (?s\<lparr>devs := (devs ?s)(?d \<mapsto> dv')\<rparr>) else Inl DEADLOCK)"
    using exit by (simp add: kthread_stop_def dv'_def del: bindR_eq_Inr)
  have "idx dv' = idx dv" by (simp add: dv'_def)
  then show ?thesis using d assms(2-5)
    by (simp add: dicedev_remove_def on_ks_def stop give_back_def err_enable_dev_def err_max_dev_def Let_def del: bindR_eq_Inr)
qed

definition removable0 :: driver where
  "removable0 = driver0\<lparr>ks := state0, drvdata := [7 \<mapsto> 10], held := [(7, DEV_NODE), (7, CDEV), (7, WORKER), (7, IRQ_LINE),
     (7, PCI_BAR), (7, PCI_REGIONS), (7, PCI_ENABLED)]\<rparr>"

theorem remove_outcome_witness: "\<exists>D'. dicedev_remove env0 7 removable0 = Inr D' \<and> held D' = []"
proof -
  have "slots_ok 10 state0" using slot_inv_state0 by (simp add: slot_inv_def)
  moreover have "counted 10 state0 []" by (auto simp: counted_def tasks_of_def state0_def ctx0_def)
  ultimately have "dev_inv env0 w0 dev0 (ks removable0)" by (simp add: dev_inv_def base_inv_def live_def w0_def removable0_def)
  from remove_outcome [OF this, of 7 "[]"] show ?thesis
    by (simp add: removable0_def w0_def driver0_def) (auto simp: dev0_def)
qed

text \<open>
  C40. Suspending a device disables its interrupts, parks the worker thread and disables the
  device; from then on the thread handles no task. Resuming undoes all three, and the device is
  consistent at every moment.
\<close>

theorem suspend_resume_roundtrip:
  assumes "dev_inv E w dv (ks D)" "drvdata D pd = Some (wt_dev w)" "\<not> should_park (wt_thread dv)"
  shows "\<exists>D' dv' D'' dv''. dicedev_suspend pd D = Inr D' \<and> dev_inv E w dv' (ks D') \<and> wt_fn_step E w (ks D') = Inr (w, ks D') \<and>
    writes (bar dv') = writes (bar dv) @ [(DICEDEV_INTR_ENABLE, 0), (DICEDEV_ENABLE, 0)] \<and>
    dicedev_resume pd D' = Inr D'' \<and> dev_inv E w dv'' (ks D'') \<and>
    writes (bar dv'') = writes (bar dv') @ [(DICEDEV_INTR_ENABLE, DICEDEV_ACTIVE_INTR), (DICEDEV_ENABLE, 1)] \<and>
    dv'' = dv\<lparr>bar := bar dv''\<rparr>"
proof -
  let ?d = "wt_dev w" and ?s = "ks D"
  define dv' where "dv' = dv\<lparr>bar := bar dv @ [IoWrite DICEDEV_INTR_ENABLE 0, IoWrite DICEDEV_ENABLE 0],
    wt_thread := (wt_thread dv)\<lparr>should_park := True\<rparr>\<rparr>"
  define dv'' where "dv'' = dv\<lparr>bar := bar dv' @ [IoWrite DICEDEV_INTR_ENABLE DICEDEV_ACTIVE_INTR, IoWrite DICEDEV_ENABLE 1]\<rparr>"
  have d: "devs ?s ?d = Some dv" using assms(1) by (simp add: dev_inv_def base_inv_def)
  let ?D = "\<lambda>x. D\<lparr>ks := ?s\<lparr>devs := (devs ?s)(?d \<mapsto> x)\<rparr>\<rparr>"
  have th: "(wt_thread dv)\<lparr>should_park := False\<rparr> = wt_thread dv" using assms(3) by (cases "wt_thread dv") simp
  have "dicedev_suspend pd D = Inr (?D dv')"
    using d assms(2) by (cases dv) (simp add: dicedev_suspend_def on_ks_def dv'_def del: bindR_eq_Inr)
  moreover have "dicedev_resume pd (?D dv') = Inr (?D dv'')"
    using assms(2) th by (cases dv) (simp add: dicedev_resume_def on_ks_def dv'_def dv''_def del: bindR_eq_Inr)
  moreover have "wt_fn_step E w (ks (?D dv')) = Inr (w, ks (?D dv'))"
    by (simp add: wt_fn_step_def wt_get_event_def wt_handle_def dv'_def)
  moreover have "dev_inv E w dv' (ks (?D dv'))" "dev_inv E w dv'' (ks (?D dv''))"
    using dev_inv_dev [OF assms(1), of dv'] dev_inv_dev [OF assms(1), of dv''] by (simp_all add: dv'_def dv''_def)
  moreover have "dv'' = dv\<lparr>bar := bar dv''\<rparr>" by (simp add: dv''_def)
  moreover have "writes (bar dv') = writes (bar dv) @ [(DICEDEV_INTR_ENABLE, 0), (DICEDEV_ENABLE, 0)]"
      "writes (bar dv'') = writes (bar dv') @ [(DICEDEV_INTR_ENABLE, DICEDEV_ACTIVE_INTR), (DICEDEV_ENABLE, 1)]"
    by (simp_all add: dv'_def dv''_def)
  ultimately show ?thesis by blast
qed

theorem suspend_resume_roundtrip_witness:
  "\<exists>D' D''. dicedev_suspend 7 (removable0\<lparr>ks := queued0 [4]\<rparr>) = Inr D' \<and> dicedev_resume 7 D' = Inr D''"
proof -
  have "dev_inv env0 w0 queued_dev0 (queued0 [4])" by (rule dev_inv_queued0) simp
  then show ?thesis
    using suspend_resume_roundtrip [of env0 w0 queued_dev0 "removable0\<lparr>ks := queued0 [4]\<rparr>" 7]
    by (auto simp: removable0_def w0_def queued_dev0_def bound_dev0_def dev0_def)
qed

text \<open>
  Loading the module leaves nothing registered when a registration fails, and unloading it
  undoes a successful load.
\<close>

theorem module_init_exit:
  "case dicedev_init chrdev cls pci rs of
     (Some e, rs') \<Rightarrow> rs' = rs
   | (None, rs') \<Rightarrow> dicedev_exit rs' = rs \<and> chrdev = None \<and> cls = None \<and> pci = None"
  by (cases chrdev; cases cls; cases pci) (simp_all add: dicedev_init_def dicedev_exit_def Let_def)

end
