(* ===== verification/Dicedev_Heap.thy ===== *)
theory Dicedev_Heap
  imports Dicedev_Pci
begin

text \<open>
  Who owns what: page tables, buffers, files, descriptors and contexts. The invariant says that
  every buffer in use has its page table, its pages and its file, that no two buffers share
  pages, and that the reference count of a buffer's file is the number of its owners: the
  context that lists it and the descriptor that refers to it.
\<close>

section \<open>The allocator\<close>

text \<open>
  The kernel never hands out as many as \<open>2 ^ 64\<close> addresses. With it, the number of live tasks
  of a context is what its 64-bit \<open>task_count\<close> says.
\<close>

definition bounded :: "env \<Rightarrow> bool" where
  "bounded E \<longleftrightarrow> (\<forall>n. alloc_ok E n \<longrightarrow> n < 2 ^ 64 - 1)"

definition ptr_inv :: "kmem \<Rightarrow> bool" where
  "ptr_inv m \<longleftrightarrow> next_ptr m \<le> clock m \<and> next_ptr m < 2 ^ 64"

lemma ptr_inv_page_mem [simp]: "ptr_inv (m\<lparr>page_mem := f\<rparr>) = ptr_inv m"
  by (simp add: ptr_inv_def)

lemma alloc_ptr_inv: "bounded E \<Longrightarrow> ptr_inv m \<Longrightarrow> alloc E m = (r, m') \<Longrightarrow> ptr_inv m'"
  by (auto simp: alloc_def ptr_inv_def bounded_def split: if_splits)

lemma page_init_ptr_inv: "bounded E \<Longrightarrow> ptr_inv m \<Longrightarrow> page_init E p m = (e, p', m') \<Longrightarrow> ptr_inv m'"
  by (auto simp: page_init_def dma_alloc_coherent_def dest: alloc_ptr_inv split: option.splits prod.splits)

lemma free_ptr_inv:
  "page_free p m = Inr m' \<Longrightarrow> ptr_inv m' = ptr_inv m"
  "pt_free_pages ep is ps m = Inr m' \<Longrightarrow> ptr_inv m' = ptr_inv m"
proof -
  show f: "page_free p m = Inr m' \<Longrightarrow> ptr_inv m' = ptr_inv m" for p m m'
    by (auto simp: page_free_def dma_free_coherent_def split: option.splits)
  show "pt_free_pages ep is ps m = Inr m' \<Longrightarrow> ptr_inv m' = ptr_inv m"
    by (induction "is" arbitrary: m) (auto dest!: f split: if_splits)
qed

lemma pt_fill_ptr_inv: "bounded E \<Longrightarrow> ptr_inv m \<Longrightarrow> pt_fill E ep is ps m = Inr (ok, ps', m') \<Longrightarrow> ptr_inv m'"
proof (induction "is" arbitrary: ps m)
  case (Cons i "is")
  obtain e p' m1 where p: "page_init E (Some (ps ! i)) m = (e, p', m1)" by (cases "page_init E (Some (ps ! i)) m") auto
  note m1 = page_init_ptr_inv [OF Cons.prems(1,2) p]
  show ?case
  proof (cases e)
    case None
    then obtain ps1 m2 where "pt_fill E ep is ps1 m2 = Inr (ok, ps', m')" "ptr_inv m2 = ptr_inv m1"
      using Cons.prems p by (auto simp: write_entry_def)
    then show ?thesis using Cons.IH [of m2 ps1] Cons.prems(1) m1 by simp
  next
    case (Some x)
    then show ?thesis using Cons.prems m1 p by auto
  qed
qed simp

lemma pt_init_ptr_inv:
  assumes "bounded E" "ptr_inv m" "dicedev_pt_init E (Some t) sz m = Inr (err, t', m')"
  shows "ptr_inv m'"
proof -
  obtain e p m1 where p: "page_init E (Some (pt_page t)) m = (e, p, m1)" by (cases "page_init E (Some (pt_page t)) m") auto
  obtain r m2 where a: "alloc E m1 = (r, m2)" by fastforce
  note m = page_init_ptr_inv [OF assms(1,2) p] alloc_ptr_inv [OF assms(1) _ a]
  show ?thesis
    using assms(3) p a m by (cases e; cases r)
      (auto simp: dicedev_pt_init_def Let_def dest: pt_fill_ptr_inv [OF assms(1)] simp: free_ptr_inv split: if_splits)
qed

lemma kmalloc_ptr_inv: "bounded E \<Longrightarrow> ptr_inv (mem s) \<Longrightarrow> kmalloc E s = (r, s') \<Longrightarrow> ptr_inv (mem s')"
  using alloc_ptr_inv by (auto simp: kmalloc_def split: prod.splits)

lemma pt_free_ptr_inv: "dicedev_pt_free t m = Inr m' \<Longrightarrow> ptr_inv m' = ptr_inv m"
  by (auto simp: dicedev_pt_free_def simp: free_ptr_inv split: option.splits)

lemma kmalloc_case_ptr_inv:
  assumes "(case kmalloc E s of (None, s1) \<Rightarrow> f s1 | (Some p, s1) \<Rightarrow> g p s1) = Inr (r, s')" "bounded E" "ptr_inv (mem s)"
    and "\<And>s1. ptr_inv (mem s1) \<Longrightarrow> f s1 = Inr (r, s') \<Longrightarrow> ptr_inv (mem s')"
    and "\<And>p s1. ptr_inv (mem s1) \<Longrightarrow> g p s1 = Inr (r, s') \<Longrightarrow> ptr_inv (mem s')"
  shows "ptr_inv (mem s')"
proof -
  obtain q s1 where k: "kmalloc E s = (q, s1)" by fastforce
  show ?thesis using assms(1,4,5) kmalloc_ptr_inv [OF assms(2,3) k] k by (cases q) auto
qed

lemma buffer_init_ptr_inv:
  assumes "bounded E" "ptr_inv (mem s)" "dicedev_buffer_init E c b sz allow s = Inr (r, s')"
  shows "ptr_inv (mem s')"
  using assms(3) unfolding dicedev_buffer_init_def
  by (rule kmalloc_case_ptr_inv [OF _ assms(1,2)])
    (auto simp: modify_eq_Inr Let_def pt_free_ptr_inv split: if_splits dest!: pt_init_ptr_inv [OF assms(1), rotated]
      elim!: kmalloc_case_ptr_inv [OF _ assms(1)])

lemma create_set_ptr_inv:
  assumes "bounded E" "ptr_inv (mem s)" "dicedev_ioctl_create_set E newfd c arg s = Inr (r, s')"
  shows "ptr_inv (mem s')"
proof -
  have inst: "ptr_inv (mem s')" if "ptr_inv (mem s)" "create_set_install E newfd c b s = Inr (r, s')" for b s r s'
    using that by (cases newfd) (auto simp: create_set_install_def dicedev_buffer_get_fd_def dicedev_buffer_destroy_def Let_def pt_free_ptr_inv
      modify_eq_Inr spin_lock_irqsave_def spin_unlock_irqrestore_def unbind_slot_def feed_cmd_eq_Inr split: if_splits)
  show ?thesis
  proof (cases arg)
    case None
    then show ?thesis using assms by (auto simp: dicedev_ioctl_create_set_def)
  next
    case (Some cs)
    then show ?thesis using assms(2,3)
      by (auto simp: dicedev_ioctl_create_set_def Let_def split: if_splits sum.split_asm elim!: kmalloc_case_ptr_inv [OF _ assms(1)]
        dest!: buffer_init_ptr_inv [OF assms(1), rotated] dest!: inst [rotated]) (metis obj_sumE old.unit.exhaust)
  qed
qed

section \<open>The invariant\<close>

text \<open>Context \<open>c\<close> lists buffer \<open>b\<close>; the number of references to the file of \<open>b\<close>.\<close>

definition listed :: "kstate \<Rightarrow> ptr \<Rightarrow> ptr \<Rightarrow> bool" where
  "listed s c b \<longleftrightarrow> (\<exists>d bs. ctx_ids s c = Some (d, bs) \<and> b \<in> set bs)"

definition refs :: "kstate \<Rightarrow> ptr \<Rightarrow> ptr \<Rightarrow> ptr \<Rightarrow> nat" where
  "refs s c b fp = of_bool (listed s c b) + of_bool (fp \<in> ran (fds s))"

definition pt_pages :: "dicedev_page_table \<Rightarrow> ptr set" where
  "pt_pages t = {q. page (pt_page t) = Some q \<or> (\<exists>p \<in> set (pages t). page p = Some q)}"

definition table_sound :: "env \<Rightarrow> kmem \<Rightarrow> dicedev_page_table \<Rightarrow> bool" where
  "table_sound E m t \<longleftrightarrow> (\<exists>ep qs. pt_owns E m t ep qs \<and> unat (max_size t) \<le> 4096 * length qs)"

definition buffer_sound :: "env \<Rightarrow> ptr \<Rightarrow> kstate \<Rightarrow> ptr \<Rightarrow> bool" where
  "buffer_sound E d s b \<longleftrightarrow> (\<forall>p d' c fp dead. buff_ids s b = Some (p, d', c, fp, dead) \<longrightarrow> d' = d \<and>
     (\<exists>t. pts s p = Some t \<and> table_sound E (mem s) t) \<and>
     files s fp = Some \<lparr>private_data = PrivBuff b, f_count = refs s c b fp\<rparr> \<and> 0 < refs s c b fp \<and> (\<not> dead \<longrightarrow> listed s c b))"

definition apart :: "kstate \<Rightarrow> ptr \<Rightarrow> ptr \<Rightarrow> bool" where
  "apart s b b' \<longleftrightarrow> (\<forall>p x p' x' t t'. buff_ids s b = Some (p, x) \<longrightarrow> buff_ids s b' = Some (p', x') \<longrightarrow> b \<noteq> b' \<longrightarrow>
     p \<noteq> p' \<and> (pts s p = Some t \<longrightarrow> pts s p' = Some t' \<longrightarrow> pt_pages t \<inter> pt_pages t' = {}))"

definition context_sound :: "ptr \<Rightarrow> kstate \<Rightarrow> ptr \<Rightarrow> bool" where
  "context_sound d s c \<longleftrightarrow> (\<forall>d' bs. ctx_ids s c = Some (d', bs) \<longrightarrow> d' = d \<and> distinct bs \<and>
     (\<forall>b \<in> set bs. \<exists>p d' fp dead. buff_ids s b = Some (p, d', c, fp, dead)))"

definition fd_sound :: "kstate \<Rightarrow> int \<Rightarrow> bool" where
  "fd_sound s fd \<longleftrightarrow> (\<forall>fp. fds s fd = Some fp \<longrightarrow> (\<exists>f. files s fp = Some f \<and> (case private_data f of
     PrivBuff b \<Rightarrow> \<exists>p d c dead. buff_ids s b = Some (p, d, c, fp, dead)
   | PrivCtx c \<Rightarrow> ctx_ids s c \<noteq> None
   | _ \<Rightarrow> True)))"

definition ctxs_below :: "kstate \<Rightarrow> ptr \<Rightarrow> bool" where
  "ctxs_below s n \<longleftrightarrow> (\<forall>b p d c fp dead. buff_ids s b = Some (p, d, c, fp, dead) \<longrightarrow> c < n) \<and>
     (\<forall>fp f c. files s fp = Some f \<longrightarrow> private_data f = PrivCtx c \<longrightarrow> c < n)"

definition below :: "kstate \<Rightarrow> bool" where
  "below s \<longleftrightarrow> (let n = next_ptr (mem s) in dom (buff_ids s) \<subseteq> {..<n} \<and> dom (ctx_ids s) \<subseteq> {..<n} \<and> dom (tasks s) \<subseteq> {..<n} \<and>
     dom (cmds s) \<subseteq> {..<n} \<and> dom (pts s) \<subseteq> {..<n} \<and> dom (files s) \<subseteq> {..<n} \<and> ctxs_below s n)"

text \<open>One descriptor for each file, and one file for each context.\<close>

definition unshared :: "kstate \<Rightarrow> bool" where
  "unshared s \<longleftrightarrow> (\<forall>fd fd' fp. fds s fd = Some fp \<longrightarrow> fds s fd' = Some fp \<longrightarrow> fd = fd') \<and>
     (\<forall>fp fp' f f' c. files s fp = Some f \<longrightarrow> files s fp' = Some f' \<longrightarrow> private_data f = PrivCtx c \<longrightarrow> private_data f' = PrivCtx c \<longrightarrow> fp = fp')"

definition heap_inv :: "env \<Rightarrow> ptr \<Rightarrow> kstate \<Rightarrow> bool" where
  "heap_inv E d s \<longleftrightarrow> kmem_ok (mem s) \<and> ptr_inv (mem s) \<and> below s \<and> unshared s \<and> (\<forall>b. buffer_sound E d s b) \<and>
     (\<forall>b b'. apart s b b') \<and> (\<forall>c. context_sound d s c) \<and> (\<forall>fd. fd_sound s fd)"

text \<open>The tasks use buffers of their own context.\<close>

definition of_ctx :: "kstate \<Rightarrow> ptr \<Rightarrow> ptr \<Rightarrow> bool" where
  "of_ctx s c b \<longleftrightarrow> (\<exists>p d fp dead. buff_ids s b = Some (p, d, c, fp, dead)) \<and> listed s c b"

definition tasks_inv :: "wt_state \<Rightarrow> dicedev_device \<Rightarrow> kstate \<Rightarrow> bool" where
  "tasks_inv w dv s \<longleftrightarrow>
     (\<forall>tp \<in> set (live w dv). \<forall>c b. task_key s tp = Some (c, b) \<longrightarrow> of_ctx s c b) \<and>
     (\<forall>tp \<in> set (waiting w dv). \<forall>t r. tasks s tp = Some t \<longrightarrow> t_body t = DICEDEV_TASK_TYPE_RUN r \<longrightarrow> of_ctx s (t_ctx t) (r_cBuff r))"

definition sys_inv :: "env \<Rightarrow> wt_state \<Rightarrow> dicedev_device \<Rightarrow> kstate \<Rightarrow> bool" where
  "sys_inv E w dv s \<longleftrightarrow> bounded E \<and> dev_inv E w dv s \<and> heap_inv E (wt_dev w) s \<and> tasks_inv w dv s"

subsection \<open>What the invariant depends on\<close>

definition same_heap :: "kstate \<Rightarrow> kstate \<Rightarrow> bool" where
  "same_heap s s' \<longleftrightarrow> page_mem (mem s') = page_mem (mem s) \<and> pts s' = pts s \<and> files s' = files s \<and> fds s' = fds s \<and>
     buff_ids s' = buff_ids s \<and> ctx_ids s' = ctx_ids s"

lemma pt_owns_cong: "page_mem m' = page_mem m \<Longrightarrow> pt_owns E m' t ep qs = pt_owns E m t ep qs"
  by (simp add: pt_owns_def)

lemma same_heap_sound:
  assumes "same_heap s s'"
  shows "listed s' = listed s" "refs s' = refs s" "buffer_sound E d s' = buffer_sound E d s" "apart s' = apart s"
    "context_sound d s' = context_sound d s" "fd_sound s' = fd_sound s" "unshared s' = unshared s" "of_ctx s' = of_ctx s"
proof -
  have h: "page_mem (mem s') = page_mem (mem s)" "pts s' = pts s" "files s' = files s" "fds s' = fds s"
      "buff_ids s' = buff_ids s" "ctx_ids s' = ctx_ids s"
    using assms by (simp_all add: same_heap_def)
  show l: "listed s' = listed s" by (intro ext) (simp add: listed_def h)
  show r: "refs s' = refs s" by (intro ext) (simp add: refs_def h l)
  show "buffer_sound E d s' = buffer_sound E d s"
    by (intro ext) (simp add: buffer_sound_def table_sound_def l r h pt_owns_cong [OF h(1)])
  show "apart s' = apart s" "context_sound d s' = context_sound d s" "fd_sound s' = fd_sound s"
    unfolding apart_def [abs_def] context_sound_def [abs_def] fd_sound_def [abs_def] h by (rule refl)+
  show "unshared s' = unshared s" by (simp add: unshared_def h)
  show "of_ctx s' = of_ctx s" by (intro ext) (simp add: of_ctx_def l h)
qed

lemma kmem_ok_more: "kmem_ok m \<Longrightarrow> page_mem m' = page_mem m \<Longrightarrow> next_ptr m \<le> next_ptr m' \<Longrightarrow> kmem_ok m'"
  unfolding kmem_ok_def by (metis less_le_trans)

lemma heap_inv_frame:
  assumes "heap_inv E d s" "same_heap s s'" "next_ptr (mem s) \<le> next_ptr (mem s')" "ptr_inv (mem s')"
    "dom (tasks s') \<subseteq> {..<next_ptr (mem s')}" "dom (cmds s') \<subseteq> {..<next_ptr (mem s')}"
  shows "heap_inv E d s'"
proof -
  have h: "below s" "buff_ids s' = buff_ids s" "ctx_ids s' = ctx_ids s" "pts s' = pts s" "files s' = files s"
    using assms(1,2) by (simp_all add: heap_inv_def same_heap_def)
  have "ctxs_below s (next_ptr (mem s))" using h(1) by (simp add: below_def Let_def)
  then have "ctxs_below s' (next_ptr (mem s'))" using assms(3) unfolding ctxs_below_def h by (meson less_le_trans)
  then have "below s'" using h(1) assms(5,6) by (simp add: below_def h Let_def dom_below(1) [OF _ assms(3)])
  moreover have "kmem_ok (mem s')" using assms(1-3) kmem_ok_more by (auto simp: heap_inv_def same_heap_def)
  ultimately show ?thesis using assms(1,4) same_heap_sound [OF assms(2)] by (simp add: heap_inv_def)
qed

lemma same_rest_heap: "same_rest s s' \<Longrightarrow> same_heap s s'"
  by (simp add: same_rest_def same_heap_def)

lemma heap_below:
  assumes "heap_inv E d s"
  shows "kmem_ok (mem s)" "ptr_inv (mem s)" "dom (buff_ids s) \<subseteq> {..<next_ptr (mem s)}" "dom (ctx_ids s) \<subseteq> {..<next_ptr (mem s)}"
    "dom (tasks s) \<subseteq> {..<next_ptr (mem s)}" "dom (cmds s) \<subseteq> {..<next_ptr (mem s)}" "dom (pts s) \<subseteq> {..<next_ptr (mem s)}"
    "dom (files s) \<subseteq> {..<next_ptr (mem s)}" "ctxs_below s (next_ptr (mem s))"
  using assms by (simp_all add: heap_inv_def below_def Let_def)

lemma below_ctx:
  assumes "heap_inv E d s"
  shows "buff_ids s b = Some (p, d', c, fp, dead) \<Longrightarrow> c < next_ptr (mem s)"
    "files s fp = Some f \<Longrightarrow> private_data f = PrivCtx c \<Longrightarrow> c < next_ptr (mem s)"
  using heap_below(9) [OF assms] unfolding ctxs_below_def by blast+

end
