(* ===== verification/Dicedev_Queue.thy ===== *)
theory Dicedev_Queue
  imports Dicedev_Heap
begin

text \<open>
  The worker thread, the interrupt handler and the handlers that queue tasks (\<open>write\<close> on a
  buffer and the run ioctl) keep the invariant of the driver.
\<close>

section \<open>Steps that leave the heap alone\<close>

lemma sys_inv_dev: "sys_inv E w dv s \<Longrightarrow> devs s (wt_dev w) = Some dv \<and> \<not> slock dv \<and> \<not> feed_lock dv \<and> drains E"
  by (simp add: sys_inv_def dev_inv_def base_inv_def)

lemma sys_inv_frame:
  assumes inv: "sys_inv E w dv s" and d: "devs s' (wt_dev w) = Some dv'"
    and dv: "buff_slots dv' = buff_slots dv" "free_slots dv' = free_slots dv" "\<not> slock dv'" "\<not> feed_lock dv'" "\<not> dev_failed dv'"
      "pending_tasks dv' = pending_tasks dv" "running_task dv' = running_task dv"
      "running_task dv' = None \<longleftrightarrow> fence_state dv' = DICEDEV_FENCE_STATE_NONE"
    and s: "same_heap s s'" "\<And>b. slot_view s' b = slot_view s b" "tasks s' = tasks s" "cmds s' = cmds s"
      "\<And>c. map_option (\<lambda>cx. (ctx_dev cx, task_count cx)) (ctxs s' c) = map_option (\<lambda>cx. (ctx_dev cx, task_count cx)) (ctxs s c)"
    and m: "next_ptr (mem s) \<le> next_ptr (mem s')" "ptr_inv (mem s')"
  shows "sys_inv E w dv' s'"
proof -
  have l: "live w dv' = live w dv" "waiting w dv' = waiting w dv" using dv by (simp_all add: live_def waiting_def)
  have tk: "task_key s' = task_key s" using s(3) by (simp add: fun_eq_iff task_key_def)
  have h: "heap_inv E (wt_dev w) s" "tasks_inv w dv s" "bounded E" and i: "dev_inv E w dv s" using inv by (simp_all add: sys_inv_def)
  have le: "X \<subseteq> {..<next_ptr (mem s)} \<Longrightarrow> X \<subseteq> {..<next_ptr (mem s')}" for X using m(1) by (meson lessThan_subset_iff subset_trans)
  have "heap_inv E (wt_dev w) s'"
    by (rule heap_inv_frame [OF h(1) s(1) m]) (use h(1) s(3,4) le in \<open>simp_all add: heap_inv_def below_def Let_def\<close>)
  moreover have "tasks_inv w dv' s'"
    using h(2) same_heap_sound(8) [OF s(1)] by (simp add: tasks_inv_def l tk s(3))
  moreover have "base_inv E (wt_dev w) dv' s' (live w dv)"
    by (rule base_inv_frame [where dv = dv and s = s])
      (use i d dv s tk in \<open>simp_all add: dev_inv_def same_heap_def\<close>)
  moreover have "task_sound s' x = task_sound s x" for x
    by (rule task_sound_cong) (use s same_ids(1) [of s' s] in \<open>simp_all add: same_heap_def\<close>)
  ultimately show ?thesis using i h(3) dv l by (simp add: sys_inv_def dev_inv_def)
qed

lemma sys_worker:
  assumes "sys_inv E w dv s"
  shows "wt_fn_step E w s = Inl OOB \<or> (\<exists>w' s' dv'. wt_fn_step E w s = Inr (w', s') \<and> wt_dev w' = wt_dev w \<and>
    sys_inv E w' dv' s' \<and> same_rest s s')"
proof -
  have h: "heap_inv E (wt_dev w) s" "tasks_inv w dv s" "bounded E" and i: "dev_inv E w dv s" using assms by (simp_all add: sys_inv_def)
  consider "wt_fn_step E w s = Inl OOB" | w' s' dv' where "wt_fn_step E w s = Inr (w', s')" "wt_dev w' = wt_dev w"
      "dev_inv E w' dv' s'" "fifo_step (task_failed s) (live w dv) (live w' dv')" "waiting_kept w dv s w' dv' s'"
    using wt_fn_step_ok [OF i] unfolding step_ok_def by blast
  then show ?thesis
  proof cases
    case 2
    note k = 2(5) [unfolded waiting_kept_def]
    then have r: "same_rest s s'" "same_heap s s'" "mem s' = mem s" "cmds s' = cmds s" "dom (tasks s') \<subseteq> dom (tasks s)"
      using same_rest_heap by (auto simp: same_rest_def)
    have "heap_inv E (wt_dev w') s'"
      unfolding 2(2) by (rule heap_inv_frame [OF h(1) r(2)]) (use heap_below [OF h(1)] r(3-5) in auto)
    moreover have "tasks_inv w' dv' s'"
      using h(2) k fifo_step_subset [OF 2(4)] same_heap_sound(8) [OF r(2)] unfolding tasks_inv_def by (metis subsetD)
    ultimately show ?thesis using 2 h(3) r(1) by (auto simp: sys_inv_def)
  qed simp
qed

lemma sys_isr:
  assumes "sys_inv E w dv s"
  shows "(running_task dv = None \<and> (isr_error E dv \<or> isr_fence E dv) \<and> dicedev_isr E (wt_dev w) s = Inl BUG) \<or>
    (\<exists>b s'. dicedev_isr E (wt_dev w) s = Inr (b, s') \<and> sys_inv E w (isr_dev E dv) s' \<and> same_heap s s')"
proof -
  note d = sys_inv_dev [OF assms]
  have i: "dev_inv E w dv s" "ptr_inv (mem s)" using assms by (simp_all add: sys_inv_def heap_inv_def)
  have r: "running_task dv = None \<longleftrightarrow> fence_state dv = DICEDEV_FENCE_STATE_NONE" using i by (simp add: dev_inv_def)
  have f: "\<not> dev_failed dv" using i by (simp add: dev_inv_def base_inv_def)
  show ?thesis
  proof (cases "running_task dv")
    case None
    have "sys_inv E w (isr_dev E dv) (s\<lparr>devs := (devs s)(wt_dev w \<mapsto> isr_dev E dv)\<rparr>)" if "\<not> isr_fence E dv"
      by (rule sys_inv_frame [OF assms]) (use None that d f r i in \<open>simp_all add: isr_dev_def Let_def same_heap_def
        buff_ids_def [abs_def] ctx_ids_def [abs_def] slot_view_def\<close>)
    then show ?thesis using None isr_idle_run [of s "wt_dev w" dv E] d
      by (auto simp: same_heap_def buff_ids_def [abs_def] ctx_ids_def [abs_def])
  next
    case (Some tp)
    have "task_linked (wt_dev w) s tp" using i Some by (simp add: dev_inv_def base_inv_def live_def)
    then obtain t cx where t: "tasks s tp = Some t" "ctxs s (t_ctx t) = Some cx" by (rule task_linkedE) blast
    let ?s = "s\<lparr>devs := (devs s)(wt_dev w \<mapsto> isr_dev E dv),
      ctxs := if isr_error E dv then (ctxs s)(t_ctx t \<mapsto> cx\<lparr>ctx_failed := True\<rparr>) else ctxs s\<rparr>"
    have h: "same_heap s ?s" using t by (auto simp: same_heap_def buff_ids_def [abs_def] ctx_ids_def fun_eq_iff)
    have "sys_inv E w (isr_dev E dv) ?s"
      by (rule sys_inv_frame [OF assms]) (use Some h d f r i t in \<open>auto simp: isr_dev_def Let_def slot_view_def\<close>)
    then show ?thesis using isr_run [of s "wt_dev w" dv tp t cx E] d Some t h by auto
  qed
qed

text \<open>A change of a buffer that neither its owners nor the slot table see.\<close>

lemma sys_buff:
  assumes "sys_inv E w dv s" "buffs s b = Some bf" "buff_pt bf' = buff_pt bf" "buff_dev bf' = buff_dev bf" "buff_ctx bf' = buff_ctx bf"
    "buff_file bf' = buff_file bf" "destroyed bf' = destroyed bf" "binded_slot bf' = binded_slot bf"
  shows "sys_inv E w dv (s\<lparr>buffs := (buffs s)(b \<mapsto> bf')\<rparr>)"
  using sys_inv_dev [OF assms(1)] assms(1)
  by (intro sys_inv_frame [OF assms(1)])
    (use assms(2-) in \<open>auto simp: same_heap_def buff_ids_def ctx_ids_def slot_view_def fun_eq_iff sys_inv_def dev_inv_def base_inv_def heap_inv_def\<close>)

lemma sys_mem:
  assumes "sys_inv E w dv s" "page_mem m = page_mem (mem s)" "next_ptr (mem s) \<le> next_ptr m" "ptr_inv m"
  shows "sys_inv E w dv (s\<lparr>mem := m\<rparr>)"
  using sys_inv_dev [OF assms(1)] assms(1)
  by (intro sys_inv_frame [OF assms(1)])
    (use assms(2-) in \<open>auto simp: same_heap_def buff_ids_def ctx_ids_def slot_view_def fun_eq_iff sys_inv_def dev_inv_def base_inv_def\<close>)

section \<open>Queueing a task\<close>

lemma of_ctx_iff: "buffs s b = Some bf \<Longrightarrow> of_ctx s c b \<longleftrightarrow> buff_ctx bf = c \<and> listed s c b"
  by (auto simp: of_ctx_def buff_ids_def)

lemma heap_ctx:
  assumes "heap_inv E d s" "ctxs s c = Some cx"
  shows "ctx_dev cx = d" "distinct (allocated_buffers cx)" "b \<in> set (allocated_buffers cx) \<Longrightarrow> \<exists>bf. buffs s b = Some bf \<and> buff_ctx bf = c"
proof -
  have "context_sound d s c" using assms(1) by (simp add: heap_inv_def)
  then show "ctx_dev cx = d" "distinct (allocated_buffers cx)" "b \<in> set (allocated_buffers cx) \<Longrightarrow> \<exists>bf. buffs s b = Some bf \<and> buff_ctx bf = c"
    using assms(2) by (fastforce simp: context_sound_def ctx_ids_def buff_ids_def)+
qed

lemma of_ctxE:
  assumes "heap_inv E d s" "of_ctx s c b"
  obtains bf cx t where "buffs s b = Some bf" "buff_dev bf = d" "buff_ctx bf = c" "ctxs s c = Some cx" "ctx_dev cx = d"
    "pts s (buff_pt bf) = Some t" "table_sound E (mem s) t" "b \<in> set (allocated_buffers cx)"
proof -
  obtain bf cx where b: "buffs s b = Some bf" "buff_ctx bf = c" "ctxs s c = Some cx" "b \<in> set (allocated_buffers cx)"
    using assms(2) by (auto simp: of_ctx_def listed_def buff_ids_def ctx_ids_def)
  have "buffer_sound E d s b" "context_sound d s c" using assms(1) by (simp_all add: heap_inv_def)
  then show thesis using that b by (auto simp: buffer_sound_def context_sound_def buff_ids_def ctx_ids_def)
qed

lemma task_sound_more:
  assumes "task_sound s x" "tasks s' x = tasks s x" "\<And>y z. cmds s y = Some z \<Longrightarrow> cmds s' y = Some z"
    and "buff_key s' = buff_key s" "pts s' = pts s" "page_mem (mem s') = page_mem (mem s)"
  shows "task_sound s' x"
proof -
  obtain t where t: "tasks s x = Some t" "body_sound s (t_body t)" using assms(1) by (auto simp: task_sound_def)
  have "body_sound s' (t_body t)"
    using t(2) assms(3) same_pages [OF assms(4-6)] by (cases "t_body t") auto
  then show ?thesis using t(1) assms(2) by (simp add: task_sound_def)
qed

definition queued :: "ptr \<Rightarrow> dicedev_context \<Rightarrow> ptr \<Rightarrow> dicedev_task \<Rightarrow> kmem \<Rightarrow> (ptr \<rightharpoonup> u32 list) \<Rightarrow> ptr \<Rightarrow> dicedev_device \<Rightarrow> kstate \<Rightarrow> kstate" where
  "queued c cx tp t m cm d dv s = s\<lparr>mem := m, ctxs := (ctxs s)(c \<mapsto> cx\<lparr>task_count := task_count cx + 1\<rparr>), cmds := cm,
     tasks := (tasks s)(tp \<mapsto> t), devs := (devs s)(d \<mapsto> dv)\<rparr>"

lemma queued_counted:
  assumes "counted d s l" "ctxs s c = Some cx" "t_ctx t = c" "tp \<notin> set l"
  shows "counted d (queued c cx tp t m cm d dv s) (l @ [tp])"
  unfolding counted_def
proof (intro allI impI)
  let ?s = "queued c cx tp t m cm d dv s"
  fix c' cx' assume a: "ctxs ?s c' = Some cx' \<and> ctx_dev cx' = d"
  have "tasks_of ?s c' l = tasks_of s c' l"
    unfolding tasks_of_def by (rule filter_cong) (use assms(4) in \<open>auto simp: queued_def task_key_def\<close>)
  moreover have "tasks_of ?s c' [tp] = (if c' = c then [tp] else [])" using assms(3) by (simp add: tasks_of_def task_key_def queued_def)
  moreover have "tasks_of ?s c' (l @ [tp]) = tasks_of ?s c' l @ tasks_of ?s c' [tp]" by (simp add: tasks_of_def)
  ultimately show "task_count cx' = of_nat (length (tasks_of ?s c' (l @ [tp])))"
    using a assms(1,2) by (auto simp: counted_def queued_def split: if_splits)
qed

lemma sys_queue:
  assumes inv: "sys_inv E w dv s" and c: "ctxs s c = Some cx"
    and t: "t_ctx t = c" "of_ctx s c (t_buff_out t)" "\<And>r. t_body t = DICEDEV_TASK_TYPE_RUN r \<Longrightarrow> of_ctx s c (r_cBuff r)"
    and m: "page_mem m = page_mem (mem s)" "next_ptr (mem s) \<le> tp" "tp < next_ptr m" "ptr_inv m"
    and cm: "\<And>x y. cmds s x = Some y \<Longrightarrow> cm x = Some y" "dom cm \<subseteq> {..<next_ptr m}"
    and dv': "dv' = dv\<lparr>pending_tasks := pending_tasks dv @ [tp], event_cond := k\<rparr>"
    and snd: "body_sound (queued c cx tp t m cm (wt_dev w) dv' s) (t_body t)"
  shows "sys_inv E w dv' (queued c cx tp t m cm (wt_dev w) dv' s) \<and> live w dv' = live w dv @ [tp]"
proof -
  let ?d = "wt_dev w" and ?s = "queued c cx tp t m cm (wt_dev w) dv' s"
  have h: "heap_inv E ?d s" "tasks_inv w dv s" "bounded E" and i: "dev_inv E w dv s" using inv by (simp_all add: sys_inv_def)
  have b: "drains E" "devs s ?d = Some dv" "slots_ok ?d s" "\<not> slock dv" "\<not> feed_lock dv" "\<not> dev_failed dv" "distinct (live w dv)"
      "\<forall>x \<in> set (live w dv). task_linked ?d s x" "counted ?d s (live w dv)"
    using i by (simp_all add: dev_inv_def base_inv_def)
  have l: "live w dv' = live w dv @ [tp]" "waiting w dv' = waiting w dv @ [tp]" by (simp_all add: dv' live_def waiting_def)
  have new: "tasks s tp = None" by (rule fresh_None [OF heap_below(5) [OF h(1)] m(2)])
  have tp: "tp \<notin> set (live w dv)" using b(8) new by (auto simp: task_linked_def task_key_def)
  then have tpw: "tp \<notin> set (waiting w dv)" by (simp add: live_def waiting_def)
  have hp: "same_heap s ?s" using c m(1) by (auto simp: same_heap_def queued_def buff_ids_def ctx_ids_def fun_eq_iff)
  have le: "next_ptr (mem s) \<le> next_ptr m" using m(2,3) by simp
  have "dom (tasks ?s) \<subseteq> {..<next_ptr m}" using dom_below(2) [OF heap_below(5) [OF h(1)] le m(3)] by (simp add: queued_def)
  then have heap: "heap_inv E ?d ?s"
    by (intro heap_inv_frame [OF h(1) hp]) (use le m(4) cm(2) in \<open>simp_all add: queued_def\<close>)
  have tk: "x \<noteq> tp \<Longrightarrow> task_key ?s x = task_key s x" for x by (simp add: queued_def task_key_def)
  have keys: "ctx_key ?s = ctx_key s" "buff_key ?s = buff_key s" "pts ?s = pts s"
    using hp same_ids [of ?s s] by (simp_all add: same_heap_def)
  have ti: "tasks_inv w dv' ?s"
    using h(2) t tp tpw same_heap_sound(8) [OF hp] unfolding tasks_inv_def l
    by (auto simp: queued_def task_key_def)
  have old: "task_linked ?d ?s x" if "x \<in> set (live w dv)" for x
    using b(8) that tp tk task_linked_cong [of ?s x s, OF _ keys] by metis
  have own: "task_linked ?d ?s tp"
    by (rule of_ctxE [OF h(1) t(2)]) (use t(1) c in \<open>auto simp: task_linked_def task_key_def ctx_key_def buff_key_def queued_def\<close>)
  have "slots_ok ?d ?s = slots_ok ?d s" by (rule slots_ok_cong [of _ _ dv _ dv']) (use b in \<open>simp_all add: queued_def dv'\<close>)
  then have base: "base_inv E ?d dv' ?s (live w dv @ [tp])"
    using b tp old own queued_counted [OF b(9) c t(1) tp, of m cm dv'] by (auto simp: base_inv_def dv' queued_def)
  have sound: "task_sound ?s x" if "x \<in> set (waiting w dv)" for x
  proof (rule task_sound_more)
    show "task_sound s x" using that i by (auto simp: dev_inv_def waiting_def)
    show "tasks ?s x = tasks s x" using that tpw by (auto simp: queued_def)
    show "cmds ?s y = Some z" if "cmds s y = Some z" for y z using cm(1) [OF that] by (simp add: queued_def)
  qed (use keys m(1) in \<open>simp_all add: queued_def\<close>)
  have "task_sound ?s tp" using snd by (simp add: task_sound_def) (simp add: queued_def)
  then have "dev_inv E w dv' ?s" using base i sound l by (auto simp: dev_inv_def waiting_def dv')
  then show ?thesis using heap ti h(3) l by (simp add: sys_inv_def)
qed

section \<open>The handlers that queue tasks\<close>

lemma mod4_dvd: "a mod 4 = 0 \<longleftrightarrow> 4 dvd unat a" "b mod 4 = 0 \<longleftrightarrow> 4 dvd unat b" for a :: u32 and b :: u64
  by (simp_all add: word_unat_eq_iff unat_mod dvd_eq_mod_eq_0)

lemma table_backed:
  assumes "buffs s b = Some bf" "pts s (buff_pt bf) = Some t" "table_sound E (mem s) t"
  shows "backed s b" "buffer_pages s b = pages t" "num_pages t = length (pages t)" "unat (max_size t) \<le> 4096 * length (pages t)"
proof -
  obtain ep qs where o: "pt_owns E (mem s) t ep qs" "unat (max_size t) \<le> 4096 * length qs" using assms(3) by (auto simp: table_sound_def)
  show p: "buffer_pages s b = pages t" using assms(1,2) by (simp add: buffer_pages_def)
  show "num_pages t = length (pages t)" "unat (max_size t) \<le> 4096 * length (pages t)" using o by (simp_all add: pt_owns_def)
  show "backed s b" using assms(1,2) o(1) by (auto simp: backed_def p pt_owns_def page_words_def)
qed

lemma buffer_fd:
  assumes "heap_inv E d s" "fds s fd = Some fp" "files s fp = Some f" "private_data f = PrivBuff b"
  obtains bf t where "buffs s b = Some bf" "buff_file bf = fp" "buff_dev bf = d" "pts s (buff_pt bf) = Some t" "table_sound E (mem s) t"
    "\<not> destroyed bf \<longrightarrow> of_ctx s (buff_ctx bf) b"
proof -
  have fd: "fd_sound s fd" and b: "buffer_sound E d s b" using assms(1) by (simp_all add: heap_inv_def)
  obtain bf where bf: "buffs s b = Some bf" "buff_file bf = fp"
    using fd assms(2-4) by (auto simp: fd_sound_def buff_ids_def)
  then obtain t where "pts s (buff_pt bf) = Some t" "table_sound E (mem s) t" "buff_dev bf = d"
      "\<not> destroyed bf \<longrightarrow> listed s (buff_ctx bf) b"
    using b by (auto simp: buffer_sound_def buff_ids_def)
  then show thesis using that bf by (simp add: of_ctx_iff)
qed

lemma sys_write_queued:
  assumes inv: "sys_inv E w dv s" and bf: "buffs s b = Some bf" "of_ctx s (buff_ctx bf) b" "ctxs s (buff_ctx bf) = Some cx"
    and c: "count mod 4 = 0" "alloc_ok E (clock (mem s))" "alloc_ok E (Suc (clock (mem s)))" and d: "buff_dev bf = wt_dev w"
  shows "sys_inv E w (dv\<lparr>pending_tasks := pending_tasks dv @ [Suc (next_ptr (mem s))], event_cond := Suc (event_cond dv)\<rparr>)
    (write_queued b bf cx dv u count s)"
proof -
  let ?cp = "next_ptr (mem s)" and ?c = "buff_ctx bf"
  let ?m = "(mem s)\<lparr>next_ptr := Suc (Suc ?cp), clock := Suc (Suc (clock (mem s)))\<rparr>"
  let ?cm = "(cmds s)(?cp \<mapsto> map u [0..<unat count div 4])" and ?t = "new_write ?c b ?cp count"
  let ?dv = "dv\<lparr>pending_tasks := pending_tasks dv @ [Suc ?cp], event_cond := Suc (event_cond dv)\<rparr>"
  have h: "heap_inv E (wt_dev w) s" "bounded E" using inv by (simp_all add: sys_inv_def)
  have p: "ptr_inv ?m" using heap_below(2) [OF h(1)] h(2) c(2,3) by (auto simp: ptr_inv_def bounded_def)
  have fresh: "cmds s ?cp = None" by (rule fresh_None [OF heap_below(6) [OF h(1)]]) simp
  have q: "write_queued b bf cx dv u count s = queued ?c cx (Suc ?cp) ?t ?m ?cm (wt_dev w) ?dv s"
    by (simp add: write_queued_def queued_def Let_def d)
  have n: "4 * (unat count div 4) = unat count" using c(1) by (simp add: mod4_dvd)
  have "unat count < 2 ^ 64" using unsigned_less [of count] by simp
  then have "unat count div 4 < 2 ^ 62" by (simp add: less_mult_imp_div_less)
  moreover have "count = word_bytes (unat count div 4)" unfolding word_bytes_def n by simp
  ultimately have "body_sound (queued ?c cx (Suc ?cp) ?t ?m ?cm (wt_dev w) ?dv s) (t_body ?t)"
    by (simp add: new_write_def queued_def)
  then show ?thesis
    unfolding q using dom_below(2) [OF heap_below(6) [OF h(1)], of "next_ptr ?m" ?cp] fresh p bf
    by (intro sys_queue [where tp = "Suc ?cp" and k = "Suc (event_cond dv)", OF inv bf(3), THEN conjunct1])
      (auto simp: new_write_def)
qed

lemma sys_write:
  assumes inv: "sys_inv E w dv s" and f: "fds s fd = Some fp" "files s fp = Some f" "private_data f = PrivBuff b"
  shows "(\<exists>r s' dv'. dicedev_buffer_write E fp ubuf count s = Inr (r, s') \<and> sys_inv E w dv' s' \<and> same_heap s s') \<or>
    (ubuf = None \<or> \<not> alloc_ok E (clock (mem s)) \<or> \<not> alloc_ok E (Suc (clock (mem s)))) \<and>
      (dicedev_buffer_write E fp ubuf count s = Inl WILD \<or> dicedev_buffer_write E fp ubuf count s = Inl NULL_DEREF)"
proof -
  let ?d = "wt_dev w"
  have h: "heap_inv E ?d s" "bounded E" using inv by (simp_all add: sys_inv_def)
  note d = sys_inv_dev [OF inv]
  obtain bf where bf: "buffs s b = Some bf" "buff_dev bf = ?d" "\<not> destroyed bf \<longrightarrow> of_ctx s (buff_ctx bf) b"
    using buffer_fd [OF h(1) f] by metis
  consider "count mod 4 \<noteq> 0" | "count mod 4 = 0" "destroyed bf" | "count mod 4 = 0" "\<not> destroyed bf" by argo
  then show ?thesis
  proof cases
    case 1
    then show ?thesis using inv by (auto simp: dicedev_buffer_write_def same_heap_def)
  next
    case 2
    then have "dicedev_buffer_write E fp ubuf count s = Inr (Inl EPERM, s)"
      using f bf d by (simp add: dicedev_buffer_write_def file_buff_def as_buff_def Let_def del: bindR_eq_Inr)
    then show ?thesis using inv by (auto simp: same_heap_def)
  next
    case 3
    obtain cx where cx: "ctxs s (buff_ctx bf) = Some cx" "ctx_dev cx = ?d" using of_ctxE [OF h(1) bf(3) [rule_format, OF 3(2)]] by metis
    have u: "usable fp b bf cx dv s" using f bf cx d 3 by (auto simp: usable_def)
    show ?thesis
    proof (cases "ubuf \<noteq> None \<and> alloc_ok E (clock (mem s)) \<and> alloc_ok E (Suc (clock (mem s)))")
      case False
      then show ?thesis using write_run [OF u 3(1), of E ubuf] by (auto split: option.splits if_splits)
    next
      case True
      then obtain ub where ub: "ubuf = Some ub" by auto
      have run: "dicedev_buffer_write E fp ubuf count s = Inr (Inr count, write_queued b bf cx dv ub count s)"
        using write_run [OF u 3(1), of E ubuf] True ub by simp
      let ?dv = "dv\<lparr>pending_tasks := pending_tasks dv @ [Suc (next_ptr (mem s))], event_cond := Suc (event_cond dv)\<rparr>"
      have "sys_inv E w ?dv (write_queued b bf cx dv ub count s)"
        using sys_write_queued [OF inv bf(1) bf(3) [rule_format, OF 3(2)] cx(1) 3(1)] True bf(2) by simp
      moreover have "same_heap s (write_queued b bf cx dv ub count s)"
        using cx by (auto simp: same_heap_def write_queued_def Let_def buff_ids_def ctx_ids_def fun_eq_iff)
      ultimately show ?thesis using run by blast
    qed
  qed
qed

text \<open>While a context is there, it lists all its buffers.\<close>

definition all_listed :: "kstate \<Rightarrow> bool" where
  "all_listed s \<longleftrightarrow> (\<forall>b p d c fp dead. buff_ids s b = Some (p, d, c, fp, dead) \<longrightarrow> ctx_ids s c \<noteq> None \<longrightarrow> listed s c b)"

lemma all_listed_same: "same_heap s s' \<Longrightarrow> all_listed s' = all_listed s"
  using same_heap_sound(1) [of s s'] by (simp add: all_listed_def same_heap_def)

lemma fd_private_cases:
  assumes "heap_inv E d s"
  obtains "fd_private fd s = Inl NULL_DEREF" | p where "fd_private fd s = Inr p" "\<forall>b. p \<noteq> PrivBuff b"
  | b bf t where "fd_private fd s = Inr (PrivBuff b)" "names_buffer fd b bf s" "buffs s b = Some bf" "buff_dev bf = d"
    "pts s (buff_pt bf) = Some t" "table_sound E (mem s) t"
proof (cases "fds s fd")
  case None
  then show thesis using that(1) by (simp add: fd_private_def)
next
  case (Some fp)
  have "fd_sound s fd" using assms by (simp add: heap_inv_def)
  then obtain f where f: "files s fp = Some f" using Some by (auto simp: fd_sound_def)
  show thesis
  proof (cases "\<exists>b. private_data f = PrivBuff b")
    case True
    then obtain b where b: "private_data f = PrivBuff b" by blast
    obtain bf t where "buffs s b = Some bf" "buff_dev bf = d" "pts s (buff_pt bf) = Some t" "table_sound E (mem s) t"
      using buffer_fd [OF assms Some f b] by metis
    then show thesis using that(3) [of b bf t] Some f b by (auto simp: fd_private_def names_buffer_def)
  next
    case False
    then show thesis using that(2) [of "private_data f"] Some f by (simp add: fd_private_def)
  qed
qed

definition run_fds_ok :: "dicedev_ioctl_run \<Rightarrow> kstate \<Rightarrow> bool" where
  "run_fds_ok r s \<longleftrightarrow> (\<exists>cb cbf. names_buffer (run_cfd r) cb cbf s) \<and> (\<exists>db dbf. names_buffer (run_bfd r) db dbf s)"

lemma names_bufferD:
  assumes "heap_inv E d s" "names_buffer fd b bf s"
  shows "buffs s b = Some bf" "buff_dev bf = d" "\<exists>t. pts s (buff_pt bf) = Some t \<and> table_sound E (mem s) t"
proof -
  obtain fp f where f: "fds s fd = Some fp" "files s fp = Some f" "private_data f = PrivBuff b" and b: "buffs s b = Some bf"
    using assms(2) by (auto simp: names_buffer_def)
  show "buffs s b = Some bf" by (rule b)
  show "buff_dev bf = d" "\<exists>t. pts s (buff_pt bf) = Some t \<and> table_sound E (mem s) t"
    by (rule buffer_fd [OF assms(1) f]; use b in auto)+
qed

lemma run_bad_fds:
  assumes "heap_inv E d s" "\<not> run_fds_ok r s"
  shows "dicedev_ioctl_run E c (Some r) s \<in> {Inl NULL_DEREF, Inl WILD, Inr (Inl EINVAL, s)}"
proof -
  have n: "as_buff p = Inl WILD" if "\<forall>b. p \<noteq> PrivBuff b" "p \<noteq> PrivNull" for p
    using that by (cases p) (auto simp: as_buff_def)
  show ?thesis
    by (rule fd_private_cases [OF assms(1), of "run_cfd r"]; rule fd_private_cases [OF assms(1), of "run_bfd r"])
      (use assms(2) n in \<open>auto simp: dicedev_ioctl_run_def run_fds_ok_def as_buff_def [of "PrivBuff _"]\<close>)
qed

lemma sys_run_queued:
  assumes inv: "sys_inv E w dv s" "all_listed s" and c: "ctxs s c = Some cx" "ctx_dev cx = wt_dev w"
    and b: "buffs s cb = Some cbf" "buffs s db = Some dbf" "pts s (buff_pt cbf) = Some t" "table_sound E (mem s) t"
    and r: "\<not> run_refused c r cbf dbf t" "alloc_ok E (clock (mem s))"
  shows "sys_inv E w (dv\<lparr>pending_tasks := pending_tasks dv @ [next_ptr (mem s)], event_cond := Suc (event_cond dv)\<rparr>)
    (run_queued c cb db r cx dv s)"
proof -
  let ?tp = "next_ptr (mem s)" and ?t = "new_run c cb db r"
  let ?m = "(mem s)\<lparr>next_ptr := Suc ?tp, clock := Suc (clock (mem s))\<rparr>"
  let ?dv = "dv\<lparr>pending_tasks := pending_tasks dv @ [?tp], event_cond := Suc (event_cond dv)\<rparr>"
  have h: "heap_inv E (wt_dev w) s" "bounded E" using inv by (simp_all add: sys_inv_def)
  have p: "ptr_inv ?m" using heap_below(2) [OF h(1)] h(2) r(2) by (auto simp: ptr_inv_def bounded_def)
  have q: "run_queued c cb db r cx dv s = queued c cx ?tp ?t ?m (cmds s) (wt_dev w) ?dv s" (is "_ = ?s")
    by (simp add: run_queued_def queued_def Let_def c(2))
  have "buff_ctx cbf = c" "buff_ctx dbf = c" using r(1) by (simp_all add: run_refused_def)
  then have own: "of_ctx s c cb" "of_ctx s c db"
    using inv(2) b(1,2) c(1) by (auto simp: of_ctx_iff all_listed_def buff_ids_def ctx_ids_def)
  note bk = table_backed [OF b(1,3,4)]
  have same: "backed ?s cb = backed s cb" "buffer_pages ?s cb = buffer_pages s cb"
    using same_pages(2,4) [of ?s s] by (simp_all add: queued_def buff_key_def fun_eq_iff)
  have "4 dvd unat (run_addr r)" "4 dvd unat (run_size r)" "unat (run_addr r) + unat (run_size r) \<le> 4096 * length (pages t)"
    using r(1) bk(4) by (simp_all add: run_refused_def mod4_dvd)
  then have "body_sound ?s (t_body ?t)" using bk same by (simp add: new_run_def unat_widen)
  then show ?thesis
    unfolding q using dom_below(1) [OF heap_below(6) [OF h(1)], of "next_ptr ?m"] own p
    by (intro sys_queue [where tp = ?tp and k = "Suc (event_cond dv)", OF inv(1) c(1), THEN conjunct1])
      (auto simp: new_run_def)
qed

lemma sys_run:
  assumes inv: "sys_inv E w dv s" "all_listed s" and c: "ctxs s c = Some cx" and ok: "run_fds_ok r s"
  shows "\<exists>x s' dv'. dicedev_ioctl_run E c (Some r) s = Inr (x, s') \<and> sys_inv E w dv' s' \<and> same_heap s s'"
proof -
  let ?d = "wt_dev w"
  have h: "heap_inv E ?d s" "bounded E" using inv by (simp_all add: sys_inv_def)
  note d = sys_inv_dev [OF inv(1)]
  obtain cb cbf db dbf where n: "names_buffer (run_cfd r) cb cbf s" "names_buffer (run_bfd r) db dbf s"
    using ok by (auto simp: run_fds_ok_def)
  note cb = names_bufferD [OF h(1) n(1)] and db = names_bufferD [OF h(1) n(2)]
  obtain t where t: "pts s (buff_pt cbf) = Some t" "table_sound E (mem s) t" using cb(3) by blast
  have cd: "ctx_dev cx = ?d" by (rule heap_ctx(1) [OF h(1) c])
  have run: "dicedev_ioctl_run E c (Some r) s = (if run_refused c r cbf dbf t then Inr (Inl EINVAL, s)
    else if ctx_failed cx then Inr (Inl EIO, s)
    else if alloc_ok E (clock (mem s)) then Inr (Inr 0, run_queued c cb db r cx dv s)
    else Inr (Inl ENOMEM, s\<lparr>mem := (mem s)\<lparr>clock := Suc (clock (mem s))\<rparr>\<rparr>))"
    by (rule run_run [OF n t(1) c]) (use cd db d in simp_all)
  consider "run_refused c r cbf dbf t \<or> ctx_failed cx" | "\<not> run_refused c r cbf dbf t" "\<not> ctx_failed cx" "\<not> alloc_ok E (clock (mem s))"
    | "\<not> run_refused c r cbf dbf t" "\<not> ctx_failed cx" "alloc_ok E (clock (mem s))" by argo
  then show ?thesis
  proof cases
    case 1
    then have "\<exists>x. dicedev_ioctl_run E c (Some r) s = Inr (x, s)" using run by auto
    then show ?thesis using inv(1) by (auto simp: same_heap_def)
  next
    case 2
    let ?m = "(mem s)\<lparr>clock := Suc (clock (mem s))\<rparr>"
    have "sys_inv E w dv (s\<lparr>mem := ?m\<rparr>)"
      by (rule sys_mem [OF inv(1)]) (use heap_below(2) [OF h(1)] in \<open>simp_all add: ptr_inv_def\<close>)
    moreover have "same_heap s (s\<lparr>mem := ?m\<rparr>)" by (simp add: same_heap_def buff_ids_def [abs_def] ctx_ids_def [abs_def])
    ultimately show ?thesis using run 2 by auto
  next
    case 3
    have "sys_inv E w (dv\<lparr>pending_tasks := pending_tasks dv @ [next_ptr (mem s)], event_cond := Suc (event_cond dv)\<rparr>)
        (run_queued c cb db r cx dv s)"
      by (rule sys_run_queued [OF inv c cd cb(1) db(1) t 3(1,3)])
    moreover have "same_heap s (run_queued c cb db r cx dv s)"
      using c by (auto simp: same_heap_def run_queued_def Let_def buff_ids_def ctx_ids_def fun_eq_iff)
    ultimately show ?thesis using run 3 by auto
  qed
qed

end
