(* ===== verification/Dicedev_Lifetime.thy ===== *)
theory Dicedev_Lifetime
  imports Dicedev_Queue
begin

text \<open>
  The life of contexts, buffers and descriptors: opening the device, creating a buffer, closing
  a descriptor and releasing a context keep the invariant of the driver.
\<close>

section \<open>Steps that change the heap\<close>

lemma live_ctx:
  assumes "sys_inv E w dv s" "tp \<in> set (live w dv)"
  obtains c b where "task_key s tp = Some (c, b)" "of_ctx s c b" "map_option fst (task_key s tp) = Some c"
proof -
  have "task_linked (wt_dev w) s tp" using assms by (simp add: sys_inv_def dev_inv_def base_inv_def)
  then obtain c b where k: "task_key s tp = Some (c, b)" by (auto simp: task_linked_def)
  moreover have "of_ctx s c b" using assms k by (simp add: sys_inv_def tasks_inv_def)
  ultimately show thesis using that by simp
qed

lemma sys_inv_heap:
  assumes inv: "sys_inv E w dv s" and h: "heap_inv E (wt_dev w) s'" and d: "devs s' (wt_dev w) = Some dv'"
    and dv: "\<not> slock dv'" "\<not> feed_lock dv'" "\<not> dev_failed dv'" "pending_tasks dv' = pending_tasks dv"
      "running_task dv' = running_task dv" "fence_state dv' = fence_state dv"
    and s: "slots_ok (wt_dev w) s'" "tasks s' = tasks s" "cmds s' = cmds s" "counted (wt_dev w) s' (live w dv)"
    and own: "\<And>tp c b. tp \<in> set (live w dv) \<Longrightarrow> map_option fst (task_key s tp) = Some c \<Longrightarrow> of_ctx s c b \<Longrightarrow>
      of_ctx s' c b \<and> buffer_pages s' b = buffer_pages s b"
  shows "sys_inv E w dv' s'"
proof -
  have l: "live w dv' = live w dv" "waiting w dv' = waiting w dv" using dv by (simp_all add: live_def waiting_def)
  have wl: "set (waiting w dv) \<subseteq> set (live w dv)" by (auto simp: live_def waiting_def)
  have tk: "task_key s' = task_key s" using s(2) by (simp add: fun_eq_iff task_key_def)
  have i: "tasks_inv w dv s" "bounded E" "dev_inv E w dv s" using inv by (simp_all add: sys_inv_def)
  have linked: "task_linked (wt_dev w) s' tp" if tp: "tp \<in> set (live w dv)" for tp
  proof -
    obtain c b where k: "task_key s tp = Some (c, b)" "of_ctx s c b" using live_ctx [OF inv tp] by metis
    then have "of_ctx s' c b" using own tp by simp
    then show ?thesis by (rule of_ctxE [OF h]) (use k(1) tk in \<open>auto simp: task_linked_def ctx_key_def buff_key_def\<close>)
  qed
  have run: "of_ctx s' (t_ctx t) (r_cBuff r) \<and> buffer_pages s' (r_cBuff r) = buffer_pages s (r_cBuff r)"
    if "tp \<in> set (waiting w dv)" "tasks s tp = Some t" "t_body t = DICEDEV_TASK_TYPE_RUN r" for tp t r
    using own [of tp "t_ctx t" "r_cBuff r"] that i(1) wl by (auto simp: tasks_inv_def task_key_def)
  have sound: "task_sound s' tp" if tp: "tp \<in> set (waiting w dv)" for tp
  proof -
    obtain t where t: "tasks s tp = Some t" "body_sound s (t_body t)"
      using i(3) tp by (auto simp: dev_inv_def waiting_def task_sound_def)
    have "body_sound s' (t_body t)"
    proof (cases "t_body t")
      case (DICEDEV_TASK_TYPE_WRITE x)
      then show ?thesis using t(2) s(3) by simp
    next
      case (DICEDEV_TASK_TYPE_RUN r)
      note r = run [OF tp t(1) this]
      have "backed s' (r_cBuff r)" by (rule of_ctxE [OF h conjunct1 [OF r]]) (rule table_backed(1))
      then show ?thesis using t(2) r DICEDEV_TASK_TYPE_RUN by simp
    qed
    then show ?thesis using t(1) s(2) by (simp add: task_sound_def)
  qed
  have "of_ctx s' c b" if "tp \<in> set (live w dv)" "task_key s tp = Some (c, b)" for tp c b
    using own [of tp c b] that i(1) by (simp add: tasks_inv_def)
  then have "tasks_inv w dv' s'" using run unfolding tasks_inv_def l tk s(2) by blast
  moreover have "dev_inv E w dv' s'"
    using i(3) linked sound d dv s l by (auto simp: dev_inv_def base_inv_def waiting_def)
  ultimately show ?thesis using h i(2) by (simp add: sys_inv_def)
qed

text \<open>Giving up the slot of a buffer.\<close>

lemma sys_unbind:
  assumes inv: "sys_inv E w dv s" and b: "buffs s b = Some bf" "buff_dev bf = wt_dev w" "binded_slot bf \<noteq> -1"
  shows "sys_inv E w (dev_unbound E bf dv) (s\<lparr>devs := (devs s)(wt_dev w \<mapsto> dev_unbound E bf dv), buffs := (buffs s)(b \<mapsto> buff_unbound bf)\<rparr>)"
    (is "sys_inv E w ?dv ?s")
proof -
  have h: "heap_inv E (wt_dev w) s" and i: "slots_ok (wt_dev w) s" "devs s (wt_dev w) = Some dv" "\<not> slock dv" "\<not> feed_lock dv"
      "\<not> dev_failed dv" "counted (wt_dev w) s (live w dv)"
    using inv by (simp_all add: sys_inv_def dev_inv_def base_inv_def)
  have hp: "same_heap s ?s" using b by (auto simp: same_heap_def buff_ids_def ctx_ids_def buff_unbound_def fun_eq_iff)
  have "heap_inv E (wt_dev w) ?s" by (rule heap_inv_frame [OF h hp]) (use heap_below [OF h] in simp_all)
  moreover obtain k where k: "binded_slot bf = int k" using bound_slot_int [OF i(1) b] by auto
  have "slots_ok (wt_dev w) ?s" using slots_ok_unbind [OF i(1,2) b(1,2) k] k by (simp add: dev_unbound_def buff_unbound_def)
  moreover have "counted (wt_dev w) ?s (live w dv)" using i(6) counted_cong [of ?s s] by (simp add: task_key_def [abs_def])
  moreover have "buffer_pages ?s x = buffer_pages s x" for x by (simp add: buffer_pages_def buff_unbound_def b)
  ultimately show ?thesis
    using i same_heap_sound(8) [OF hp] by (intro sys_inv_heap [OF inv]) (simp_all add: dev_unbound_def)
qed

section \<open>Steps that change one buffer\<close>

text \<open>
  A step that changes nothing but buffer \<open>b\<close> (with page table \<open>p\<close> and file \<open>fp\<close>) and the
  references to it: it may take \<open>b\<close> off a list, close descriptors of \<open>fp\<close>, and free what
  belongs to \<open>b\<close>.
\<close>

definition only_buffer :: "ptr \<Rightarrow> ptr \<Rightarrow> ptr \<Rightarrow> dicedev_page_table \<Rightarrow> kstate \<Rightarrow> kstate \<Rightarrow> bool" where
  "only_buffer b p fp t s s' \<longleftrightarrow> (\<forall>x. x \<noteq> b \<longrightarrow> buff_ids s' x = buff_ids s x) \<and>
     (\<forall>x. ctx_ids s' x = ctx_ids s x \<or> (\<exists>d bs. ctx_ids s x = Some (d, bs) \<and> ctx_ids s' x = Some (d, remove1 b bs))) \<and>
     (\<forall>x. x \<noteq> fp \<longrightarrow> files s' x = files s x) \<and> (\<forall>x. fds s' x = fds s x \<or> fds s x = Some fp \<and> fds s' x = None) \<and>
     (\<forall>x. x \<noteq> p \<longrightarrow> pts s' x = pts s x) \<and> (\<forall>x. x \<notin> pt_pages t \<longrightarrow> page_mem (mem s') x = page_mem (mem s) x) \<and>
     next_ptr (mem s') = next_ptr (mem s) \<and> clock (mem s') = clock (mem s) \<and> kmem_ok (mem s') \<and> tasks s' = tasks s \<and> cmds s' = cmds s"

definition buffer_kept :: "ptr \<Rightarrow> ptr \<Rightarrow> ptr \<Rightarrow> ptr \<Rightarrow> ptr \<Rightarrow> dicedev_page_table \<Rightarrow> kstate \<Rightarrow> kstate \<Rightarrow> bool" where
  "buffer_kept b p d c fp t s s' \<longleftrightarrow> (\<exists>dead. buff_ids s' b = Some (p, d, c, fp, dead) \<and> (\<not> dead \<longrightarrow> listed s' c b)) \<and>
     pts s' p = Some t \<and> page_mem (mem s') = page_mem (mem s) \<and>
     files s' fp = Some \<lparr>private_data = PrivBuff b, f_count = refs s' c b fp\<rparr> \<and> 0 < refs s' c b fp"

definition buffer_gone :: "ptr \<Rightarrow> ptr \<Rightarrow> ptr \<Rightarrow> ptr \<Rightarrow> kstate \<Rightarrow> bool" where
  "buffer_gone b p c fp s' \<longleftrightarrow> buff_ids s' b = None \<and> pts s' p = None \<and> files s' fp = None \<and> fp \<notin> ran (fds s') \<and> \<not> listed s' c b"

lemma heap_invD:
  assumes "heap_inv E d s"
  shows "buffer_sound E d s b" "apart s b b'" "context_sound d s c" "fd_sound s fd" "unshared s"
  using assms by (simp_all add: heap_inv_def)

lemma pt_owns_pages: "pt_owns E m t ep qs \<Longrightarrow> pt_pages t = set (ep # qs)"
  by (auto simp: pt_owns_def pt_pages_def)

lemma table_sound_cong:
  assumes "table_sound E m t" "\<And>q. q \<in> pt_pages t \<Longrightarrow> page_mem m' q = page_mem m q"
  shows "table_sound E m' t"
proof -
  obtain ep qs where o: "pt_owns E m t ep qs" "unat (max_size t) \<le> 4096 * length qs" using assms(1) by (auto simp: table_sound_def)
  then have "pt_owns E m' t ep qs" using assms(2) pt_owns_pages [OF o(1)] by (auto simp: pt_owns_def)
  then show ?thesis using o(2) by (auto simp: table_sound_def)
qed

lemma only_buffer_listed: "only_buffer b p fp t s s' \<Longrightarrow> x \<noteq> b \<Longrightarrow> listed s' c x = listed s c x"
proof -
  assume a: "only_buffer b p fp t s s'" "x \<noteq> b"
  then have "ctx_ids s' c = ctx_ids s c \<or> (\<exists>d bs. ctx_ids s c = Some (d, bs) \<and> ctx_ids s' c = Some (d, remove1 b bs))"
    by (simp add: only_buffer_def)
  then show ?thesis using a(2) by (elim disjE) (auto simp: listed_def)
qed

lemma other_file:
  assumes "heap_inv E d s" "buff_ids s b = Some (p, d1, c, fp, dead)" "buff_ids s x = Some (p', d', c', fp', dead')" "x \<noteq> b"
  shows "fp' \<noteq> fp" "p' \<noteq> p"
proof -
  have "buffer_sound E d s b" "buffer_sound E d s x" "apart s x b" by (rule heap_invD [OF assms(1)])+
  then show "fp' \<noteq> fp" "p' \<noteq> p" using assms(2-4) by (auto simp: buffer_sound_def apart_def)
qed

lemma only_bufferD:
  assumes "only_buffer b p fp t s s'"
  shows "x \<noteq> b \<Longrightarrow> buff_ids s' x = buff_ids s x" "x \<noteq> fp \<Longrightarrow> files s' x = files s x" "x \<noteq> p \<Longrightarrow> pts s' x = pts s x"
    "fds s' fd = Some x \<Longrightarrow> fds s fd = Some x" "x \<notin> pt_pages t \<Longrightarrow> page_mem (mem s') x = page_mem (mem s) x"
    "x \<noteq> fp \<Longrightarrow> x \<in> ran (fds s') \<longleftrightarrow> x \<in> ran (fds s)" "ctx_ids s' x = None \<longleftrightarrow> ctx_ids s x = None"
    "ctx_ids s' x = Some (e, bs') \<Longrightarrow> \<exists>bs. ctx_ids s x = Some (e, bs) \<and> set bs' \<subseteq> set bs \<and> (distinct bs \<longrightarrow> distinct bs')"
proof -
  show "x \<noteq> b \<Longrightarrow> buff_ids s' x = buff_ids s x" "x \<noteq> fp \<Longrightarrow> files s' x = files s x" "x \<noteq> p \<Longrightarrow> pts s' x = pts s x"
      "x \<notin> pt_pages t \<Longrightarrow> page_mem (mem s') x = page_mem (mem s) x"
    using assms by (simp_all add: only_buffer_def)
  have fd: "fds s' fd = fds s fd \<or> fds s fd = Some fp \<and> fds s' fd = None" for fd using assms by (simp add: only_buffer_def)
  show "fds s' fd = Some x \<Longrightarrow> fds s fd = Some x" using fd [of fd] by auto
  show "x \<noteq> fp \<Longrightarrow> x \<in> ran (fds s') \<longleftrightarrow> x \<in> ran (fds s)" 
  proof -
    assume "x \<noteq> fp"
    then have "fds s' fd = Some x \<longleftrightarrow> fds s fd = Some x" for fd using fd [of fd] by auto
    then show ?thesis by (simp add: ran_def)
  qed
  have "ctx_ids s' x = ctx_ids s x \<or> (\<exists>d bs. ctx_ids s x = Some (d, bs) \<and> ctx_ids s' x = Some (d, remove1 b bs))"
    using assms by (simp add: only_buffer_def)
  then consider "ctx_ids s' x = ctx_ids s x" | e bs where "ctx_ids s x = Some (e, bs)" "ctx_ids s' x = Some (e, remove1 b bs)" by blast
  note c = this
  show "ctx_ids s' x = None \<longleftrightarrow> ctx_ids s x = None" by (cases rule: c) simp_all
  show "ctx_ids s' x = Some (e, bs') \<Longrightarrow> \<exists>bs. ctx_ids s x = Some (e, bs) \<and> set bs' \<subseteq> set bs \<and> (distinct bs \<longrightarrow> distinct bs')"
    by (cases rule: c) (auto dest: set_remove1_subset [THEN subsetD])
qed

lemma other_buffer_sound:
  assumes inv: "heap_inv E d s" and b: "buff_ids s b = Some (p, d, c, fp, dead)" "pts s p = Some t" and o: "only_buffer b p fp t s s'"
    and x: "x \<noteq> b" "buff_ids s' x = Some (p', d', c', fp', dead')"
  shows "buffer_sound E d s' x" "pts s' p' = pts s p'"
proof -
  have ids: "buff_ids s x = Some (p', d', c', fp', dead')" using x only_bufferD(1) [OF o] by simp
  note ne = other_file [OF inv b(1) ids x(1)]
  have r: "refs s' c' x fp' = refs s c' x fp'" using only_buffer_listed [OF o x(1)] only_bufferD(6) [OF o ne(1)] by (simp add: refs_def)
  show p: "pts s' p' = pts s p'" by (rule only_bufferD(3) [OF o ne(2)])
  have snd: "buffer_sound E d s x" "apart s x b" by (rule heap_invD [OF inv])+
  then obtain t' where t': "pts s p' = Some t'" "table_sound E (mem s) t'" using ids by (auto simp: buffer_sound_def)
  then have "pt_pages t' \<inter> pt_pages t = {}" using snd(2) ids b x(1) by (simp add: apart_def)
  then have "table_sound E (mem s') t'" using only_bufferD(5) [OF o] by (intro table_sound_cong [OF t'(2)]) blast
  then show "buffer_sound E d s' x"
    using snd(1) x ids r p t' only_buffer_listed [OF o x(1)] only_bufferD(2) [OF o ne(1)] by (auto simp: buffer_sound_def)
qed

lemma kept_or_gone:
  assumes k: "buffer_kept b p d c fp t s s' \<or> buffer_gone b p c fp s'"
    and b: "buff_ids s b = Some (p, d, c, fp, dead)" and snd: "buffer_sound E d s b" "pts s p = Some t"
  shows "buffer_sound E d s' b" "buff_ids s' b = Some (p', x) \<Longrightarrow> p' = p \<and> pts s' p = Some t"
    "listed s' c b \<Longrightarrow> \<exists>dead. buff_ids s' b = Some (p, d, c, fp, dead)"
    "fp \<in> ran (fds s') \<Longrightarrow> \<exists>f dead. files s' fp = Some f \<and> private_data f = PrivBuff b \<and> buff_ids s' b = Some (p, d, c, fp, dead)"
    "files s' fp = Some f \<Longrightarrow> private_data f = PrivBuff b" "pts s' p = None \<or> pts s' p = Some t"
proof -
  have t: "table_sound E (mem s) t" using snd b by (auto simp: buffer_sound_def)
  have "table_sound E (mem s') t" if "page_mem (mem s') = page_mem (mem s)" by (rule table_sound_cong [OF t]) (simp add: that)
  then show "buffer_sound E d s' b" using k by (auto simp: buffer_kept_def buffer_gone_def buffer_sound_def)
  show "buff_ids s' b = Some (p', x) \<Longrightarrow> p' = p \<and> pts s' p = Some t" "listed s' c b \<Longrightarrow> \<exists>dead. buff_ids s' b = Some (p, d, c, fp, dead)"
      "fp \<in> ran (fds s') \<Longrightarrow> \<exists>f dead. files s' fp = Some f \<and> private_data f = PrivBuff b \<and> buff_ids s' b = Some (p, d, c, fp, dead)"
      "files s' fp = Some f \<Longrightarrow> private_data f = PrivBuff b" "pts s' p = None \<or> pts s' p = Some t"
    using k by (auto simp: buffer_kept_def buffer_gone_def)
qed

text \<open>What is there afterwards was there before.\<close>

lemma only_buffer_before:
  assumes inv: "heap_inv E d s" and b: "buff_ids s b = Some (p, d, c, fp, dead)" "pts s p = Some t" and o: "only_buffer b p fp t s s'"
    and k: "buffer_kept b p d c fp t s s' \<or> buffer_gone b p c fp s'"
  shows "buff_ids s' x = Some (p', d', c', fp', dead') \<Longrightarrow> \<exists>dead. buff_ids s x = Some (p', d', c', fp', dead) \<and> pts s p' = pts s' p'"
    "files s' x = Some f \<Longrightarrow> private_data f = PrivCtx c' \<Longrightarrow> \<exists>f. files s x = Some f \<and> private_data f = PrivCtx c'"
    "dom (buff_ids s') \<subseteq> dom (buff_ids s)" "dom (ctx_ids s') \<subseteq> dom (ctx_ids s)" "dom (pts s') \<subseteq> dom (pts s)" "dom (files s') \<subseteq> dom (files s)"
proof -
  note u = only_bufferD [OF o] and v = kept_or_gone [OF k b(1) heap_invD(1) [OF inv] b(2)]
  show "files s' x = Some f \<Longrightarrow> private_data f = PrivCtx c' \<Longrightarrow> \<exists>f. files s x = Some f \<and> private_data f = PrivCtx c'"
    using v(5) u(2) [of x] by (cases "x = fp") auto
  show ids: "buff_ids s' x = Some (p', d', c', fp', dead') \<Longrightarrow> \<exists>dead. buff_ids s x = Some (p', d', c', fp', dead) \<and> pts s p' = pts s' p'"
    for x p' d' c' fp' dead'
  proof (cases "x = b")
    case True
    then show "buff_ids s' x = Some (p', d', c', fp', dead') \<Longrightarrow> ?thesis" using k b by (auto simp: buffer_kept_def buffer_gone_def)
  next
    case False
    then show "buff_ids s' x = Some (p', d', c', fp', dead') \<Longrightarrow> ?thesis" using u(1) [of x] other_buffer_sound(2) [OF inv b o False] by simp
  qed
  have "buff_ids s x \<noteq> None" if "buff_ids s' x = Some y" for x y using that ids [of x] by (cases y) auto
  then show "dom (buff_ids s') \<subseteq> dom (buff_ids s)" by (auto simp: dom_def)
  show "dom (ctx_ids s') \<subseteq> dom (ctx_ids s)" using u(7) by (auto simp: dom_def)
  have "pts s' x = None" if "pts s x = None" for x using that u(3) [of x] b(2) by (cases "x = p") auto
  then show "dom (pts s') \<subseteq> dom (pts s)" by (rule dom_subI)
  have "files s fp \<noteq> None" using heap_invD(1) [OF inv, of b] b by (simp add: buffer_sound_def)
  then have "files s' x = None" if "files s x = None" for x using that u(2) [of x] by (cases "x = fp") auto
  then show "dom (files s') \<subseteq> dom (files s)" by (rule dom_subI)
qed

lemma only_buffer_below:
  assumes inv: "heap_inv E d s" and b: "buff_ids s b = Some (p, d, c, fp, dead)" "pts s p = Some t" and o: "only_buffer b p fp t s s'"
    and k: "buffer_kept b p d c fp t s s' \<or> buffer_gone b p c fp s'"
  shows "below s'" "unshared s'"
proof -
  note before = only_buffer_before [OF assms]
  have m: "next_ptr (mem s') = next_ptr (mem s)" "tasks s' = tasks s" "cmds s' = cmds s" using o by (simp_all add: only_buffer_def)
  have "ctxs_below s' (next_ptr (mem s))"
    unfolding ctxs_below_def using before(1,2) below_ctx [OF inv] by blast
  then show "below s'" using heap_below [OF inv] before(3-6) [THEN subset_trans] by (simp add: below_def Let_def m)
  have us: "unshared s" by (rule heap_invD [OF inv])
  show "unshared s'"
    unfolding unshared_def
  proof (intro conjI allI impI)
    show "x = y" if "fds s' x = Some z" "fds s' y = Some z" for x y z
      using us that [THEN only_bufferD(4) [OF o]] by (auto simp: unshared_def)
    show "x = y" if "files s' x = Some f" "files s' y = Some f'" "private_data f = PrivCtx c'" "private_data f' = PrivCtx c'" for x y f f' c'
      using us before(2) [OF that(1,3)] before(2) [OF that(2,4)] by (auto simp: unshared_def)
  qed
qed

lemma only_buffer_context:
  assumes inv: "heap_inv E d s" and b: "buff_ids s b = Some (p, d, c, fp, dead)" "pts s p = Some t" and o: "only_buffer b p fp t s s'"
    and k: "buffer_kept b p d c fp t s s' \<or> buffer_gone b p c fp s'"
  shows "context_sound d s' x"
  unfolding context_sound_def
proof (intro allI impI)
  fix e bs' assume x: "ctx_ids s' x = Some (e, bs')"
  then obtain bs where bs: "ctx_ids s x = Some (e, bs)" "set bs' \<subseteq> set bs" "distinct bs \<longrightarrow> distinct bs'"
    using only_bufferD(8) [OF o] by blast
  have c: "e = d" "distinct bs" "\<And>y. y \<in> set bs \<Longrightarrow> \<exists>p d' fp dead. buff_ids s y = Some (p, d', x, fp, dead)"
    using heap_invD(3) [OF inv, of x] bs(1) by (simp_all add: context_sound_def)
  have "\<exists>p d' fp dead. buff_ids s' y = Some (p, d', x, fp, dead)" if "y \<in> set bs'" for y
  proof (cases "y = b")
    case True
    then have "listed s' x b" using that x by (auto simp: listed_def)
    moreover have "x = c" using c(3) [of y] that bs(2) b(1) True by auto
    ultimately show ?thesis using kept_or_gone(3) [OF k b(1) heap_invD(1) [OF inv] b(2)] True by blast
  next
    case False
    then show ?thesis using c(3) [of y] that bs(2) only_bufferD(1) [OF o, of y] by auto
  qed
  then show "e = d \<and> distinct bs' \<and> (\<forall>y \<in> set bs'. \<exists>p d' fp dead. buff_ids s' y = Some (p, d', x, fp, dead))" using bs(3) c by blast
qed

lemma only_buffer_fd:
  assumes inv: "heap_inv E d s" and b: "buff_ids s b = Some (p, d, c, fp, dead)" "pts s p = Some t" and o: "only_buffer b p fp t s s'"
    and k: "buffer_kept b p d c fp t s s' \<or> buffer_gone b p c fp s'"
  shows "fd_sound s' fd"
  unfolding fd_sound_def
proof (intro allI impI)
  note u = only_bufferD [OF o]
  fix fp' assume f: "fds s' fd = Some fp'"
  show "\<exists>f. files s' fp' = Some f \<and> (case private_data f of PrivBuff b \<Rightarrow> \<exists>p d c dead. buff_ids s' b = Some (p, d, c, fp', dead)
      | PrivCtx c \<Rightarrow> ctx_ids s' c \<noteq> None | _ \<Rightarrow> True)"
  proof (cases "fp' = fp")
    case True
    then have "fp \<in> ran (fds s')" using f by (auto intro: ranI)
    then obtain f' dead' where "files s' fp = Some f'" "private_data f' = PrivBuff b" "buff_ids s' b = Some (p, d, c, fp, dead')"
      using kept_or_gone(4) [OF k b(1) heap_invD(1) [OF inv] b(2)] by blast
    then show ?thesis using True by simp
  next
    case False
    then have ne: "y \<noteq> b" if "buff_ids s y = Some (p', d', c', fp', dead')" for y p' d' c' dead' using that b(1) by auto
    have "fd_sound s fd" by (rule heap_invD [OF inv])
    then obtain f' where f': "files s fp' = Some f'" "case private_data f' of PrivBuff b \<Rightarrow> \<exists>p d c dead. buff_ids s b = Some (p, d, c, fp', dead)
        | PrivCtx c \<Rightarrow> ctx_ids s c \<noteq> None | _ \<Rightarrow> True"
      using u(4) [OF f] by (auto simp: fd_sound_def)
    have "case private_data f' of PrivBuff b \<Rightarrow> \<exists>p d c dead. buff_ids s' b = Some (p, d, c, fp', dead)
        | PrivCtx c \<Rightarrow> ctx_ids s' c \<noteq> None | _ \<Rightarrow> True"
    proof (cases "private_data f'")
      case (PrivBuff y)
      then obtain p' d' c' dead' where y: "buff_ids s y = Some (p', d', c', fp', dead')" using f'(2) by auto
      then show ?thesis using PrivBuff u(1) [OF ne [OF y]] by simp
    next
      case (PrivCtx y)
      then show ?thesis using f'(2) u(7) [of y] by simp
    qed simp_all
    then show ?thesis using u(2) [OF False] f'(1) by simp
  qed
qed

lemma heap_only_buffer:
  assumes inv: "heap_inv E d s" and b: "buff_ids s b = Some (p, d, c, fp, dead)" "pts s p = Some t" and o: "only_buffer b p fp t s s'"
    and k: "buffer_kept b p d c fp t s s' \<or> buffer_gone b p c fp s'"
  shows "heap_inv E d s'"
proof -
  note before = only_buffer_before [OF assms]
  have bs: "buffer_sound E d s' x" for x
  proof (cases "x = b \<or> buff_ids s' x = None")
    case True
    then show ?thesis using kept_or_gone(1) [OF k b(1) heap_invD(1) [OF inv] b(2)] by (auto simp: buffer_sound_def)
  next
    case False
    then obtain p' d' c' fp' dead' where "buff_ids s' x = Some (p', d', c', fp', dead')" by (metis not_None_eq prod_cases5)
    then show ?thesis using other_buffer_sound(1) [OF inv b o] False by blast
  qed
  have ap: "apart s' x y" for x y
    using heap_invD(2) [OF inv, of x y] unfolding apart_def by (auto dest!: before(1))
  have "kmem_ok (mem s')" "ptr_inv (mem s')" using o heap_below(2) [OF inv] by (simp_all add: only_buffer_def ptr_inv_def)
  then show ?thesis using bs ap only_buffer_below [OF assms] only_buffer_context [OF assms] only_buffer_fd [OF assms] by (simp add: heap_inv_def)
qed

lemma only_buffer_of_ctx:
  assumes inv: "heap_inv E d s" and b: "buff_ids s b = Some (p, d, c, fp, dead)" "pts s p = Some t" and o: "only_buffer b p fp t s s'"
    and x: "of_ctx s c' x" "x \<noteq> b"
  shows "of_ctx s' c' x" "buffer_pages s' x = buffer_pages s x"
proof -
  have ids: "buff_ids s' x = buff_ids s x" using only_bufferD(1) [OF o] x(2) by simp
  then show "of_ctx s' c' x" using x only_buffer_listed [OF o x(2)] by (simp add: of_ctx_def)
  obtain p' d' fp' dead' where i: "buff_ids s x = Some (p', d', c', fp', dead')" using x(1) by (auto simp: of_ctx_def)
  have "pts s' p' = pts s p'" using other_buffer_sound(2) [OF inv b o x(2)] i ids by simp
  then show "buffer_pages s' x = buffer_pages s x"
    using i ids by (auto simp: buffer_pages_def buff_ids_def split: option.splits)
qed

definition busy :: "wt_state \<Rightarrow> dicedev_device \<Rightarrow> kstate \<Rightarrow> ptr \<Rightarrow> bool" where
  "busy w dv s c \<longleftrightarrow> (\<exists>tp \<in> set (live w dv). map_option fst (task_key s tp) = Some c)"

lemma sys_only_buffer:
  assumes inv: "sys_inv E w dv s" and b: "buff_ids s b = Some (p, wt_dev w, c, fp, dead)" "pts s p = Some t" and o: "only_buffer b p fp t s s'"
    and k: "buffer_kept b p (wt_dev w) c fp t s s' \<or> buffer_gone b p c fp s'"
    and dv: "devs s' (wt_dev w) = Some dv" "slots_ok (wt_dev w) s'"
      "\<And>c. map_option (\<lambda>cx. (ctx_dev cx, task_count cx)) (ctxs s' c) = map_option (\<lambda>cx. (ctx_dev cx, task_count cx)) (ctxs s c)"
    and use: "busy w dv s c \<longrightarrow> listed s c b \<longrightarrow> listed s' c b"
  shows "sys_inv E w dv s'"
proof -
  have h: "heap_inv E (wt_dev w) s" "dev_inv E w dv s" using inv by (simp_all add: sys_inv_def)
  have t: "tasks s' = tasks s" "cmds s' = cmds s" using o by (simp_all add: only_buffer_def)
  have "counted (wt_dev w) s' (live w dv) = counted (wt_dev w) s (live w dv)"
    by (rule counted_cong) (simp_all add: dv(3) t task_key_def [abs_def])
  moreover have "of_ctx s' c' x \<and> buffer_pages s' x = buffer_pages s x"
    if tp: "tp \<in> set (live w dv)" "map_option fst (task_key s tp) = Some c'" and x: "of_ctx s c' x" for tp c' x
  proof (cases "x = b")
    case False
    then show ?thesis using only_buffer_of_ctx [OF h(1) b o x False] by simp
  next
    case True
    then have c: "c' = c" "listed s c b" using x b(1) by (auto simp: of_ctx_def)
    then have l: "listed s' c b" using use tp by (auto simp: busy_def)
    then have "\<exists>dead. buff_ids s' b = Some (p, wt_dev w, c, fp, dead)" "pts s' p = pts s p"
      using k b(2) by (auto simp: buffer_kept_def buffer_gone_def)
    then show ?thesis using True c l b by (auto simp: of_ctx_def buffer_pages_def buff_ids_def)
  qed
  ultimately show ?thesis
    using h(2) by (intro sys_inv_heap [OF inv heap_only_buffer [OF h(1) b o k] dv(1)])
      (use dv(2) t in \<open>simp_all add: dev_inv_def base_inv_def\<close>)
qed

lemma slots_ok_remove:
  assumes "slots_ok d s" "buffs s b = Some bf" "binded_slot bf = -1"
  shows "slots_ok d (s\<lparr>buffs := (buffs s)(b := None)\<rparr>)"
  using assms by (auto simp: slots_ok_def)

section \<open>Dropping a reference to a buffer\<close>

definition unbound :: "dicedev_buffer \<Rightarrow> dicedev_buffer" where
  "unbound bf = (if binded_slot bf \<noteq> -1 then buff_unbound bf else bf)"

definition without_slot :: "env \<Rightarrow> dicedev_buffer \<Rightarrow> dicedev_device \<Rightarrow> dicedev_device" where
  "without_slot E bf dv = (if binded_slot bf \<noteq> -1 then dev_unbound E bf dv else dv)"

lemma unbound_sel [simp]:
  "binded_slot (unbound bf) = -1" "buff_pt (unbound bf) = buff_pt bf" "buff_dev (unbound bf) = buff_dev bf"
  "buff_ctx (unbound bf) = buff_ctx bf" "buff_file (unbound bf) = buff_file bf" "destroyed (unbound bf) = destroyed bf"
  by (simp_all add: unbound_def buff_unbound_def)

lemma without_slot_sel [simp]:
  "slock (without_slot E bf dv) = slock dv" "pending_tasks (without_slot E bf dv) = pending_tasks dv"
  "running_task (without_slot E bf dv) = running_task dv" "live w (without_slot E bf dv) = live w dv"
  by (simp_all add: without_slot_def dev_unbound_def live_def)

lemma sys_unbound:
  assumes "sys_inv E w dv s" "buffs s b = Some bf" "buff_dev bf = wt_dev w"
  shows "sys_inv E w (without_slot E bf dv) (s\<lparr>devs := (devs s)(wt_dev w \<mapsto> without_slot E bf dv), buffs := (buffs s)(b \<mapsto> unbound bf)\<rparr>)"
proof (cases "binded_slot bf = -1")
  case True
  then have "s\<lparr>devs := (devs s)(wt_dev w \<mapsto> without_slot E bf dv), buffs := (buffs s)(b \<mapsto> unbound bf)\<rparr> = s"
    using assms sys_inv_dev [OF assms(1)] by (cases s) (simp add: without_slot_def unbound_def fun_upd_idem)
  then show ?thesis using assms(1) True by (simp add: without_slot_def)
next
  case False
  then show ?thesis using sys_unbind [OF assms False] by (simp add: without_slot_def unbound_def)
qed

lemma heap_buffer:
  assumes "heap_inv E d s" "buffs s b = Some bf"
  obtains t ep qs where "buff_dev bf = d" "pts s (buff_pt bf) = Some t" "pt_owns E (mem s) t ep qs"
    "files s (buff_file bf) = Some \<lparr>private_data = PrivBuff b, f_count = refs s (buff_ctx bf) b (buff_file bf)\<rparr>"
    "buff_ids s b = Some (buff_pt bf, d, buff_ctx bf, buff_file bf, destroyed bf)"
proof -
  have i: "buff_ids s b = Some (buff_pt bf, buff_dev bf, buff_ctx bf, buff_file bf, destroyed bf)" using assms(2) by (simp add: buff_ids_def)
  have "buffer_sound E d s b" by (rule heap_invD [OF assms(1)])
  then show thesis using i that unfolding buffer_sound_def table_sound_def by fastforce
qed

text \<open>
  The state \<open>s2\<close> has one reference to \<open>b\<close> less than \<open>s\<close>: the entry in the list of its context or
  a descriptor is gone, and \<open>fput\<close> is still to come.
\<close>

definition one_ref_less :: "ptr \<Rightarrow> dicedev_buffer \<Rightarrow> kstate \<Rightarrow> kstate \<Rightarrow> bool" where
  "one_ref_less b bf s s2 \<longleftrightarrow> (\<exists>C F. s2 = s\<lparr>ctxs := C, fds := F\<rparr>) \<and>
     (\<forall>x. ctx_ids s2 x = ctx_ids s x \<or> (\<exists>d bs. ctx_ids s x = Some (d, bs) \<and> ctx_ids s2 x = Some (d, remove1 b bs))) \<and>
     (\<forall>x. map_option (\<lambda>cx. (ctx_dev cx, task_count cx)) (ctxs s2 x) = map_option (\<lambda>cx. (ctx_dev cx, task_count cx)) (ctxs s x)) \<and>
     (\<forall>x. fds s2 x = fds s x \<or> fds s x = Some (buff_file bf) \<and> fds s2 x = None) \<and>
     Suc (refs s2 (buff_ctx bf) b (buff_file bf)) = refs s (buff_ctx bf) b (buff_file bf) \<and>
     (listed s2 (buff_ctx bf) b \<or> destroyed bf)"

lemma fput_run:
  assumes inv: "sys_inv E w dv s" and b: "buffs s b = Some bf" and o: "one_ref_less b bf s s2"
    and t: "pts s (buff_pt bf) = Some t" "pt_owns E (mem s) t ep qs"
  shows "fput E (buff_file bf) s2 = Inr (if refs s2 (buff_ctx bf) b (buff_file bf) = 0
    then s2\<lparr>devs := (devs s)(wt_dev w \<mapsto> without_slot E bf dv), buffs := (buffs s)(b := None),
      mem := (mem s)\<lparr>page_mem := page_mem (mem s) |` (- set (ep # qs))\<rparr>, pts := (pts s)(buff_pt bf := None),
      files := (files s)(buff_file bf := None)\<rparr>
    else s2\<lparr>files := (files s)(buff_file bf \<mapsto> \<lparr>private_data = PrivBuff b, f_count = refs s2 (buff_ctx bf) b (buff_file bf)\<rparr>)\<rparr>)"
proof -
  let ?fp = "buff_file bf"
  have h: "heap_inv E (wt_dev w) s" and i: "drains E" "devs s (wt_dev w) = Some dv" "\<not> slock dv" "\<not> feed_lock dv" "slots_ok (wt_dev w) s"
    using inv by (simp_all add: sys_inv_def dev_inv_def base_inv_def)
  have f: "files s ?fp = Some \<lparr>private_data = PrivBuff b, f_count = refs s (buff_ctx bf) b ?fp\<rparr>" "buff_dev bf = wt_dev w"
    using heap_buffer [OF h b] by metis+
  obtain C F where s2: "s2 = s\<lparr>ctxs := C, fds := F\<rparr>" and r: "refs s (buff_ctx bf) b ?fp = Suc (refs s2 (buff_ctx bf) b ?fp)"
    using o by (auto simp: one_ref_less_def)
  have ok: "slots_ok (wt_dev w) s2" using i(5) by (simp add: s2 slots_ok_def)
  show ?thesis
  proof (cases "refs s2 (buff_ctx bf) b ?fp = 0")
    case True
    have "dicedev_buffer_release E ?fp s2 = Inr (s2\<lparr>devs := (devs s2)(buff_dev bf \<mapsto> if binded_slot bf \<noteq> -1 then dev_unbound E bf dv else dv),
        buffs := (buffs s2)(b := None), mem := (mem s2)\<lparr>page_mem := page_mem (mem s2) |` (- set (ep # qs))\<rparr>, pts := (pts s2)(buff_pt bf := None)\<rparr>)"
      by (rule buffer_release_run [where f = "\<lparr>private_data = PrivBuff b, f_count = refs s (buff_ctx bf) b ?fp\<rparr>" and t = t])
        (use f b i t ok in \<open>simp_all add: s2\<close>)
    then show ?thesis using True f r by (simp add: fput_def s2 without_slot_def del: bindR_eq_Inr set_simps)
  next
    case False
    then show ?thesis using f r by (simp add: fput_def s2)
  qed
qed

lemma ref_less_same:
  assumes "one_ref_less b bf s s2" "ctxs s' = ctxs s2" "fds s' = fds s2"
  shows "listed s' = listed s2" "refs s' = refs s2" "ctx_ids s' = ctx_ids s2"
proof -
  show c: "ctx_ids s' = ctx_ids s2" using assms(2) by (simp add: fun_eq_iff ctx_ids_def)
  show l: "listed s' = listed s2" by (intro ext) (simp add: listed_def c)
  show "refs s' = refs s2" by (intro ext) (simp add: refs_def l assms(3))
qed

lemma ref_less_only_buffer:
  assumes "one_ref_less b bf s s2" "ctxs s' = ctxs s2" "fds s' = fds s2"
    and "\<And>x. x \<noteq> b \<Longrightarrow> buff_ids s' x = buff_ids s x" "\<And>x. x \<noteq> buff_file bf \<Longrightarrow> files s' x = files s x" "\<And>x. x \<noteq> p \<Longrightarrow> pts s' x = pts s x"
    and "\<And>x. x \<notin> pt_pages t \<Longrightarrow> page_mem (mem s') x = page_mem (mem s) x" "next_ptr (mem s') = next_ptr (mem s)"
      "clock (mem s') = clock (mem s)" "kmem_ok (mem s')" "tasks s' = tasks s" "cmds s' = cmds s"
  shows "only_buffer b p (buff_file bf) t s s'"
  using assms(1) assms(4-) ref_less_same(3) [OF assms(1-3)] unfolding only_buffer_def one_ref_less_def assms(3) by simp

lemma sys_put_kept:
  assumes inv: "sys_inv E w dv s" and b: "buffs s b = Some bf" and o: "one_ref_less b bf s s2"
    and use: "busy w dv s (buff_ctx bf) \<longrightarrow> listed s (buff_ctx bf) b \<longrightarrow> listed s2 (buff_ctx bf) b"
    and r: "refs s2 (buff_ctx bf) b (buff_file bf) \<noteq> 0"
    and s3: "s3 = s2\<lparr>files := (files s)(buff_file bf \<mapsto> \<lparr>private_data = PrivBuff b, f_count = refs s2 (buff_ctx bf) b (buff_file bf)\<rparr>)\<rparr>"
  shows "sys_inv E w dv s3"
proof -
  let ?fp = "buff_file bf" and ?d = "wt_dev w" and ?c = "buff_ctx bf" and ?p = "buff_pt bf"
  have h: "heap_inv E ?d s" "devs s ?d = Some dv" "slots_ok ?d s" using inv by (simp_all add: sys_inv_def dev_inv_def base_inv_def)
  obtain t ep qs where t: "pts s ?p = Some t" "buff_ids s b = Some (?p, ?d, ?c, ?fp, destroyed bf)"
    using heap_buffer [OF h(1) b] by metis
  have s2: "devs s2 = devs s" "buffs s2 = buffs s" "mem s2 = mem s" "pts s2 = pts s" "tasks s2 = tasks s" "cmds s2 = cmds s"
    and cnt: "\<And>x. map_option (\<lambda>cx. (ctx_dev cx, task_count cx)) (ctxs s2 x) = map_option (\<lambda>cx. (ctx_dev cx, task_count cx)) (ctxs s x)"
    and dead: "listed s2 ?c b \<or> destroyed bf"
    using o by (auto simp: one_ref_less_def)
  have same: "listed s3 = listed s2" "refs s3 = refs s2" by (rule ref_less_same [OF o]; simp add: s3)+
  have ids: "buff_ids s3 = buff_ids s" by (simp add: fun_eq_iff buff_ids_def s2 s3)
  have only: "only_buffer b ?p ?fp t s s3"
    by (rule ref_less_only_buffer [OF o]) (use heap_below(1) [OF h(1)] ids in \<open>simp_all add: s2 s3\<close>)
  have "buffer_kept b ?p ?d ?c ?fp t s s3"
    unfolding buffer_kept_def same ids using r t dead by (auto simp: s2 s3)
  then have kg: "buffer_kept b ?p ?d ?c ?fp t s s3 \<or> buffer_gone b ?p ?c ?fp s3" ..
  have "slots_ok ?d s3 = slots_ok ?d s" by (rule slots_ok_cong [OF h(2)]) (use h(2) in \<open>simp_all add: s2 s3\<close>)
  then show ?thesis
    by (intro sys_only_buffer [OF inv t(2,1) only kg]) (use h use cnt in \<open>simp_all add: s2 s3 same [unfolded s3]\<close>)
qed

lemma sys_put_gone:
  assumes inv: "sys_inv E w dv s" and b: "buffs s b = Some bf" and o: "one_ref_less b bf s s2"
    and use: "busy w dv s (buff_ctx bf) \<longrightarrow> listed s (buff_ctx bf) b \<longrightarrow> listed s2 (buff_ctx bf) b"
    and r: "refs s2 (buff_ctx bf) b (buff_file bf) = 0" and t: "pts s (buff_pt bf) = Some t" "pt_owns E (mem s) t ep qs"
    and s3: "s3 = s2\<lparr>devs := (devs s)(wt_dev w \<mapsto> without_slot E bf dv), buffs := (buffs s)(b := None),
      mem := (mem s)\<lparr>page_mem := page_mem (mem s) |` (- set (ep # qs))\<rparr>, pts := (pts s)(buff_pt bf := None),
      files := (files s)(buff_file bf := None)\<rparr>"
  shows "sys_inv E w (without_slot E bf dv) s3"
proof -
  let ?fp = "buff_file bf" and ?d = "wt_dev w" and ?c = "buff_ctx bf" and ?p = "buff_pt bf"
  have h: "heap_inv E ?d s" "devs s ?d = Some dv" using inv by (simp_all add: sys_inv_def dev_inv_def base_inv_def)
  have i: "buff_dev bf = ?d" "buff_ids s b = Some (?p, ?d, ?c, ?fp, destroyed bf)" using heap_buffer [OF h(1) b] by metis+
  let ?s1 = "s\<lparr>devs := (devs s)(?d \<mapsto> without_slot E bf dv), buffs := (buffs s)(b \<mapsto> unbound bf)\<rparr>"
  note inv1 = sys_unbound [OF inv b i(1)]
  have hp: "same_heap s ?s1" using b by (auto simp: same_heap_def buff_ids_def ctx_ids_def fun_eq_iff)
  note l1 = same_heap_sound(1) [OF hp]
  have i1: "buff_ids ?s1 b = Some (?p, ?d, ?c, ?fp, destroyed bf)" "pts ?s1 ?p = Some t" using hp i t by (simp_all add: same_heap_def)
  have s2: "tasks s2 = tasks s" "cmds s2 = cmds s"
    and cnt: "\<And>x. map_option (\<lambda>cx. (ctx_dev cx, task_count cx)) (ctxs s2 x) = map_option (\<lambda>cx. (ctx_dev cx, task_count cx)) (ctxs s x)"
    using o by (auto simp: one_ref_less_def)
  have same: "listed s3 = listed s2" "refs s3 = refs s2" by (rule ref_less_same [OF o]; simp add: s3)+
  have "only_buffer b ?p ?fp t s s3"
  proof (rule ref_less_only_buffer [OF o])
    show "kmem_ok (mem s3)" using kmem_ok_restrict [OF heap_below(1) [OF h(1)]] by (simp add: s3)
    show "page_mem (mem s3) x = page_mem (mem s) x" if "x \<notin> pt_pages t" for x
      using that pt_owns_pages [OF t(2)] by (simp add: s3 restrict_map_def)
  qed (simp_all add: s2 s3 buff_ids_def)
  then have only: "only_buffer b ?p ?fp t ?s1 s3"
    using hp unfolding only_buffer_def same_heap_def by simp
  have "\<not> listed s2 ?c b" "?fp \<notin> ran (fds s2)" using r by (simp_all add: refs_def)
  then have "buffer_gone b ?p ?c ?fp s3" unfolding buffer_gone_def same by (simp add: s3 buff_ids_def)
  then have kg: "buffer_kept b ?p ?d ?c ?fp t ?s1 s3 \<or> buffer_gone b ?p ?c ?fp s3" ..
  have "slots_ok ?d ?s1" using inv1 by (simp add: sys_inv_def dev_inv_def base_inv_def)
  then have "slots_ok ?d (?s1\<lparr>buffs := (buffs ?s1)(b := None)\<rparr>)" (is "slots_ok ?d ?s4") by (rule slots_ok_remove [where bf = "unbound bf"]) simp_all
  moreover have "slots_ok ?d s3 = slots_ok ?d ?s4" by (rule slots_ok_cong) (simp_all add: s3)
  ultimately show ?thesis
    by (intro sys_only_buffer [OF inv1 i1 only kg])
      (use use cnt same(1) l1 in \<open>simp_all add: s3 busy_def task_key_def\<close>)
qed

text \<open>Every page in use belongs to the page table of a buffer.\<close>

definition page_owner :: "kstate \<Rightarrow> ptr \<Rightarrow> ptr \<Rightarrow> bool" where
  "page_owner s b q \<longleftrightarrow> (\<exists>p t. map_option fst (buff_ids s b) = Some p \<and> pts s p = Some t \<and> q \<in> pt_pages t)"

definition pages_owned :: "kstate \<Rightarrow> bool" where
  "pages_owned s \<longleftrightarrow> (\<forall>q \<in> dom (page_mem (mem s)). \<exists>b. page_owner s b q)"

lemma pages_owned_mono:
  assumes "pages_owned s" "dom (page_mem (mem s')) \<subseteq> dom (page_mem (mem s))"
    "\<And>b q. page_owner s b q \<Longrightarrow> q \<in> dom (page_mem (mem s')) \<Longrightarrow> page_owner s' b q"
  shows "pages_owned s'"
  unfolding pages_owned_def
proof
  fix q assume q: "q \<in> dom (page_mem (mem s'))"
  then obtain b where "page_owner s b q" using assms(1,2) unfolding pages_owned_def by (meson subsetD)
  then show "\<exists>b. page_owner s' b q" using assms(3) q by blast
qed

lemma page_owner_cong: "buff_ids s' = buff_ids s \<Longrightarrow> pts s' = pts s \<Longrightarrow> page_owner s' = page_owner s"
  by (simp add: fun_eq_iff page_owner_def)

lemma pages_owned_cong:
  assumes "page_mem (mem s') = page_mem (mem s)" "buff_ids s' = buff_ids s" "pts s' = pts s"
  shows "pages_owned s' = pages_owned s"
  by (simp add: pages_owned_def assms page_owner_cong [OF assms(2,3)])

lemma gone_pages_owned:
  assumes h: "heap_inv E d s" and b: "buffs s b = Some bf" and t: "pts s (buff_pt bf) = Some t" "pt_owns E (mem s) t ep qs"
    and po: "pages_owned s" and s': "\<And>x. x \<noteq> b \<Longrightarrow> buff_ids s' x = buff_ids s x" "pts s' = (pts s)(buff_pt bf := None)"
      "page_mem (mem s') = page_mem (mem s) |` (- set (ep # qs))"
  shows "pages_owned s'"
proof (rule pages_owned_mono [OF po])
  show "dom (page_mem (mem s')) \<subseteq> dom (page_mem (mem s))" by (simp add: s'(3))
  fix x q assume o: "page_owner s x q" "q \<in> dom (page_mem (mem s'))"
  then obtain p t' where p: "map_option fst (buff_ids s x) = Some p" "pts s p = Some t'" "q \<in> pt_pages t'" by (auto simp: page_owner_def)
  then obtain d' c' fp' dead' where x: "buff_ids s x = Some (p, d', c', fp', dead')" by auto
  have i: "buff_ids s b = Some (buff_pt bf, d, buff_ctx bf, buff_file bf, destroyed bf)" using heap_buffer [OF h b] by metis
  have "q \<notin> pt_pages t" using o(2) pt_owns_pages [OF t(2)] by (simp add: s'(3))
  then have ne: "x \<noteq> b" using x p t(1) i by auto
  have "p \<noteq> buff_pt bf" by (rule other_file(2) [OF h i x ne])
  then show "page_owner s' x q" using p s'(1) [OF ne] unfolding page_owner_def s'(2) by (intro exI [of _ p] exI [of _ t']) simp
qed

lemma sys_put:
  assumes inv: "sys_inv E w dv s" and b: "buffs s b = Some bf" and o: "one_ref_less b bf s s2"
    and use: "busy w dv s (buff_ctx bf) \<longrightarrow> listed s (buff_ctx bf) b \<longrightarrow> listed s2 (buff_ctx bf) b"
  shows "\<exists>s3 dv3. fput E (buff_file bf) s2 = Inr s3 \<and> sys_inv E w dv3 s3 \<and> live w dv3 = live w dv \<and> ctxs s3 = ctxs s2 \<and> fds s3 = fds s2 \<and>
    tasks s3 = tasks s \<and> (\<forall>x. x \<noteq> b \<longrightarrow> buff_ids s3 x = buff_ids s x) \<and> (\<forall>x. x \<noteq> buff_file bf \<longrightarrow> files s3 x = files s x) \<and>
    buff_ids s3 b = (if refs s2 (buff_ctx bf) b (buff_file bf) = 0 then None else buff_ids s b) \<and> (pages_owned s \<longrightarrow> pages_owned s3)"
proof -
  have h: "heap_inv E (wt_dev w) s" using inv by (simp add: sys_inv_def)
  then obtain t ep qs where t: "pts s (buff_pt bf) = Some t" "pt_owns E (mem s) t ep qs" by (rule heap_buffer [OF _ b])
  have s2: "tasks s2 = tasks s" "buffs s2 = buffs s" "mem s2 = mem s" "pts s2 = pts s" using o by (auto simp: one_ref_less_def)
  note run = fput_run [OF inv b o t]
  show ?thesis
  proof (cases "refs s2 (buff_ctx bf) b (buff_file bf) = 0")
    case False
    let ?s = "s2\<lparr>files := (files s)(buff_file bf \<mapsto> \<lparr>private_data = PrivBuff b, f_count = refs s2 (buff_ctx bf) b (buff_file bf)\<rparr>)\<rparr>"
    have "pages_owned ?s = pages_owned s" by (rule pages_owned_cong) (simp_all add: s2 fun_eq_iff buff_ids_def)
    then show ?thesis using run sys_put_kept [OF inv b o use False refl] False
      by (intro exI [of _ ?s] exI [of _ dv] conjI allI impI) (simp_all add: buff_ids_def s2)
  next
    case True
    let ?s = "s2\<lparr>devs := (devs s)(wt_dev w \<mapsto> without_slot E bf dv), buffs := (buffs s)(b := None),
      mem := (mem s)\<lparr>page_mem := page_mem (mem s) |` (- set (ep # qs))\<rparr>, pts := (pts s)(buff_pt bf := None),
      files := (files s)(buff_file bf := None)\<rparr>"
    have "pages_owned s \<longrightarrow> pages_owned ?s" by (rule impI, rule gone_pages_owned [OF h b t]) (simp_all add: buff_ids_def)
    then show ?thesis using run sys_put_gone [OF inv b o use True t refl] True
      by (intro exI [of _ ?s] exI [of _ "without_slot E bf dv"] conjI allI impI) (simp_all add: buff_ids_def s2)
  qed
qed

section \<open>Closing the descriptor of a buffer\<close>

lemma close_fd_ref:
  assumes "heap_inv E d s" "buffs s b = Some bf" "fds s fd = Some (buff_file bf)"
  shows "one_ref_less b bf s (s\<lparr>fds := (fds s)(fd := None)\<rparr>)" (is "one_ref_less b bf s ?s2")
proof -
  have ids: "buff_ids s b = Some (buff_pt bf, buff_dev bf, buff_ctx bf, buff_file bf, destroyed bf)" using assms(2) by (simp add: buff_ids_def)
  have "unshared s" "buffer_sound E d s b" by (rule heap_invD [OF assms(1)])+
  then have u: "fds s x = Some (buff_file bf) \<Longrightarrow> x = fd" "\<not> destroyed bf \<longrightarrow> listed s (buff_ctx bf) b" for x
    using assms(3) ids by (simp_all add: unshared_def buffer_sound_def)
  have c: "ctx_ids ?s2 = ctx_ids s" by (simp add: fun_eq_iff ctx_ids_def)
  then have l: "listed ?s2 = listed s" by (simp add: fun_eq_iff listed_def)
  have "buff_file bf \<notin> ran (fds ?s2)" using u(1) by (auto simp: ran_def)
  moreover have "buff_file bf \<in> ran (fds s)" using assms(3) by (rule ranI)
  ultimately show ?thesis unfolding one_ref_less_def c l using u(2) assms(3)
    by (intro conjI exI [of _ "ctxs s"] exI [of _ "(fds s)(fd := None)"] allI) (auto simp: refs_def l)
qed

lemma sys_close_buffer_fd:
  assumes inv: "sys_inv E w dv s" and f: "fds s fd = Some fp" "files s fp = Some f" "private_data f = PrivBuff b"
  shows "\<exists>s' dv'. fput E fp (s\<lparr>fds := (fds s)(fd := None)\<rparr>) = Inr s' \<and> sys_inv E w dv' s' \<and> live w dv' = live w dv \<and> ctxs s' = ctxs s \<and>
    fds s' = (fds s)(fd := None) \<and> (\<forall>x. x \<noteq> b \<longrightarrow> buff_ids s' x = buff_ids s x) \<and> (\<forall>x. x \<noteq> fp \<longrightarrow> files s' x = files s x) \<and>
    (buff_ids s' b = None \<or> buff_ids s' b = buff_ids s b) \<and> (pages_owned s \<longrightarrow> pages_owned s')"
proof -
  have h: "heap_inv E (wt_dev w) s" using inv by (simp add: sys_inv_def)
  obtain bf where bf: "buffs s b = Some bf" "buff_file bf = fp" by (rule buffer_fd [OF h f])
  have o: "one_ref_less b bf s (s\<lparr>fds := (fds s)(fd := None)\<rparr>)" by (rule close_fd_ref [OF h bf(1)]) (simp add: f bf)
  have "listed (s\<lparr>fds := (fds s)(fd := None)\<rparr>) = listed s" by (simp add: fun_eq_iff listed_def ctx_ids_def)
  then show ?thesis using sys_put [OF inv bf(1) o] bf(2) by (auto split: if_splits)
qed

section \<open>Marking the buffers of a context\<close>

definition marked :: "ptr list \<Rightarrow> (ptr \<rightharpoonup> dicedev_buffer) \<Rightarrow> ptr \<rightharpoonup> dicedev_buffer" where
  "marked bs f = (\<lambda>x. if x \<in> set bs then map_option (\<lambda>bf. bf\<lparr>destroyed := True\<rparr>) (f x) else f x)"

lemma marked_Cons:
  assumes "f b = Some bf"
  shows "marked bs (f(b \<mapsto> bf\<lparr>destroyed := True\<rparr>)) = marked (b # bs) f"
  using assms by (auto simp: marked_def fun_eq_iff)

lemma mark_destroyed_run:
  "\<forall>b \<in> set bs. buffs s b \<noteq> None \<Longrightarrow> mark_destroyed bs s = Inr (s\<lparr>buffs := marked bs (buffs s)\<rparr>)"
proof (induction bs arbitrary: s)
  case Nil
  then show ?case by (cases s) (simp add: marked_def)
next
  case (Cons b bs)
  then obtain bf where bf: "buffs s b = Some bf" by auto
  let ?s = "s\<lparr>buffs := (buffs s)(b \<mapsto> bf\<lparr>destroyed := True\<rparr>)\<rparr>"
  have "mark_destroyed bs ?s = Inr (?s\<lparr>buffs := marked bs (buffs ?s)\<rparr>)" by (rule Cons.IH) (use Cons.prems in auto)
  then show ?case using bf marked_Cons [where f = "buffs s", OF bf, of bs] by (simp del: bindR_eq_Inr)
qed

lemma sys_mark_one:
  assumes inv: "sys_inv E w dv s" and b: "buffs s b = Some bf"
  shows "sys_inv E w dv (s\<lparr>buffs := (buffs s)(b \<mapsto> bf\<lparr>destroyed := True\<rparr>)\<rparr>)" (is "sys_inv E w dv ?s")
proof -
  have h: "heap_inv E (wt_dev w) s" "devs s (wt_dev w) = Some dv" "slots_ok (wt_dev w) s"
    using inv by (simp_all add: sys_inv_def dev_inv_def base_inv_def)
  obtain t where t: "pts s (buff_pt bf) = Some t" "buff_dev bf = wt_dev w"
      "files s (buff_file bf) = Some \<lparr>private_data = PrivBuff b, f_count = refs s (buff_ctx bf) b (buff_file bf)\<rparr>"
      "buff_ids s b = Some (buff_pt bf, wt_dev w, buff_ctx bf, buff_file bf, destroyed bf)"
    using heap_buffer [OF h(1) b] by metis
  have r: "0 < refs s (buff_ctx bf) b (buff_file bf)" using heap_invD(1) [OF h(1), of b] t(4) by (simp add: buffer_sound_def)
  have c: "ctx_ids ?s = ctx_ids s" by (simp add: fun_eq_iff ctx_ids_def)
  then have l: "listed ?s = listed s" by (simp add: fun_eq_iff listed_def)
  then have rr: "refs ?s = refs s" by (simp add: fun_eq_iff refs_def)
  have only: "only_buffer b (buff_pt bf) (buff_file bf) t s ?s"
    using c heap_below(1) [OF h(1)] by (simp add: only_buffer_def buff_ids_def)
  have "buffer_kept b (buff_pt bf) (wt_dev w) (buff_ctx bf) (buff_file bf) t s ?s"
    unfolding buffer_kept_def l rr using t r by (auto simp: buff_ids_def)
  then have kg: "buffer_kept b (buff_pt bf) (wt_dev w) (buff_ctx bf) (buff_file bf) t s ?s \<or> buffer_gone b (buff_pt bf) (buff_ctx bf) (buff_file bf) ?s" ..
  have "slots_ok (wt_dev w) ?s = slots_ok (wt_dev w) s" by (rule slots_ok_cong [OF h(2)]) (use h(2) b in auto)
  then show ?thesis using h by (intro sys_only_buffer [OF inv t(4,1) only kg]) (simp_all add: l)
qed

lemma sys_marked:
  "sys_inv E w dv s \<Longrightarrow> \<forall>b \<in> set bs. buffs s b \<noteq> None \<Longrightarrow> sys_inv E w dv (s\<lparr>buffs := marked bs (buffs s)\<rparr>)"
proof (induction bs arbitrary: s)
  case Nil
  then show ?case by (cases s) (simp add: marked_def)
next
  case (Cons b bs)
  then obtain bf where bf: "buffs s b = Some bf" by auto
  let ?s = "s\<lparr>buffs := (buffs s)(b \<mapsto> bf\<lparr>destroyed := True\<rparr>)\<rparr>"
  have "sys_inv E w dv ?s" by (rule sys_mark_one [OF Cons.prems(1) bf])
  then have "sys_inv E w dv (?s\<lparr>buffs := marked bs (buffs ?s)\<rparr>)" by (rule Cons.IH) (use Cons.prems(2) in auto)
  then show ?case using marked_Cons [where f = "buffs s", OF bf, of bs] by simp
qed

section \<open>Releasing a context\<close>

lemma idle_not_busy:
  assumes inv: "sys_inv E w dv s" and c: "ctxs s c = Some cx" "task_count cx = 0"
  shows "\<not> busy w dv s c"
proof -
  have h: "heap_inv E (wt_dev w) s" and i: "distinct (live w dv)" "\<forall>tp \<in> set (live w dv). task_linked (wt_dev w) s tp"
      "counted (wt_dev w) s (live w dv)"
    using inv by (simp_all add: sys_inv_def dev_inv_def base_inv_def)
  let ?l = "tasks_of s c (live w dv)"
  have "set (live w dv) \<subseteq> dom (tasks s)" using i(2) by (auto simp: task_linked_def task_key_def)
  then have "set (live w dv) \<subseteq> {..<next_ptr (mem s)}" using heap_below(5) [OF h] by blast
  then have "card (set (live w dv)) \<le> next_ptr (mem s)" using card_mono [of "{..<next_ptr (mem s)}"] by simp
  then have "length (live w dv) \<le> next_ptr (mem s)" using i(1) by (simp add: distinct_card)
  moreover have "length ?l \<le> length (live w dv)" by (simp add: tasks_of_def)
  ultimately have "length ?l < 2 ^ 64" using heap_below(2) [OF h] by (simp add: ptr_inv_def)
  moreover have "ctx_dev cx = wt_dev w" by (rule heap_ctx(1) [OF h c(1)])
  then have "of_nat (length ?l) = (0 :: u64)" using i(3) c by (simp add: counted_def)
  ultimately have "length ?l = 0" by (metis unat_of_nat_u64 unat_0)
  then show ?thesis by (auto simp: busy_def tasks_of_def filter_empty_conv)
qed

definition fewer :: "kstate \<Rightarrow> kstate \<Rightarrow> bool" where
  "fewer s s' \<longleftrightarrow> (\<forall>x. buff_ids s' x = None \<or> buff_ids s' x = buff_ids s x) \<and>
     (\<forall>x f c. files s x = Some f \<longrightarrow> private_data f = PrivCtx c \<longrightarrow> files s' x = Some f) \<and> (pages_owned s \<longrightarrow> pages_owned s')"

lemma fewer_refl: "fewer s s"
  by (simp add: fewer_def)

lemma fewer_trans:
  assumes "fewer s s'" "fewer s' s''"
  shows "fewer s s''"
proof -
  have "buff_ids s'' x = None \<or> buff_ids s'' x = buff_ids s x" for x
    using assms by (metis fewer_def)
  moreover have "files s'' x = Some f" if "files s x = Some f" "private_data f = PrivCtx c" for x f c
    using assms that by (simp add: fewer_def)
  moreover have "pages_owned s \<longrightarrow> pages_owned s''" using assms by (simp add: fewer_def)
  ultimately show ?thesis by (simp add: fewer_def)
qed

text \<open>The state after a buffer has lost its slot and its place in the list of its context.\<close>

definition delisted :: "env \<Rightarrow> ptr \<Rightarrow> ptr \<Rightarrow> dicedev_context \<Rightarrow> ptr \<Rightarrow> dicedev_buffer \<Rightarrow> dicedev_device \<Rightarrow> kstate \<Rightarrow> kstate" where
  "delisted E d c cx b bf dv s = s\<lparr>devs := (devs s)(d \<mapsto> without_slot E bf dv), buffs := (buffs s)(b \<mapsto> unbound bf),
     ctxs := (ctxs s)(c \<mapsto> cx\<lparr>allocated_buffers := remove1 b (allocated_buffers cx)\<rparr>)\<rparr>"

lemma kstate_order: "s\<lparr>buffs := x, devs := y\<rparr> = s\<lparr>devs := y, buffs := x\<rparr>"
  by (cases s) simp

lemma close_buffer_run:
  assumes inv: "sys_inv E w dv s" and c: "ctxs s c = Some cx" and b: "buffs s b = Some bf" "buff_dev bf = wt_dev w"
  shows "close_buffer E (wt_dev w) c b s = fput E (buff_file bf) (delisted E (wt_dev w) c cx b bf dv s)"
proof -
  have i: "drains E" "devs s (wt_dev w) = Some dv" "\<not> slock dv" "\<not> feed_lock dv" "slots_ok (wt_dev w) s"
    using inv by (simp_all add: sys_inv_def dev_inv_def base_inv_def)
  show ?thesis
  proof (cases "binded_slot bf = -1")
    case True
    have "(devs s)(wt_dev w \<mapsto> dv) = devs s" "(buffs s)(b \<mapsto> bf) = buffs s" using i(2) b(1) by (simp_all add: fun_upd_idem)
    then have "delisted E (wt_dev w) c cx b bf dv s = s\<lparr>ctxs := (ctxs s)(c \<mapsto> cx\<lparr>allocated_buffers := remove1 b (allocated_buffers cx)\<rparr>)\<rparr>"
      using True by (simp add: delisted_def without_slot_def unbound_def)
    then show ?thesis using True i(2,3) c b(1) by (simp add: close_buffer_def)
  next
    case False
    have n: "\<not> slock (dev_unbound E bf dv)" using i(3) by (simp add: dev_unbound_def)
    note u = unbind_locked [OF i(1,2,4) b i(5) False]
    show ?thesis unfolding close_buffer_def delisted_def without_slot_def unbound_def using False n i(2,3) c b(1) u
      by (simp add: kstate_order)
  qed
qed

lemma delist_ref:
  assumes h: "heap_inv E d s" and c: "ctxs s c = Some cx" "b \<in> set (allocated_buffers cx)" "distinct (allocated_buffers cx)"
    and b: "buffs s b = Some bf" "buff_ctx bf = c" "destroyed bf"
  shows "one_ref_less b bf s (s\<lparr>ctxs := (ctxs s)(c \<mapsto> cx\<lparr>allocated_buffers := remove1 b (allocated_buffers cx)\<rparr>)\<rparr>)" (is "one_ref_less b bf s ?s2")
proof -
  have "listed s c b" "\<not> listed ?s2 c b" using c by (auto simp: listed_def ctx_ids_def)
  then have "Suc (refs ?s2 c b fp) = refs s c b fp" for fp by (simp add: refs_def)
  then show ?thesis unfolding one_ref_less_def b(2) using c b(3)
    by (intro conjI exI [of _ "(ctxs s)(c \<mapsto> cx\<lparr>allocated_buffers := remove1 b (allocated_buffers cx)\<rparr>)"] exI [of _ "fds s"] allI)
      (auto simp: ctx_ids_def)
qed

lemma sys_close_buffer:
  assumes inv: "sys_inv E w dv s" and c: "ctxs s c = Some cx" "allocated_buffers cx = b # bs" and n: "\<not> busy w dv s c"
    and b: "buffs s b = Some bf" "destroyed bf"
  shows "\<exists>s' dv'. close_buffer E (wt_dev w) c b s = Inr s' \<and> sys_inv E w dv' s' \<and> live w dv' = live w dv \<and> tasks s' = tasks s \<and>
    ctxs s' = (ctxs s)(c \<mapsto> cx\<lparr>allocated_buffers := bs\<rparr>) \<and> fds s' = fds s \<and> fewer s s' \<and> (\<forall>x. x \<noteq> b \<longrightarrow> buff_ids s' x = buff_ids s x)"
proof -
  have h: "heap_inv E (wt_dev w) s" using inv by (simp add: sys_inv_def)
  have d: "distinct (allocated_buffers cx)" "buff_ctx bf = c" using heap_ctx(2) [OF h c(1)] heap_ctx(3) [OF h c(1), of b] c(2) b(1) by auto
  have dv1: "buff_dev bf = wt_dev w" using heap_buffer [OF h b(1)] by metis
  let ?s1 = "s\<lparr>devs := (devs s)(wt_dev w \<mapsto> without_slot E bf dv), buffs := (buffs s)(b \<mapsto> unbound bf)\<rparr>"
  note inv1 = sys_unbound [OF inv b(1) dv1]
  then have h1: "heap_inv E (wt_dev w) ?s1" by (simp add: sys_inv_def)
  have ids: "buff_ids ?s1 = buff_ids s" using b(1) by (auto simp: buff_ids_def fun_eq_iff)
  have "one_ref_less b (unbound bf) ?s1 (?s1\<lparr>ctxs := (ctxs ?s1)(c \<mapsto> cx\<lparr>allocated_buffers := remove1 b (allocated_buffers cx)\<rparr>)\<rparr>)"
    by (rule delist_ref [OF h1]) (use c d b in simp_all)
  then have o: "one_ref_less b (unbound bf) ?s1 (delisted E (wt_dev w) c cx b bf dv s)" by (simp add: delisted_def)
  have n1: "\<not> busy w (without_slot E bf dv) ?s1 (buff_ctx (unbound bf))" using n d(2) by (simp add: busy_def task_key_def)
  then obtain s3 dv3 where s3: "fput E (buff_file (unbound bf)) (delisted E (wt_dev w) c cx b bf dv s) = Inr s3" "sys_inv E w dv3 s3"
      "live w dv3 = live w (without_slot E bf dv)" "ctxs s3 = ctxs (delisted E (wt_dev w) c cx b bf dv s)"
      "fds s3 = fds (delisted E (wt_dev w) c cx b bf dv s)" "tasks s3 = tasks ?s1" "\<forall>x. x \<noteq> b \<longrightarrow> buff_ids s3 x = buff_ids ?s1 x"
      "\<forall>x. x \<noteq> buff_file (unbound bf) \<longrightarrow> files s3 x = files ?s1 x" "buff_ids s3 b = None \<or> buff_ids s3 b = buff_ids ?s1 b"
      "pages_owned ?s1 \<longrightarrow> pages_owned s3"
    using sys_put [OF inv1 _ o] by (auto split: if_splits)
  have f: "files s (buff_file bf) = Some \<lparr>private_data = PrivBuff b, f_count = refs s (buff_ctx bf) b (buff_file bf)\<rparr>"
    using heap_buffer [OF h b(1)] by metis
  have "fewer s s3"
    unfolding fewer_def
  proof (intro conjI allI impI)
    show "buff_ids s3 x = None \<or> buff_ids s3 x = buff_ids s x" for x using s3(7,9) by (cases "x = b") (simp_all add: ids)
    show "files s3 x = Some g" if "files s x = Some g" "private_data g = PrivCtx y" for x g y
      using that f s3(8) by (cases "x = buff_file bf") auto
    have "pages_owned ?s1 = pages_owned s" by (rule pages_owned_cong) (simp_all add: ids)
    then show "pages_owned s3" if "pages_owned s" using s3(10) that by simp
  qed
  then show ?thesis using s3 close_buffer_run [OF inv c(1) b(1) dv1] c(2) ids by (auto simp: delisted_def)
qed

lemma sys_close_buffers:
  assumes "sys_inv E w dv s" "ctxs s c = Some cx" "allocated_buffers cx = bs" "\<not> busy w dv s c"
    "\<forall>b \<in> set bs. \<exists>p d fp. buff_ids s b = Some (p, d, c, fp, True)"
  shows "\<exists>s' dv'. close_buffers E (wt_dev w) c bs s = Inr s' \<and> sys_inv E w dv' s' \<and> live w dv' = live w dv \<and> tasks s' = tasks s \<and>
    ctxs s' = (ctxs s)(c \<mapsto> cx\<lparr>allocated_buffers := []\<rparr>) \<and> fds s' = fds s \<and> fewer s s'"
  using assms
proof (induction bs arbitrary: s dv cx)
  case Nil
  then have "(ctxs s)(c \<mapsto> cx\<lparr>allocated_buffers := []\<rparr>) = ctxs s" by (cases cx) (simp add: fun_upd_idem)
  then show ?case using Nil.prems fewer_refl by auto
next
  case (Cons b bs)
  have h: "heap_inv E (wt_dev w) s" using Cons.prems(1) by (simp add: sys_inv_def)
  have "distinct (b # bs)" using heap_ctx(2) [OF h Cons.prems(2)] Cons.prems(3) by simp
  then have nb: "x \<noteq> b" if "x \<in> set bs" for x using that by auto
  obtain bf where bf: "buffs s b = Some bf" "destroyed bf" using Cons.prems(5) by (auto simp: buff_ids_def)
  obtain s1 dv1 where s1: "close_buffer E (wt_dev w) c b s = Inr s1" "sys_inv E w dv1 s1" "live w dv1 = live w dv" "tasks s1 = tasks s"
      "ctxs s1 = (ctxs s)(c \<mapsto> cx\<lparr>allocated_buffers := bs\<rparr>)" "fds s1 = fds s" "fewer s s1" "\<forall>x. x \<noteq> b \<longrightarrow> buff_ids s1 x = buff_ids s x"
    using sys_close_buffer [OF Cons.prems(1-4) bf] by blast
  have "\<not> busy w dv1 s1 c" using Cons.prems(4) s1(3,4) by (simp add: busy_def task_key_def)
  moreover have "\<forall>x \<in> set bs. \<exists>p d fp. buff_ids s1 x = Some (p, d, c, fp, True)" using Cons.prems(5) nb s1(8) by simp
  ultimately have "\<exists>s' dv'. close_buffers E (wt_dev w) c bs s1 = Inr s' \<and> sys_inv E w dv' s' \<and> live w dv' = live w dv1 \<and> tasks s' = tasks s1 \<and>
      ctxs s' = (ctxs s1)(c \<mapsto> cx\<lparr>allocated_buffers := bs, allocated_buffers := []\<rparr>) \<and> fds s' = fds s1 \<and> fewer s1 s'"
    by (intro Cons.IH [OF s1(2)]) (simp_all add: s1(5))
  then obtain s' dv' where s': "close_buffers E (wt_dev w) c bs s1 = Inr s'" "sys_inv E w dv' s'" "live w dv' = live w dv1" "tasks s' = tasks s1"
      "ctxs s' = (ctxs s1)(c \<mapsto> cx\<lparr>allocated_buffers := bs, allocated_buffers := []\<rparr>)" "fds s' = fds s1" "fewer s1 s'"
    by blast
  have "ctxs s' = (ctxs s)(c \<mapsto> cx\<lparr>allocated_buffers := []\<rparr>)" using s'(5) by (simp add: s1(5))
  moreover have "close_buffers E (wt_dev w) c (b # bs) s = Inr s'" using s1(1) s'(1) by simp
  ultimately show ?case using s' s1(3,4,6) fewer_trans [OF s1(7) s'(7)] by (intro exI [of _ s'] exI [of _ dv'] conjI) simp_all
qed

text \<open>The file \<open>fp\<close> of context \<open>c\<close> has been closed, and its release is under way.\<close>

definition closing_ok :: "kstate \<Rightarrow> ptr \<Rightarrow> ptr \<Rightarrow> bool" where
  "closing_ok s fp c \<longleftrightarrow> (\<exists>f. files s fp = Some f \<and> private_data f = PrivCtx c) \<and> ctx_ids s c \<noteq> None \<and> fp \<notin> ran (fds s) \<and>
     (\<forall>b p d fp. buff_ids s b \<noteq> Some (p, d, c, fp, False))"

lemma fd_sound_alt: "fd_sound s fd \<longleftrightarrow> (\<forall>fp. fds s fd = Some fp \<longrightarrow> (\<exists>f. files s fp = Some f \<and>
   (\<forall>b. private_data f = PrivBuff b \<longrightarrow> (\<exists>p d c dead. buff_ids s b = Some (p, d, c, fp, dead))) \<and>
   (\<forall>c. private_data f = PrivCtx c \<longrightarrow> ctx_ids s c \<noteq> None)))"
proof -
  have "(case p of PrivBuff b \<Rightarrow> P b | PrivCtx c \<Rightarrow> Q c | _ \<Rightarrow> True) \<longleftrightarrow> (\<forall>b. p = PrivBuff b \<longrightarrow> P b) \<and> (\<forall>c. p = PrivCtx c \<longrightarrow> Q c)" for p P Q
    by (cases p) auto
  then show ?thesis by (simp add: fd_sound_def)
qed

lemma heap_drop_ctx:
  assumes h: "heap_inv E d s" and c: "ctx_ids s c = Some (d, [])" and f: "files s fp = Some f" "private_data f = PrivCtx c" "fp \<notin> ran (fds s)"
  shows "heap_inv E d (s\<lparr>ctxs := (ctxs s)(c := None), files := (files s)(fp := None)\<rparr>)" (is "heap_inv E d ?s")
proof -
  have ids: "buff_ids ?s = buff_ids s" "ctx_ids ?s = (ctx_ids s)(c := None)" by (simp_all add: fun_eq_iff buff_ids_def ctx_ids_def)
  have l: "listed ?s = listed s" using c by (auto simp: fun_eq_iff listed_def ids)
  have r: "refs ?s = refs s" by (simp add: fun_eq_iff refs_def l)
  have "kmem_ok (mem ?s)" "ptr_inv (mem ?s)" using heap_below [OF h] by simp_all
  moreover have "ctxs_below ?s (next_ptr (mem s))" using below_ctx [OF h] unfolding ctxs_below_def ids by (auto split: if_splits)
  then have "below ?s" using heap_below [OF h] unfolding below_def Let_def ids by (simp add: subset_iff)
  moreover have "unshared ?s" using heap_invD(5) [OF h] unfolding unshared_def by simp
  moreover have "buffer_sound E d ?s b" for b
  proof -
    have "buffer_sound E d s b" by (rule heap_invD [OF h])
    then show ?thesis using f unfolding buffer_sound_def ids l r by auto
  qed
  moreover have "apart ?s b b'" for b b' using heap_invD(2) [OF h, of b b'] unfolding apart_def ids by simp
  moreover have "context_sound d ?s x" for x using heap_invD(3) [OF h, of x] unfolding context_sound_def ids by simp
  moreover have "fd_sound ?s fd" for fd
  proof -
    have s: "fd_sound s fd" by (rule heap_invD [OF h])
    have ne: "fp' \<noteq> fp" if "fds s fd = Some fp'" for fp' using that f(3) by (auto intro: ranI)
    have "x \<noteq> c" if "fds s fd = Some fp'" "files s fp' = Some g" "private_data g = PrivCtx x" for fp' g x
      using heap_invD(5) [OF h] that f(1,2) ne [OF that(1)] unfolding unshared_def by metis
    then show ?thesis using s ne unfolding fd_sound_alt ids by fastforce
  qed
  ultimately show ?thesis by (simp add: heap_inv_def)
qed

lemma sys_drop_ctx:
  assumes inv: "sys_inv E w dv s" and c: "ctxs s c = Some cx" "allocated_buffers cx = []" and n: "\<not> busy w dv s c"
    and f: "files s fp = Some f" "private_data f = PrivCtx c" "fp \<notin> ran (fds s)"
  shows "sys_inv E w dv (s\<lparr>ctxs := (ctxs s)(c := None), files := (files s)(fp := None)\<rparr>)" (is "sys_inv E w dv ?s")
proof -
  have h: "heap_inv E (wt_dev w) s" and i: "devs s (wt_dev w) = Some dv" "slots_ok (wt_dev w) s" "\<not> slock dv" "\<not> feed_lock dv" "\<not> dev_failed dv"
      "counted (wt_dev w) s (live w dv)"
    using inv by (simp_all add: sys_inv_def dev_inv_def base_inv_def)
  have "ctx_ids s c = Some (wt_dev w, [])" using heap_ctx(1) [OF h c(1)] c by (simp add: ctx_ids_def)
  then have "heap_inv E (wt_dev w) ?s" by (rule heap_drop_ctx [OF h _ f])
  moreover have "slots_ok (wt_dev w) ?s = slots_ok (wt_dev w) s" by (rule slots_ok_cong [OF i(1)]) (simp_all add: i(1))
  moreover have "counted (wt_dev w) ?s (live w dv)" using i(6) by (simp add: counted_def tasks_of_def task_key_def)
  moreover have "of_ctx ?s c' b \<and> buffer_pages ?s b = buffer_pages s b"
    if "tp \<in> set (live w dv)" "map_option fst (task_key s tp) = Some c'" "of_ctx s c' b" for tp c' b
  proof -
    have "c' \<noteq> c" using that n by (auto simp: busy_def)
    then show ?thesis using that(3) by (simp add: of_ctx_def listed_def buff_ids_def ctx_ids_def buffer_pages_def)
  qed
  ultimately show ?thesis using i by (intro sys_inv_heap [OF inv]) simp_all
qed

lemma closing_dead: "closing_ok s fp c \<Longrightarrow> buff_ids s b = Some (p, d, c, g, dead) \<Longrightarrow> dead"
  by (cases dead) (simp_all add: closing_ok_def)

lemma closing_fewer:
  assumes "closing_ok s fp c" "fewer s s'" "fds s' = fds s" "ctx_ids s' c \<noteq> None"
  shows "closing_ok s' fp c"
proof -
  have f: "buff_ids s' x = None \<or> buff_ids s' x = buff_ids s x" for x using assms(2) by (simp add: fewer_def)
  have "buff_ids s' b \<noteq> Some (p, d, c, g, False)" for b p d g using f [of b] assms(1) by (auto simp: closing_ok_def)
  then show ?thesis using assms by (auto simp: closing_ok_def fewer_def)
qed

lemma closing_ctx: "closing_ok s fp c \<Longrightarrow> \<exists>cx. ctxs s c = Some cx"
  by (auto simp: closing_ok_def ctx_ids_def)

lemma sys_release_wait:
  assumes inv: "sys_inv E w dv s" "all_listed s" and cl: "closing_ok s fp c" and c: "ctxs s c = Some cx" "task_count cx = 0"
  shows "\<exists>s' dv'. dicedev_release_wait E c s = Inr (Return (Inr ()) s') \<and> sys_inv E w dv' (s'\<lparr>files := (files s')(fp := None)\<rparr>) \<and>
    all_listed (s'\<lparr>files := (files s')(fp := None)\<rparr>) \<and> fds s' = fds s \<and> ctxs s' = (ctxs s)(c := None) \<and> (pages_owned s \<longrightarrow> pages_owned s') \<and>
    (\<forall>x f y. files s x = Some f \<longrightarrow> private_data f = PrivCtx y \<longrightarrow> files s' x = Some f) \<and>
    (\<forall>fp' c'. closing_ok s fp' c' \<longrightarrow> c' \<noteq> c \<longrightarrow> closing_ok (s'\<lparr>files := (files s')(fp := None)\<rparr>) fp' c')"
proof -
  have h: "heap_inv E (wt_dev w) s" using inv by (simp add: sys_inv_def)
  have cd: "ctx_dev cx = wt_dev w" by (rule heap_ctx(1) [OF h c(1)])
  have n: "\<not> busy w dv s c" by (rule idle_not_busy [OF inv(1) c])
  have own: "\<exists>p d fp. buff_ids s b = Some (p, d, c, fp, True)" if "b \<in> set (allocated_buffers cx)" for b
    using heap_ctx(3) [OF h c(1) that] closing_dead [OF cl, of b] by (auto simp: buff_ids_def)
  obtain s1 dv1 where s1: "close_buffers E (wt_dev w) c (allocated_buffers cx) s = Inr s1" "sys_inv E w dv1 s1" "live w dv1 = live w dv" "tasks s1 = tasks s"
      "ctxs s1 = (ctxs s)(c \<mapsto> cx\<lparr>allocated_buffers := []\<rparr>)" "fds s1 = fds s" "fewer s s1"
    using sys_close_buffers [OF inv(1) c(1) refl n] own by blast
  obtain f where f: "files s fp = Some f" "private_data f = PrivCtx c" "fp \<notin> ran (fds s)" using cl by (auto simp: closing_ok_def)
  then have f1: "files s1 fp = Some f" using s1(7) by (simp add: fewer_def)
  let ?s = "s1\<lparr>ctxs := (ctxs s1)(c := None)\<rparr>" and ?s' = "s1\<lparr>ctxs := (ctxs s1)(c := None), files := (files s1)(fp := None)\<rparr>"
  have "dicedev_release_wait E c s = Inr (Return (Inr ()) ?s)" using c s1(1) cd by (simp add: dicedev_release_wait_def del: bindR_eq_Inr)
  moreover have "\<not> busy w dv1 s1 c" using n s1(3,4) by (simp add: busy_def task_key_def)
  then have "sys_inv E w dv1 ?s'" by (intro sys_drop_ctx [where cx = "cx\<lparr>allocated_buffers := []\<rparr>", OF s1(2)]) (use s1(5,6) f f1 in simp_all)
  moreover have ids: "buff_ids ?s' x = None \<or> buff_ids ?s' x = buff_ids s x" "x \<noteq> c \<Longrightarrow> ctx_ids ?s' x = ctx_ids s x" "ctx_ids ?s' c = None" for x
    using s1(5,7) by (simp_all add: fewer_def buff_ids_def ctx_ids_def)
  have "all_listed ?s'"
    unfolding all_listed_def
  proof (intro allI impI)
    fix b p d c' g dead assume b: "buff_ids ?s' b = Some (p, d, c', g, dead)" "ctx_ids ?s' c' \<noteq> None"
    then have "c' \<noteq> c" "buff_ids s b = Some (p, d, c', g, dead)" using ids(1) [of b] ids(3) by auto
    then show "listed ?s' c' b" using inv(2) b(2) ids(2) [of c'] by (simp add: all_listed_def listed_def)
  qed
  moreover have "closing_ok ?s' fp' c'" if "closing_ok s fp' c'" "c' \<noteq> c" for fp' c'
  proof -
    have "closing_ok s1 fp' c'" by (rule closing_fewer [OF that(1) s1(7,6)]) (use that s1(5) in \<open>simp add: closing_ok_def ctx_ids_def\<close>)
    moreover have "fp' \<noteq> fp" using that f by (auto simp: closing_ok_def)
    moreover have "buff_ids ?s' = buff_ids s1" "ctx_ids ?s' c' = ctx_ids s1 c'" using that(2) by (simp_all add: fun_eq_iff buff_ids_def ctx_ids_def)
    ultimately show ?thesis by (simp add: closing_ok_def)
  qed
  moreover have "pages_owned ?s = pages_owned s1" by (rule pages_owned_cong) (simp_all add: fun_eq_iff buff_ids_def)
  moreover have "ctxs ?s = (ctxs s)(c := None)" by (simp add: s1(5))
  ultimately show ?thesis using s1(6,7) by (intro exI [of _ ?s] exI [of _ dv1]) (simp add: fewer_def)
qed

lemma ran_del_other: "m i = Some y \<Longrightarrow> x \<noteq> y \<Longrightarrow> x \<in> ran (m(i := None)) \<longleftrightarrow> x \<in> ran m"
  by (auto simp: ran_def) (metis option.inject)

lemma sys_close_ctx_fd:
  assumes inv: "sys_inv E w dv s" and f: "fds s fd = Some fp" "files s fp = Some f" "private_data f = PrivCtx c"
  shows "sys_inv E w dv (s\<lparr>fds := (fds s)(fd := None)\<rparr>)" (is "sys_inv E w dv ?s")
proof -
  have h: "heap_inv E (wt_dev w) s" and i: "devs s (wt_dev w) = Some dv" "slots_ok (wt_dev w) s" "\<not> slock dv" "\<not> feed_lock dv" "\<not> dev_failed dv"
      "counted (wt_dev w) s (live w dv)"
    using inv by (simp_all add: sys_inv_def dev_inv_def base_inv_def)
  have ids: "buff_ids ?s = buff_ids s" "ctx_ids ?s = ctx_ids s" by (simp_all add: fun_eq_iff buff_ids_def ctx_ids_def)
  have l: "listed ?s = listed s" by (simp add: fun_eq_iff listed_def ids)
  have ran: "x \<in> ran (fds ?s) \<longleftrightarrow> x \<in> ran (fds s)" if "x \<noteq> fp" for x using ran_del_other [where m = "fds s", OF f(1) that] by simp
  have "buffer_sound E (wt_dev w) ?s b" for b
  proof -
    have b: "buffer_sound E (wt_dev w) s b" by (rule heap_invD [OF h])
    then have "g \<noteq> fp" if "buff_ids s b = Some (p, d, c', g, dead)" for p d c' g dead using that f(2,3) by (auto simp: buffer_sound_def)
    then show ?thesis using b ran unfolding buffer_sound_def ids l by (auto simp: refs_def l)
  qed
  moreover have "below ?s" using heap_below [OF h] unfolding below_def ctxs_below_def ids Let_def by simp
  moreover have "unshared ?s" using heap_invD(5) [OF h] by (simp add: unshared_def)
  moreover have "apart ?s b b'" for b b' using heap_invD(2) [OF h, of b b'] unfolding apart_def ids by simp
  moreover have "context_sound (wt_dev w) ?s x" for x using heap_invD(3) [OF h, of x] unfolding context_sound_def ids by simp
  moreover have "fd_sound ?s x" for x using heap_invD(4) [OF h, of x] unfolding fd_sound_def ids by simp
  ultimately have "heap_inv E (wt_dev w) ?s" using heap_below(1,2) [OF h] by (simp add: heap_inv_def)
  moreover have "slots_ok (wt_dev w) ?s = slots_ok (wt_dev w) s" by (rule slots_ok_cong [OF i(1)]) (simp_all add: i(1))
  moreover have "counted (wt_dev w) ?s (live w dv)" using i(6) by (simp add: counted_def tasks_of_def task_key_def)
  ultimately show ?thesis using i by (intro sys_inv_heap [OF inv]) (simp_all add: of_ctx_def l ids buffer_pages_def)
qed

lemma release_run:
  assumes "files s fp = Some f" "private_data f = PrivCtx c" "ctxs s c = Some cx" "devs s (ctx_dev cx) = Some dv" "\<not> slock dv"
    "\<forall>b \<in> set (allocated_buffers cx). buffs s b \<noteq> None"
  shows "dicedev_release E fp s = dicedev_release_wait E c (s\<lparr>buffs := marked (allocated_buffers cx) (buffs s)\<rparr>)"
proof -
  let ?s = "s\<lparr>devs := (devs s)(ctx_dev cx \<mapsto> dv\<lparr>slock := True\<rparr>)\<rparr>"
  have "mark_destroyed (allocated_buffers cx) ?s = Inr (?s\<lparr>buffs := marked (allocated_buffers cx) (buffs ?s)\<rparr>)"
    by (rule mark_destroyed_run) (use assms(6) in simp)
  moreover have "(devs s)(ctx_dev cx \<mapsto> dv) = devs s" using assms(4) by (simp add: fun_upd_idem)
  ultimately show ?thesis using assms(1-5) by (simp add: dicedev_release_def as_ctx_def kstate_order)
qed

lemma all_listedD: "all_listed s \<Longrightarrow> buff_ids s b = Some (p, d, c, fp, dead) \<Longrightarrow> ctx_ids s c \<noteq> None \<Longrightarrow> listed s c b"
  unfolding all_listed_def by blast

lemma sys_release_start:
  assumes inv: "sys_inv E w dv s" "all_listed s" and f: "fds s fd = Some fp" "files s fp = Some f" "private_data f = PrivCtx c"
  shows "\<exists>cx s'. ctxs s c = Some cx \<and> dicedev_release E fp (s\<lparr>fds := (fds s)(fd := None)\<rparr>) = dicedev_release_wait E c s' \<and>
    sys_inv E w dv s' \<and> all_listed s' \<and> closing_ok s' fp c \<and> ctxs s' = ctxs s \<and> fds s' = (fds s)(fd := None) \<and> files s' = files s \<and>
    (pages_owned s \<longrightarrow> pages_owned s') \<and> (\<forall>fp' c'. closing_ok s fp' c' \<longrightarrow> closing_ok s' fp' c')"
proof -
  have h: "heap_inv E (wt_dev w) s" and i: "devs s (wt_dev w) = Some dv" "\<not> slock dv" using inv sys_inv_dev [OF inv(1)] by (simp_all add: sys_inv_def)
  have "ctx_ids s c \<noteq> None" using heap_invD(4) [OF h, of fd] f by (simp add: fd_sound_alt)
  then obtain cx where cx: "ctxs s c = Some cx" by (auto simp: ctx_ids_def)
  have own: "\<forall>b \<in> set (allocated_buffers cx). buffs s b \<noteq> None" using heap_ctx(3) [OF h cx] by fastforce
  let ?s2 = "s\<lparr>fds := (fds s)(fd := None)\<rparr>"
  let ?s = "?s2\<lparr>buffs := marked (allocated_buffers cx) (buffs s)\<rparr>"
  have run: "dicedev_release E fp ?s2 = dicedev_release_wait E c ?s"
    using release_run [of ?s2 fp f c cx dv E] f(2,3) cx i own heap_ctx(1) [OF h cx] by simp
  have "sys_inv E w dv ?s2" by (rule sys_close_ctx_fd [OF inv(1) f])
  then have sys: "sys_inv E w dv ?s" using sys_marked [of E w dv ?s2 "allocated_buffers cx"] own by simp
  have ids: "ctx_ids ?s = ctx_ids s" "listed ?s = listed s" by (simp_all add: fun_eq_iff listed_def ctx_ids_def)
  have bids: "\<exists>dead'. buff_ids s b = Some (p, d, c', g, dead') \<and> (dead' \<longrightarrow> dead) \<and> (b \<in> set (allocated_buffers cx) \<longrightarrow> dead)"
    if "buff_ids ?s b = Some (p, d, c', g, dead)" for b p d c' g dead
    using that by (auto simp: buff_ids_def marked_def split: if_splits)
  have al: "all_listed ?s"
    unfolding all_listed_def ids by (intro allI impI) (use bids all_listedD [OF inv(2)] in blast)
  have "unshared s" by (rule heap_invD [OF h])
  then have ran: "fp \<notin> ran (fds ?s)" using f(1) by (auto simp: ran_def unshared_def)
  have "buff_ids ?s b \<noteq> Some (p, d, c, g, False)" for b p d g
  proof
    assume b: "buff_ids ?s b = Some (p, d, c, g, False)"
    then have "listed s c b" using all_listedD [OF al b] \<open>ctx_ids s c \<noteq> None\<close> unfolding ids by blast
    then have "b \<in> set (allocated_buffers cx)" using cx by (auto simp: listed_def ctx_ids_def)
    then show False using bids [OF b] by blast
  qed
  then have cl: "closing_ok ?s fp c" using f \<open>ctx_ids s c \<noteq> None\<close> ran unfolding closing_ok_def ids by simp
  have "closing_ok ?s fp' c'" if "closing_ok s fp' c'" for fp' c'
  proof -
    have "buff_ids ?s b \<noteq> Some (p, d, c', g, False)" for b p d g using bids [of b p d c' g False] that by (auto simp: closing_ok_def)
    moreover have "fp' \<notin> ran (fds ?s)" using that by (auto simp: closing_ok_def ran_def)
    ultimately show ?thesis using that unfolding closing_ok_def ids by simp
  qed
  moreover have "pages_owned s \<longrightarrow> pages_owned ?s"
    by (intro impI, erule pages_owned_mono) (auto simp: page_owner_def buff_ids_def marked_def split: if_splits)
  ultimately show ?thesis using cx run sys al cl by (intro exI [of _ cx] exI [of _ ?s]) simp
qed

end
