(* ===== verification/Dicedev_Create.thy ===== *)
theory Dicedev_Create
  imports Dicedev_Lifetime
begin

text \<open>
  New objects: opening the device makes a context behind a new descriptor, and the ioctl
  that creates a buffer makes the buffer, its pages and its file. Both keep the invariant of
  the driver, whether they succeed or fail.
\<close>

text \<open>Every context has its file, which is open or, as recorded in \<open>cl\<close>, being released.\<close>

definition ctx_held :: "kstate \<Rightarrow> (ptr \<times> ptr) list \<Rightarrow> bool" where
  "ctx_held s cl \<longleftrightarrow> (\<forall>c. ctx_ids s c \<noteq> None \<longrightarrow> (\<exists>fp f. files s fp = Some f \<and> private_data f = PrivCtx c \<and>
     (fp \<in> ran (fds s) \<or> (fp, c) \<in> set cl)))"

lemma ctx_held_mono:
  assumes "ctx_held s cl" "\<And>c. ctx_ids s' c \<noteq> None \<Longrightarrow> ctx_ids s c \<noteq> None"
    and "\<And>fp f c. ctx_ids s' c \<noteq> None \<Longrightarrow> files s fp = Some f \<Longrightarrow> private_data f = PrivCtx c \<Longrightarrow> files s' fp = Some f"
    and "\<And>fp f c. ctx_ids s' c \<noteq> None \<Longrightarrow> files s fp = Some f \<Longrightarrow> private_data f = PrivCtx c \<Longrightarrow> fp \<in> ran (fds s) \<or> (fp, c) \<in> set cl \<Longrightarrow>
      fp \<in> ran (fds s') \<or> (fp, c) \<in> set cl'"
  shows "ctx_held s' cl'"
  unfolding ctx_held_def
proof (intro allI impI)
  fix c assume c: "ctx_ids s' c \<noteq> None"
  then obtain fp f where "files s fp = Some f" "private_data f = PrivCtx c" "fp \<in> ran (fds s) \<or> (fp, c) \<in> set cl"
    using assms(1,2) unfolding ctx_held_def by meson
  then show "\<exists>fp f. files s' fp = Some f \<and> private_data f = PrivCtx c \<and> (fp \<in> ran (fds s') \<or> (fp, c) \<in> set cl')"
    using assms(3,4) [OF c] by blast
qed

section \<open>Opening the device\<close>

text \<open>
  What the kernel does around \<open>dicedev_open\<close>: it makes the file, with one reference, and
  connects it to a free descriptor \<open>fd\<close>, or throws it away when the driver refuses.
\<close>

definition vfs_open :: "env \<Rightarrow> ptr \<Rightarrow> int \<Rightarrow> kstate \<Rightarrow> int syscall" where
  "vfs_open E d fd s = (case kmalloc E s of
     (None, s) \<Rightarrow> Inr (Inl ENOMEM, s)
   | (Some fp, s) \<Rightarrow>
       bindR (dicedev_open E d fp (s\<lparr>files := (files s)(fp \<mapsto> \<lparr>private_data = PrivNull, f_count = 1\<rparr>)\<rparr>)) (\<lambda>(r, s). case r of
         Inl e \<Rightarrow> Inr (Inl e, s\<lparr>files := (files s)(fp := None)\<rparr>)
       | Inr _ \<Rightarrow> Inr (Inr fd, s\<lparr>fds := (fds s)(fd \<mapsto> fp)\<rparr>)))"

definition new_ctx :: "ptr \<Rightarrow> dicedev_context" where
  "new_ctx d = \<lparr>ctx_dev = d, ctx_failed = False, task_count = 0, wq = 0, allocated_buffers = []\<rparr>"

definition opened :: "ptr \<Rightarrow> int \<Rightarrow> kstate \<Rightarrow> kstate" where
  "opened d fd s = (let fp = next_ptr (mem s); c = Suc fp in
     s\<lparr>mem := (mem s)\<lparr>next_ptr := Suc c, clock := Suc (Suc (clock (mem s)))\<rparr>, ctxs := (ctxs s)(c \<mapsto> new_ctx d),
       files := (files s)(fp \<mapsto> \<lparr>private_data = PrivCtx c, f_count = 1\<rparr>), fds := (fds s)(fd \<mapsto> fp)\<rparr>)"

lemma open_run:
  assumes "files s (next_ptr (mem s)) = None"
  shows "vfs_open E d fd s =
    (if \<not> alloc_ok E (clock (mem s)) then Inr (Inl ENOMEM, s\<lparr>mem := (mem s)\<lparr>clock := Suc (clock (mem s))\<rparr>\<rparr>)
     else if \<not> alloc_ok E (Suc (clock (mem s)))
     then Inr (Inl ENOMEM, s\<lparr>mem := (mem s)\<lparr>next_ptr := Suc (next_ptr (mem s)), clock := Suc (Suc (clock (mem s)))\<rparr>\<rparr>)
     else Inr (Inr fd, opened d fd s))"
proof -
  have "(files s)(next_ptr (mem s) := None) = files s" using assms by (rule fun_upd_idem)
  then show ?thesis
    by (cases s) (simp add: vfs_open_def dicedev_open_def kmalloc_def alloc_def opened_def new_ctx_def Let_def del: bindR_eq_Inr)
qed

lemma heap_opened:
  assumes h: "heap_inv E d s" and fd: "fds s fd = None" and p: "ptr_inv (mem (opened d fd s))"
  shows "heap_inv E d (opened d fd s)"
proof -
  let ?s = "opened d fd s" and ?fp = "next_ptr (mem s)" and ?c = "Suc (next_ptr (mem s))"
  have n: "next_ptr (mem ?s) = Suc ?c" "page_mem (mem ?s) = page_mem (mem s)" by (simp_all add: opened_def Let_def)
  have ids: "buff_ids ?s = buff_ids s" "ctx_ids ?s = (ctx_ids s)(?c \<mapsto> (d, []))" "files ?s = (files s)(?fp \<mapsto> \<lparr>private_data = PrivCtx ?c, f_count = 1\<rparr>)"
      "fds ?s = (fds s)(fd \<mapsto> ?fp)" "pts ?s = pts s" "tasks ?s = tasks s" "cmds ?s = cmds s"
    by (simp_all add: fun_eq_iff buff_ids_def ctx_ids_def opened_def Let_def new_ctx_def)
  have fresh: "files s ?fp = None" "ctx_ids s ?c = None"
    using fresh_None [OF heap_below(8) [OF h], of ?fp] fresh_None [OF heap_below(4) [OF h], of ?c] by simp_all
  have l: "listed ?s = listed s" using fresh(2) by (auto simp: fun_eq_iff listed_def ids)
  have ran: "x \<in> ran (fds ?s) \<longleftrightarrow> x \<in> ran (fds s)" if "x \<noteq> ?fp" for x using that fd by (simp add: ids)
  then have r: "refs ?s c b x = refs s c b x" if "x \<noteq> ?fp" for c b x using that by (simp add: refs_def l)
  have below: "below ?s"
  proof -
    have "ctxs_below ?s (Suc ?c)" unfolding ctxs_below_def ids by (auto split: if_splits dest: below_ctx [OF h])
    then show ?thesis using heap_below [OF h] unfolding below_def Let_def ids n by (auto intro: less_SucI)
  qed
  have "buffer_sound E d ?s b" for b
  proof -
    have b: "buffer_sound E d s b" by (rule heap_invD [OF h])
    then have "g \<noteq> ?fp" if "buff_ids s b = Some (p, d', c', g, dead)" for p d' c' g dead using that fresh(1) by (auto simp: buffer_sound_def)
    then show ?thesis using b unfolding buffer_sound_def table_sound_def ids l pt_owns_cong [OF n(2)] by (auto simp: r)
  qed
  moreover have "unshared ?s"
  proof -
    have "g \<noteq> ?fp" if "fds s x = Some g" for x g using heap_invD(4) [OF h, of x] that fresh(1) by (auto simp: fd_sound_alt)
    moreover have "private_data f \<noteq> PrivCtx ?c" if "files s g = Some f" for g f using below_ctx(2) [OF h that, of ?c] by auto
    ultimately show ?thesis using heap_invD(5) [OF h] fd unfolding unshared_def ids by (auto split: if_splits)
  qed
  moreover have "apart ?s b b'" for b b' using heap_invD(2) [OF h, of b b'] unfolding apart_def ids by simp
  moreover have "context_sound d ?s x" for x using heap_invD(3) [OF h, of x] unfolding context_sound_def ids by simp
  moreover have "fd_sound ?s x" for x
    using heap_invD(4) [OF h, of x] fresh(1) unfolding fd_sound_alt ids by auto
  moreover have "kmem_ok (mem ?s)" by (rule kmem_ok_more [OF heap_below(1) [OF h] n(2)]) (simp add: n)
  ultimately show ?thesis using below p by (simp add: heap_inv_def)
qed

lemma opened_frame:
  assumes h: "heap_inv E d s"
  shows "all_listed s \<Longrightarrow> all_listed (opened d fd s)" "closing_ok s fp c \<Longrightarrow> closing_ok (opened d fd s) fp c"
    "of_ctx s c b \<Longrightarrow> of_ctx (opened d fd s) c b" "buffer_pages (opened d fd s) b = buffer_pages s b"
    "pages_owned s \<Longrightarrow> pages_owned (opened d fd s)" "ctx_held s cl \<Longrightarrow> fds s fd = None \<Longrightarrow> ctx_held (opened d fd s) cl"
proof -
  let ?s = "opened d fd s" and ?fp = "next_ptr (mem s)" and ?c = "Suc (next_ptr (mem s))"
  have ids: "buff_ids ?s = buff_ids s" "ctx_ids ?s = (ctx_ids s)(?c \<mapsto> (d, []))" "files ?s = (files s)(?fp \<mapsto> \<lparr>private_data = PrivCtx ?c, f_count = 1\<rparr>)"
      "fds ?s = (fds s)(fd \<mapsto> ?fp)" "pts ?s = pts s" "buffs ?s = buffs s"
    by (simp_all add: fun_eq_iff buff_ids_def ctx_ids_def opened_def Let_def new_ctx_def)
  have fresh: "files s ?fp = None" "ctx_ids s ?c = None"
    using fresh_None [OF heap_below(8) [OF h], of ?fp] fresh_None [OF heap_below(4) [OF h], of ?c] by simp_all
  have l: "listed ?s = listed s" using fresh(2) by (auto simp: fun_eq_iff listed_def ids)
  have "c' \<noteq> ?c" if "buff_ids s b = Some (p, d', c', g, dead)" for b p d' c' g dead using below_ctx(1) [OF h that] by simp
  then show "all_listed s \<Longrightarrow> all_listed ?s" unfolding all_listed_def ids l by (metis fun_upd_apply)
  show "closing_ok s fp c \<Longrightarrow> closing_ok ?s fp c" using fresh(1) unfolding closing_ok_def ids by (auto simp: ran_def)
  show "of_ctx s c b \<Longrightarrow> of_ctx ?s c b" "buffer_pages ?s b = buffer_pages s b" by (simp_all add: of_ctx_def l ids buffer_pages_def)
  have "pages_owned ?s = pages_owned s" by (rule pages_owned_cong) (simp_all add: ids, simp add: opened_def Let_def)
  then show "pages_owned s \<Longrightarrow> pages_owned ?s" by simp
  show "ctx_held ?s cl" if cl: "ctx_held s cl" "fds s fd = None"
    unfolding ctx_held_def
  proof (intro allI impI)
    fix x assume "ctx_ids ?s x \<noteq> None"
    then consider "x = ?c" | "ctx_ids s x \<noteq> None" by (auto simp: ids split: if_splits)
    then show "\<exists>g f. files ?s g = Some f \<and> private_data f = PrivCtx x \<and> (g \<in> ran (fds ?s) \<or> (g, x) \<in> set cl)"
    proof cases
      case 1
      have "?fp \<in> ran (fds ?s)" by (auto simp: ids intro: ranI)
      then show ?thesis using 1 by (intro exI [of _ ?fp]) (simp add: ids(3))
    next
      case 2
      then obtain g f where "files s g = Some f" "private_data f = PrivCtx x" "g \<in> ran (fds s) \<or> (g, x) \<in> set cl"
        using cl(1) unfolding ctx_held_def by meson
      then show ?thesis using fresh(1) cl(2) by (intro exI [of _ g] exI [of _ f]) (auto simp: ids)
    qed
  qed
qed

lemma ptr_inv_more:
  "bounded E \<Longrightarrow> ptr_inv m \<Longrightarrow> alloc_ok E (clock m) \<Longrightarrow> ptr_inv (m\<lparr>next_ptr := Suc (next_ptr m), clock := k\<rparr>) \<longleftrightarrow> next_ptr m < k"
  "bounded E \<Longrightarrow> ptr_inv m \<Longrightarrow> alloc_ok E (Suc (clock m)) \<Longrightarrow> ptr_inv (m\<lparr>next_ptr := Suc (Suc (next_ptr m)), clock := k\<rparr>) \<longleftrightarrow> Suc (next_ptr m) < k"
  by (auto simp: ptr_inv_def bounded_def)

lemma sys_open:
  assumes inv: "sys_inv E w dv s" and fd: "fds s fd = None"
  shows "\<exists>r s'. vfs_open E (wt_dev w) fd s = Inr (r, s') \<and> sys_inv E w dv s' \<and> (same_heap s s' \<or> s' = opened (wt_dev w) fd s)"
proof -
  let ?d = "wt_dev w"
  have h: "heap_inv E ?d s" "bounded E" using inv by (simp_all add: sys_inv_def)
  have i: "devs s ?d = Some dv" "slots_ok ?d s" "\<not> slock dv" "\<not> feed_lock dv" "\<not> dev_failed dv" "counted ?d s (live w dv)" "distinct (live w dv)"
      "\<forall>tp \<in> set (live w dv). task_linked ?d s tp"
    using inv by (simp_all add: sys_inv_def dev_inv_def base_inv_def)
  note p = heap_below(2) [OF h(1)]
  have frame: "sys_inv E w dv (s\<lparr>mem := m\<rparr>) \<and> same_heap s (s\<lparr>mem := m\<rparr>)"
    if "page_mem m = page_mem (mem s)" "next_ptr (mem s) \<le> next_ptr m" "ptr_inv m" for m
    using sys_mem [OF inv that] that(1) by (simp add: same_heap_def fun_eq_iff buff_ids_def ctx_ids_def)
  have "files s (next_ptr (mem s)) = None" by (rule fresh_None [OF heap_below(8) [OF h(1)]]) simp
  note run = open_run [OF this, of E ?d fd]
  consider "\<not> alloc_ok E (clock (mem s))" | "alloc_ok E (clock (mem s))" "\<not> alloc_ok E (Suc (clock (mem s)))"
    | "alloc_ok E (clock (mem s))" "alloc_ok E (Suc (clock (mem s)))" by blast
  then show ?thesis
  proof cases
    case 1
    then show ?thesis using run frame [of "(mem s)\<lparr>clock := Suc (clock (mem s))\<rparr>"] p by (auto simp: ptr_inv_def)
  next
    case 2
    have "ptr_inv ((mem s)\<lparr>next_ptr := Suc (next_ptr (mem s)), clock := Suc (Suc (clock (mem s)))\<rparr>)"
      using p by (simp add: ptr_inv_more(1) [OF h(2) p 2(1)]) (simp add: ptr_inv_def)
    then show ?thesis using run frame [of "(mem s)\<lparr>next_ptr := Suc (next_ptr (mem s)), clock := Suc (Suc (clock (mem s)))\<rparr>"] 2 by auto
  next
    case 3
    let ?s = "opened ?d fd s"
    have "ptr_inv (mem ?s)" using p by (simp add: opened_def Let_def ptr_inv_more(2) [OF h(2) p 3(2)]) (simp add: ptr_inv_def)
    then have "heap_inv E ?d ?s" by (rule heap_opened [OF h(1) fd])
    moreover have "slots_ok ?d ?s = slots_ok ?d s" by (rule slots_ok_cong [OF i(1)]) (simp_all add: i(1) opened_def Let_def)
    moreover have "counted ?d ?s (live w dv)"
    proof -
      have "ctx_ids s (Suc (next_ptr (mem s))) = None" by (rule fresh_None [OF heap_below(4) [OF h(1)]]) simp
      then have "map_option fst (task_key s tp) \<noteq> Some (Suc (next_ptr (mem s)))" if "tp \<in> set (live w dv)" for tp
        using i(8) that by (fastforce simp: task_linked_def ctx_key_def ctx_ids_def)
      then have "tasks_of ?s (Suc (next_ptr (mem s))) (live w dv) = []" by (simp add: tasks_of_def task_key_def opened_def Let_def filter_empty_conv)
      then show ?thesis using i(6) by (auto simp: counted_def opened_def Let_def new_ctx_def tasks_of_def task_key_def)
    qed
    ultimately have "sys_inv E w dv ?s"
      using i opened_frame(3,4) [where fd = fd, OF h(1)] by (intro sys_inv_heap [OF inv]) (simp_all add: opened_def Let_def)
    then show ?thesis using run 3 by auto
  qed
qed

section \<open>Creating a buffer\<close>

lemma table_pages: "table_sound E m t \<Longrightarrow> pt_pages t \<subseteq> dom (page_mem m)"
  by (fastforce simp: table_sound_def pt_owns_def pt_pages_def)

lemma table_for_sound:
  assumes "table_for E m m' sz t"
  shows "table_sound E m' t" "pt_pages t \<inter> dom (page_mem m) = {}" "x \<notin> pt_pages t \<Longrightarrow> page_mem m' x = page_mem m x"
proof -
  obtain ep qs where o: "pt_owns E m' t ep qs" "num_pages t = (unat sz + 4095) div 4096" "max_size t = sz" "set (ep # qs) \<inter> dom (page_mem m) = {}"
      "page_mem m' |` (- set (ep # qs)) = page_mem m"
    using assms unfolding table_for_def by blast
  have n: "num_pages t = length qs" using o(1) by (simp add: pt_owns_def)
  have "unat sz \<le> 4096 * ((unat sz + 4095) div 4096)" using div_mult_mod_eq [of "unat sz + 4095" 4096] mod_less_divisor [of 4096 "unat sz + 4095"] by linarith
  then have "unat (max_size t) \<le> 4096 * length qs" using o(2,3) n by simp
  then show "table_sound E m' t" using o(1) by (auto simp: table_sound_def)
  have pg: "pt_pages t = set (ep # qs)" by (rule pt_owns_pages [OF o(1)])
  show "pt_pages t \<inter> dom (page_mem m) = {}" unfolding pg by (rule o(4))
  have "(page_mem m' |` (- set (ep # qs))) x = page_mem m x" using o(5) by simp
  then show "x \<notin> pt_pages t \<Longrightarrow> page_mem m' x = page_mem m x" unfolding pg by (simp add: restrict_map_def)
qed

text \<open>The pieces of a new buffer, with what was there before.\<close>

definition buffer_added :: "env \<Rightarrow> ptr \<Rightarrow> ptr \<Rightarrow> ptr \<Rightarrow> ptr \<Rightarrow> ptr \<Rightarrow> dicedev_page_table \<Rightarrow> int \<Rightarrow> ptr list \<Rightarrow> kstate \<Rightarrow> kstate \<Rightarrow> bool" where
  "buffer_added E d c b tp fp t fd bs s s' \<longleftrightarrow> next_ptr (mem s) \<le> b \<and> next_ptr (mem s) \<le> tp \<and> next_ptr (mem s) \<le> fp \<and>
     b < next_ptr (mem s') \<and> tp < next_ptr (mem s') \<and> fp < next_ptr (mem s') \<and>
     table_sound E (mem s') t \<and> pt_pages t \<inter> dom (page_mem (mem s)) = {} \<and> (\<forall>x. x \<notin> pt_pages t \<longrightarrow> page_mem (mem s') x = page_mem (mem s) x) \<and>
     pts s' = (pts s)(tp \<mapsto> t) \<and> files s' = (files s)(fp \<mapsto> \<lparr>private_data = PrivBuff b, f_count = 2\<rparr>) \<and> fds s' = (fds s)(fd \<mapsto> fp) \<and>
     buff_ids s' = (buff_ids s)(b \<mapsto> (tp, d, c, fp, False)) \<and> ctx_ids s c = Some (d, bs) \<and> ctx_ids s' = (ctx_ids s)(c \<mapsto> (d, b # bs)) \<and>
     tasks s' = tasks s \<and> cmds s' = cmds s"

lemma set_made_added:
  assumes "set_made E c cs fd s s'" "heap_inv E d s"
  obtains b tp fp t bs where "buffer_added E d c b tp fp t fd bs s s'"
    "\<exists>bf. buffs s' = (buffs s)(b \<mapsto> bf) \<and> buff_dev bf = d \<and> binded_slot bf = -1" "devs s' = devs s"
    "\<forall>x. map_option (\<lambda>cx. (ctx_dev cx, task_count cx)) (ctxs s' x) = map_option (\<lambda>cx. (ctx_dev cx, task_count cx)) (ctxs s x)"
proof -
  obtain cx b tp fp t where m: "ctxs s c = Some cx" "next_ptr (mem s) \<le> b" "b < tp" "tp < fp" "fp < next_ptr (mem s')"
      "table_for E (mem s) (mem s') (word_of_int (cs_size cs)) t" "pts s' = (pts s)(tp \<mapsto> t)"
      "files s' = (files s)(fp \<mapsto> \<lparr>private_data = PrivBuff b, f_count = 2\<rparr>)" "fds s' = (fds s)(fd \<mapsto> fp)"
      "buffs s' = (buffs s)(b \<mapsto> fresh_buffer c (ctx_dev cx) tp fp (cs_allowed cs) zero_buffer)"
      "ctxs s' = (ctxs s)(c \<mapsto> cx\<lparr>allocated_buffers := b # allocated_buffers cx\<rparr>)"
      "devs s' = devs s" "tasks s' = tasks s" "cmds s' = cmds s"
    using assms(1) unfolding set_made_def by blast
  have d: "ctx_dev cx = d" by (rule heap_ctx(1) [OF assms(2) m(1)])
  have "buff_ids s' = (buff_ids s)(b \<mapsto> (tp, d, c, fp, False))" using m(10) d by (auto simp: fun_eq_iff buff_ids_def fresh_buffer_def)
  moreover have "ctx_ids s' = (ctx_ids s)(c \<mapsto> (d, b # allocated_buffers cx))" "ctx_ids s c = Some (d, allocated_buffers cx)"
    using m(1,11) d by (auto simp: fun_eq_iff ctx_ids_def)
  ultimately have "buffer_added E d c b tp fp t fd (allocated_buffers cx) s s'"
    unfolding buffer_added_def using m table_for_sound [OF m(6)] by simp
  moreover have "\<exists>bf. buffs s' = (buffs s)(b \<mapsto> bf) \<and> buff_dev bf = d \<and> binded_slot bf = -1" using m(10) d by (auto simp: fresh_buffer_def)
  ultimately show thesis using that m(1,11,12) by auto
qed

lemma added_old:
  assumes h: "heap_inv E d s" and a: "buffer_added E d c b tp fp t fd bs s s'"
  shows "buff_ids s b = None" "files s fp = None" "pts s tp = None" "b \<notin> set bs" "fp \<notin> ran (fds s)" "next_ptr (mem s) \<le> next_ptr (mem s')"
    "listed s' c' x \<longleftrightarrow> (c' = c \<and> x = b) \<or> listed s c' x"
    "buff_ids s x = Some (p', d', c', fp', dead') \<Longrightarrow> x \<noteq> b \<and> fp' \<noteq> fp \<and> p' \<noteq> tp"
    "y \<noteq> fp \<Longrightarrow> y \<in> ran (fds s') \<longleftrightarrow> y \<in> ran ((fds s)(fd := None))"
proof -
  note u = a [unfolded buffer_added_def]
  have le: "next_ptr (mem s) \<le> b" "next_ptr (mem s) \<le> tp" "next_ptr (mem s) \<le> fp" using u by simp_all
  show n: "buff_ids s b = None" "files s fp = None" "pts s tp = None"
    using fresh_None [OF heap_below(3) [OF h] le(1)] fresh_None [OF heap_below(8) [OF h] le(3)] fresh_None [OF heap_below(7) [OF h] le(2)] by simp_all
  have "context_sound d s c" by (rule heap_invD [OF h])
  then have "\<exists>p d' fp dead. buff_ids s b = Some (p, d', c, fp, dead)" if "b \<in> set bs" using u that by (simp add: context_sound_def)
  then show "b \<notin> set bs" using n(1) by auto
  show "fp \<notin> ran (fds s)"
  proof
    assume "fp \<in> ran (fds s)"
    then obtain x where "fds s x = Some fp" by (auto simp: ran_def)
    then show False using heap_invD(4) [OF h, of x] n(2) by (simp add: fd_sound_alt)
  qed
  show "next_ptr (mem s) \<le> next_ptr (mem s')" using u by simp
  show "listed s' c' x \<longleftrightarrow> (c' = c \<and> x = b) \<or> listed s c' x" using u by (auto simp: listed_def)
  have "buffer_sound E d s x" by (rule heap_invD [OF h])
  then show "buff_ids s x = Some (p', d', c', fp', dead') \<Longrightarrow> x \<noteq> b \<and> fp' \<noteq> fp \<and> p' \<noteq> tp"
    using n by (auto simp: buffer_sound_def)
  have "fds s' = (fds s)(fd \<mapsto> fp)" using u by simp
  then show "y \<noteq> fp \<Longrightarrow> y \<in> ran (fds s') \<longleftrightarrow> y \<in> ran ((fds s)(fd := None))" by (auto simp: ran_def)
qed

lemma added_buffer_sound:
  assumes h: "heap_inv E d s" and a: "buffer_added E d c b tp fp t fd bs s s'" and fd: "fds s fd = None"
  shows "buffer_sound E d s' x"
proof (cases "x = b")
  case True
  note u = a [unfolded buffer_added_def]
  have "listed s' c b" using added_old(7) [OF h a] by simp
  moreover have "fp \<in> ran (fds s')" using u by (auto intro: ranI)
  ultimately have "refs s' c b fp = 2" by (simp add: refs_def)
  then show ?thesis using True u \<open>listed s' c b\<close> by (simp add: buffer_sound_def)
next
  case False
  note u = a [unfolded buffer_added_def] and old = added_old [OF h a]
  have snd: "buffer_sound E d s x" by (rule heap_invD [OF h])
  show ?thesis
    unfolding buffer_sound_def
  proof (intro allI impI)
    fix p' d' c' fp' dead' assume "buff_ids s' x = Some (p', d', c', fp', dead')"
    then have ids: "buff_ids s x = Some (p', d', c', fp', dead')" using u False by simp
    note ne = old(8) [OF ids]
    have "(fds s)(fd := None) = fds s" using fd by (rule fun_upd_idem)
    then have r: "refs s' c' x fp' = refs s c' x fp'" using old(7) [of c' x] old(9) [of fp'] ne by (simp add: refs_def)
    obtain t' where t': "pts s p' = Some t'" "table_sound E (mem s) t'" using snd ids by (auto simp: buffer_sound_def)
    have "table_sound E (mem s') t'" using table_pages [OF t'(2)] u by (intro table_sound_cong [OF t'(2)]) blast
    then show "d' = d \<and> (\<exists>t. pts s' p' = Some t \<and> table_sound E (mem s') t) \<and>
        files s' fp' = Some \<lparr>private_data = PrivBuff x, f_count = refs s' c' x fp'\<rparr> \<and> 0 < refs s' c' x fp' \<and> (\<not> dead' \<longrightarrow> listed s' c' x)"
      using snd ids t' r ne u old(7) [of c' x] by (simp add: buffer_sound_def)
  qed
qed

lemma added_apart:
  assumes h: "heap_inv E d s" and a: "buffer_added E d c b tp fp t fd bs s s'"
  shows "apart s' x y"
  unfolding apart_def
proof (intro allI impI)
  note u = a [unfolded buffer_added_def] and old = added_old [OF h a]
  have new: "p \<noteq> tp \<and> (\<forall>t'. pts s' p = Some t' \<longrightarrow> pt_pages t \<inter> pt_pages t' = {})" if z: "buff_ids s z = Some (p, r)" for z p r
  proof -
    obtain d' c' fp' dead' where r: "r = (d', c', fp', dead')" by (metis prod_cases4)
    have ne: "p \<noteq> tp" using old(8) z r by blast
    have "buffer_sound E d s z" by (rule heap_invD [OF h])
    then obtain t' where "pts s p = Some t'" "table_sound E (mem s) t'" using z r by (auto simp: buffer_sound_def)
    then show ?thesis using ne u table_pages by fastforce
  qed
  fix p q p' q' t1 t2 assume x: "buff_ids s' x = Some (p, q)" "buff_ids s' y = Some (p', q')" "x \<noteq> y"
  have ids: "buff_ids s' = (buff_ids s)(b \<mapsto> (tp, d, c, fp, False))" "pts s' = (pts s)(tp \<mapsto> t)" using u by simp_all
  consider "x = b" | "y = b" | "x \<noteq> b" "y \<noteq> b" by blast
  then show "p \<noteq> p' \<and> (pts s' p = Some t1 \<longrightarrow> pts s' p' = Some t2 \<longrightarrow> pt_pages t1 \<inter> pt_pages t2 = {})"
  proof cases
    case 1
    then show ?thesis using x new [of y p' q'] by (auto simp: ids)
  next
    case 2
    then show ?thesis using x new [of x p q] by (auto simp: ids)
  next
    case 3
    then have o: "buff_ids s x = Some (p, q)" "buff_ids s y = Some (p', q')" using x by (simp_all add: ids)
    then have "p \<noteq> p' \<and> (pts s p = Some t1 \<longrightarrow> pts s p' = Some t2 \<longrightarrow> pt_pages t1 \<inter> pt_pages t2 = {})"
      using heap_invD(2) [OF h, of x y] x(3) unfolding apart_def by blast
    then show ?thesis using new [OF o(1)] new [OF o(2)] by (simp add: ids)
  qed
qed

lemma added_context:
  assumes h: "heap_inv E d s" and a: "buffer_added E d c b tp fp t fd bs s s'"
  shows "context_sound d s' x"
  unfolding context_sound_def
proof (intro allI impI)
  note old = added_old [OF h a]
  have ids: "buff_ids s' = (buff_ids s)(b \<mapsto> (tp, d, c, fp, False))" "ctx_ids s' = (ctx_ids s)(c \<mapsto> (d, b # bs))" "ctx_ids s c = Some (d, bs)"
    using a by (simp_all add: buffer_added_def)
  fix e bs' assume x: "ctx_ids s' x = Some (e, bs')"
  have cs: "context_sound d s x" by (rule heap_invD [OF h])
  obtain bs0 where bs0: "ctx_ids s x = Some (d, bs0)" "e = d" "bs' = (if x = c then b # bs0 else bs0)" "distinct bs0"
  proof (cases "x = c")
    case True
    then show thesis using that [of bs] x ids(3) cs by (simp add: ids(2) context_sound_def)
  next
    case False
    then show thesis using that [of bs'] x cs by (simp add: ids(2) context_sound_def)
  qed
  have own: "\<exists>p d' fp dead. buff_ids s y = Some (p, d', x, fp, dead)" if "y \<in> set bs0" for y using cs bs0(1) that by (simp add: context_sound_def)
  have nb: "b \<notin> set bs0" using own [of b] old(1) by auto
  have "\<exists>p d' fp dead. buff_ids s' y = Some (p, d', x, fp, dead)" if "y \<in> set bs'" for y
  proof (cases "y = b")
    case True
    then have "x = c" using that nb bs0(3) by (auto split: if_splits)
    then show ?thesis using True ids(1) by auto
  next
    case False
    then show ?thesis using own [of y] that bs0(3) ids(1) by (auto split: if_splits)
  qed
  then show "e = d \<and> distinct bs' \<and> (\<forall>b \<in> set bs'. \<exists>p d' fp dead. buff_ids s' b = Some (p, d', x, fp, dead))" using bs0 nb by auto
qed

lemma heap_added:
  assumes h: "heap_inv E d s" and a: "buffer_added E d c b tp fp t fd bs s s'" and fd: "fds s fd = None"
    and m: "kmem_ok (mem s')" "ptr_inv (mem s')"
  shows "heap_inv E d s'"
proof -
  note u = a [unfolded buffer_added_def] and old = added_old [OF h a]
  have ids: "buff_ids s' = (buff_ids s)(b \<mapsto> (tp, d, c, fp, False))" "ctx_ids s' = (ctx_ids s)(c \<mapsto> (d, b # bs))" "pts s' = (pts s)(tp \<mapsto> t)"
      "files s' = (files s)(fp \<mapsto> \<lparr>private_data = PrivBuff b, f_count = 2\<rparr>)" "fds s' = (fds s)(fd \<mapsto> fp)" "tasks s' = tasks s" "cmds s' = cmds s"
      "ctx_ids s c = Some (d, bs)"
    using u by simp_all
  have lt: "b < next_ptr (mem s')" "tp < next_ptr (mem s')" "fp < next_ptr (mem s')" using u by simp_all
  have c: "c < next_ptr (mem s)" using heap_below(4) [OF h] ids(8) by (auto simp: dom_def subset_iff)
  have "ctxs_below s' (next_ptr (mem s'))"
    unfolding ctxs_below_def ids using c old(6) by (auto split: if_splits dest: below_ctx [OF h])
  then have "below s'"
    unfolding below_def Let_def ids using dom_below [OF heap_below(3) [OF h] old(6)] dom_below [OF heap_below(4) [OF h] old(6)]
      dom_below(1) [OF heap_below(5) [OF h] old(6)] dom_below(1) [OF heap_below(6) [OF h] old(6)]
      dom_below [OF heap_below(7) [OF h] old(6)] dom_below [OF heap_below(8) [OF h] old(6)] lt c old(6) by simp
  moreover have "unshared s'"
  proof -
    have "g \<noteq> fp" if "fds s x = Some g" for x g using old(5) that by (auto intro: ranI)
    then show ?thesis using heap_invD(5) [OF h] fd unfolding unshared_def ids by (auto split: if_splits)
  qed
  moreover have "context_sound d s' x" for x by (rule added_context [OF h a])
  moreover have "fd_sound s' x" for x
    using heap_invD(4) [OF h, of x] old(1,2) ids(8) unfolding fd_sound_alt ids(1-7) by (auto split: if_splits)
  ultimately show ?thesis using m added_buffer_sound [OF h a fd] added_apart [OF h a] by (simp add: heap_inv_def)
qed

lemma added_frame:
  assumes h: "heap_inv E d s" and a: "buffer_added E d c b tp fp t fd bs s s'" and fd: "fds s fd = None"
  shows "all_listed s \<Longrightarrow> all_listed s'" "closing_ok s fp' c' \<Longrightarrow> c' \<noteq> c \<Longrightarrow> closing_ok s' fp' c'"
    "of_ctx s c'' x \<Longrightarrow> of_ctx s' c'' x" "pages_owned s \<Longrightarrow> pages_owned s'" "ctx_held s cl \<Longrightarrow> ctx_held s' cl"
proof -
  note u = a [unfolded buffer_added_def] and old = added_old [OF h a]
  have ids: "buff_ids s' = (buff_ids s)(b \<mapsto> (tp, d, c, fp, False))" "ctx_ids s' = (ctx_ids s)(c \<mapsto> (d, b # bs))"
      "files s' = (files s)(fp \<mapsto> \<lparr>private_data = PrivBuff b, f_count = 2\<rparr>)" "fds s' = (fds s)(fd \<mapsto> fp)" "ctx_ids s c = Some (d, bs)"
    using u by simp_all
  show "all_listed s'" if "all_listed s"
    unfolding all_listed_def
  proof (intro allI impI)
    fix y p e c' g dead assume y: "buff_ids s' y = Some (p, e, c', g, dead)" "ctx_ids s' c' \<noteq> None"
    show "listed s' c' y"
    proof (cases "y = b")
      case True
      then show ?thesis using y(1) old(7) by (simp add: ids)
    next
      case False
      then have "buff_ids s y = Some (p, e, c', g, dead)" "ctx_ids s c' \<noteq> None" using y ids(5) by (auto simp: ids split: if_splits)
      then show ?thesis using all_listedD [OF that] old(7) by blast
    qed
  qed
  show "closing_ok s fp' c' \<Longrightarrow> c' \<noteq> c \<Longrightarrow> closing_ok s' fp' c'"
    using old(2) old(9) [of fp'] fd unfolding closing_ok_def ids(1,2,3) by (auto simp: fun_upd_idem)
  show "of_ctx s' c'' x" if "of_ctx s c'' x"
  proof -
    have "x \<noteq> b" using that old(1) by (auto simp: of_ctx_def)
    then show ?thesis using that old(7) by (simp add: of_ctx_def ids)
  qed
  show "pages_owned s'" if po: "pages_owned s"
    unfolding pages_owned_def
  proof
    fix q assume q: "q \<in> dom (page_mem (mem s'))"
    show "\<exists>b. page_owner s' b q"
    proof (cases "q \<in> pt_pages t")
      case True
      then have "page_owner s' b q" using u by (simp add: page_owner_def)
      then show ?thesis ..
    next
      case False
      then have "page_mem (mem s') q = page_mem (mem s) q" using u by simp
      then have "q \<in> dom (page_mem (mem s))" using q by (simp add: domIff)
      then obtain x where "page_owner s x q" using po unfolding pages_owned_def by blast
      then obtain p t' where p: "map_option fst (buff_ids s x) = Some p" "pts s p = Some t'" "q \<in> pt_pages t'" by (auto simp: page_owner_def)
      then obtain d' c' g dead where "buff_ids s x = Some (p, d', c', g, dead)" by auto
      then have "x \<noteq> b" "p \<noteq> tp" using old(8) by blast+
      moreover have "pts s' = (pts s)(tp \<mapsto> t)" using u by simp
      ultimately have "page_owner s' x q" unfolding page_owner_def using p by (intro exI [of _ p] exI [of _ t']) (simp add: ids(1))
      then show ?thesis ..
    qed
  qed
  show "ctx_held s' cl" if "ctx_held s cl"
    by (rule ctx_held_mono [OF that]) (use ids old(2) fd in \<open>auto split: if_splits\<close>)
qed

text \<open>A failed creation may leave a file without an owner.\<close>

lemma unchanged_frame:
  assumes h: "heap_inv E d s" and u: "unchanged s s'" and m: "kmem_ok (mem s')" "ptr_inv (mem s')"
  shows "heap_inv E d s'" "all_listed s \<Longrightarrow> all_listed s'" "closing_ok s fp c \<Longrightarrow> closing_ok s' fp c" "of_ctx s' = of_ctx s"
    "buffer_pages s' = buffer_pages s" "pages_owned s \<Longrightarrow> pages_owned s'" "ctx_held s cl \<Longrightarrow> ctx_held s' cl"
proof -
  have k: "ctxs s' = ctxs s" "tasks s' = tasks s" "cmds s' = cmds s" "fds s' = fds s" "page_mem (mem s') = page_mem (mem s)" "pts s' = pts s"
      "buffs s' = buffs s" "next_ptr (mem s) \<le> next_ptr (mem s')"
    using u by (simp_all add: unchanged_def same_kernel_def)
  have ids: "buff_ids s' = buff_ids s" "ctx_ids s' = ctx_ids s" by (simp_all add: fun_eq_iff buff_ids_def ctx_ids_def k)
  have l: "listed s' = listed s" by (simp add: fun_eq_iff listed_def ids)
  have r: "refs s' = refs s" by (simp add: fun_eq_iff refs_def l k)
  have files: "files s' x = Some f" if "files s x = Some f" for x f
    using u that fresh_None [OF heap_below(8) [OF h], of x] by (auto simp: unchanged_def)
  have priv: "files s x = Some f" if "files s' x = Some f" "private_data f = PrivCtx c" for x f c
    using u that by (auto simp: unchanged_def split: if_splits)
  have dom: "dom (files s') \<subseteq> {..<next_ptr (mem s')}"
  proof -
    have "files s' = files s \<or> (\<exists>x f. x < next_ptr (mem s') \<and> files s' = (files s)(x \<mapsto> f))" using u by (auto simp: unchanged_def)
    then show ?thesis using dom_below [OF heap_below(8) [OF h] k(8)] by (elim disjE exE conjE) simp_all
  qed
  show "all_listed s \<Longrightarrow> all_listed s'" by (simp add: all_listed_def ids l)
  show "closing_ok s fp c \<Longrightarrow> closing_ok s' fp c" using files unfolding closing_ok_def ids k by blast
  show "of_ctx s' = of_ctx s" "buffer_pages s' = buffer_pages s" by (simp_all add: fun_eq_iff of_ctx_def l ids buffer_pages_def k)
  show "pages_owned s \<Longrightarrow> pages_owned s'" using pages_owned_cong [OF k(5) ids(1) k(6)] by simp
  show "ctx_held s cl \<Longrightarrow> ctx_held s' cl" by (erule ctx_held_mono) (simp_all add: ids k files)
  have lt: "c < next_ptr (mem s')" if "files s' x = Some f" "private_data f = PrivCtx c" for x f c
    using below_ctx(2) [OF h priv [OF that] that(2)] k(8) by simp
  have "c < next_ptr (mem s')" if "buff_ids s b = Some (p, d', c, g, dead)" for b p d' c g dead using below_ctx(1) [OF h that] k(8) by simp
  then have "ctxs_below s' (next_ptr (mem s'))" using lt unfolding ctxs_below_def ids by blast
  then have "below s'"
    unfolding below_def Let_def ids k using dom dom_below(1) [OF heap_below(3) [OF h] k(8)] dom_below(1) [OF heap_below(4) [OF h] k(8)]
      dom_below(1) [OF heap_below(5) [OF h] k(8)] dom_below(1) [OF heap_below(6) [OF h] k(8)] dom_below(1) [OF heap_below(7) [OF h] k(8)] by simp
  moreover have "unshared s'" 
  proof -
    have "x = y" if "files s' x = Some f" "files s' y = Some g" "private_data f = PrivCtx c" "private_data g = PrivCtx c" for x y f g c
      using heap_invD(5) [OF h] priv [OF that(1,3)] priv [OF that(2,4)] that(3,4) unfolding unshared_def by blast
    then show ?thesis using heap_invD(5) [OF h] unfolding unshared_def k by blast
  qed
  moreover have "buffer_sound E d s' b" for b
    using heap_invD(1) [OF h, of b] files unfolding buffer_sound_def table_sound_def ids l r k pt_owns_cong [OF k(5)] by simp
  moreover have "apart s' b b'" for b b' using heap_invD(2) [OF h, of b b'] unfolding apart_def ids k by simp
  moreover have "context_sound d s' x" for x using heap_invD(3) [OF h, of x] unfolding context_sound_def ids by simp
  moreover have "fd_sound s' x" for x using heap_invD(4) [OF h, of x] files unfolding fd_sound_alt ids k by blast
  ultimately show "heap_inv E d s'" using m by (simp add: heap_inv_def)
qed

lemma sys_create_set:
  assumes inv: "sys_inv E w dv s" "all_listed s" and c: "ctxs s c = Some cx" and fd: "\<And>fd. newfd = Inr fd \<Longrightarrow> fds s fd = None"
  shows "\<exists>r s'. dicedev_ioctl_create_set E newfd c arg s = Inr (r, s') \<and> sys_inv E w dv s' \<and> all_listed s' \<and>
    (\<forall>fp' c'. closing_ok s fp' c' \<longrightarrow> c' \<noteq> c \<longrightarrow> closing_ok s' fp' c') \<and> (pages_owned s \<longrightarrow> pages_owned s') \<and> (\<forall>cl. ctx_held s cl \<longrightarrow> ctx_held s' cl)"
proof -
  let ?d = "wt_dev w"
  have h: "heap_inv E ?d s" "bounded E" using inv by (simp_all add: sys_inv_def)
  have i: "devs s ?d = Some dv" "slots_ok ?d s" "\<not> slock dv" "\<not> feed_lock dv" "\<not> dev_failed dv" "counted ?d s (live w dv)"
    using inv by (simp_all add: sys_inv_def dev_inv_def base_inv_def)
  have cd: "ctx_dev cx = ?d" by (rule heap_ctx(1) [OF h(1) c])
  have "buff_ids s (next_ptr (mem s)) = None" by (rule fresh_None [OF heap_below(3) [OF h(1)]]) simp
  then have fresh: "buffs s (next_ptr (mem s)) = None" by (simp add: buff_ids_def)
  have dc: "devs s (ctx_dev cx) = Some dv" using i(1) cd by simp
  obtain r s' where run: "dicedev_ioctl_create_set E newfd c arg s = Inr (r, s')" "kmem_ok (mem s')"
    and out: "case r of Inl e \<Rightarrow> unchanged s s' \<and> (case arg of None \<Rightarrow> e = EFAULT
        | Some cs \<Rightarrow> e = (if set_refused cs then EINVAL else ENOMEM) \<or> newfd = Inl e)
      | Inr fd \<Rightarrow> newfd = Inr fd \<and> (\<exists>cs. arg = Some cs \<and> \<not> set_refused cs \<and> set_made E c cs fd s s')"
    using create_set_spec [OF heap_below(1) [OF h(1)] c dc i(3) fresh heap_below(7) [OF h(1)], of E newfd arg] by blast
  have p: "ptr_inv (mem s')" by (rule create_set_ptr_inv [OF h(2) heap_below(2) [OF h(1)] run(1)])
  have "sys_inv E w dv s' \<and> all_listed s' \<and> (\<forall>fp' c'. closing_ok s fp' c' \<longrightarrow> c' \<noteq> c \<longrightarrow> closing_ok s' fp' c') \<and>
      (pages_owned s \<longrightarrow> pages_owned s') \<and> (\<forall>cl. ctx_held s cl \<longrightarrow> ctx_held s' cl)"
  proof (cases r)
    case (Inl e)
    then have u: "unchanged s s'" using out by simp
    then have k: "devs s' = devs s" "ctxs s' = ctxs s" "tasks s' = tasks s" "cmds s' = cmds s" "buffs s' = buffs s"
      by (simp_all add: unchanged_def same_kernel_def)
    note f = unchanged_frame [OF h(1) u run(2) p]
    have "slots_ok ?d s' = slots_ok ?d s" by (rule slots_ok_cong [OF i(1)]) (simp_all add: i(1) k)
    moreover have "counted ?d s' (live w dv)" using i(6) by (simp add: counted_def tasks_of_def task_key_def k)
    ultimately have "sys_inv E w dv s'" using i by (intro sys_inv_heap [OF inv(1) f(1)]) (simp_all add: k f(4,5))
    then show ?thesis using f(2,3,6,7) inv(2) by simp
  next
    case (Inr fd')
    then obtain cs where mk: "set_made E c cs fd' s s'" and n: "fds s fd' = None" using out fd by auto
    obtain b tp fp t bs where a: "buffer_added E ?d c b tp fp t fd' bs s s'"
      and bf': "\<exists>bf. buffs s' = (buffs s)(b \<mapsto> bf) \<and> buff_dev bf = ?d \<and> binded_slot bf = -1"
      and k: "devs s' = devs s" "\<forall>x. map_option (\<lambda>cx. (ctx_dev cx, task_count cx)) (ctxs s' x) = map_option (\<lambda>cx. (ctx_dev cx, task_count cx)) (ctxs s x)"
      by (rule set_made_added [OF mk h(1)]) blast
    obtain bf where bf: "buffs s' = (buffs s)(b \<mapsto> bf)" "binded_slot bf = -1" using bf' by blast
    note f = added_frame [OF h(1) a n] and old = added_old [OF h(1) a]
    have t: "tasks s' = tasks s" "cmds s' = cmds s" "pts s' = (pts s)(tp \<mapsto> t)" using a by (simp_all add: buffer_added_def)
    have nb: "buffs s b = None" using old(1) by (simp add: buff_ids_def)
    then have "s\<lparr>buffs := (buffs s)(b := None)\<rparr> = s" by (simp add: fun_upd_idem)
    then have "slots_ok ?d (s\<lparr>buffs := (buffs s)(b \<mapsto> bf)\<rparr>)" (is "slots_ok ?d ?s") using slots_ok_add [of ?d s b bf] i(2) bf(2) by simp
    moreover have "slots_ok ?d s' = slots_ok ?d ?s" by (rule slots_ok_cong) (simp_all add: i(1) k bf)
    moreover have "counted ?d s' (live w dv) = counted ?d s (live w dv)" by (rule counted_cong) (simp_all add: k(2) task_key_def [abs_def] t)
    moreover have "buffer_pages s' x = buffer_pages s x" if o: "of_ctx s c' x" for c' x
    proof -
      obtain p d' g dead where "buff_ids s x = Some (p, d', c', g, dead)" using o by (auto simp: of_ctx_def)
      then show ?thesis using old(8) [of x p d' c' g dead] bf(1) t(3) by (auto simp: buffer_pages_def buff_ids_def)
    qed
    ultimately have "sys_inv E w dv s'" using i f(3) by (intro sys_inv_heap [OF inv(1) heap_added [OF h(1) a n run(2) p]]) (simp_all add: k(1) t)
    then show ?thesis using f(1,2,4,5) inv(2) by simp
  qed
  then show ?thesis using run(1) by blast
qed

end
