(* ===== verification/Dicedev_Memory.thy ===== *)
theory Dicedev_Memory
  imports Dicedev_Create
begin

text \<open>
  Accesses to the memory of buffers from outside the driver: user programs read and write their
  mappings, and the device writes results. Neither can break the invariant of the heap, because
  the page fault handler only hands out data pages. Also the files of other drivers among the descriptors of a program.
\<close>

type_synonym u8 = "8 word"

section \<open>Data pages\<close>

lemma fault_page:
  assumes "dicedev_buffer_vm_fault b i s = Inr (Some q)"
  obtains bf t where "buffs s b = Some bf" "pts s (buff_pt bf) = Some t" "\<exists>p \<in> set (pages t). page p = Some q"
proof -
  obtain bf t p where "buffs s b = Some bf" "pts s (buff_pt bf) = Some t" "i < length (pages t)" "page (pages t ! i) = Some q"
    using assms by (auto simp: dicedev_buffer_vm_fault_def index_def deref_def not_null_def split: option.splits if_splits)
  then show thesis using that nth_mem by metis
qed

lemma table_of:
  assumes "heap_inv E d s" "buffs s b = Some bf" "pts s (buff_pt bf) = Some t"
  shows "table_sound E (mem s) t"
  using heap_invD(1) [OF assms(1), of b] assms(2,3) by (simp add: buffer_sound_def buff_ids_def)

lemma tables_apart:
  assumes "heap_inv E d s" "buffs s b = Some bf" "pts s (buff_pt bf) = Some t" "buffs s b' = Some bf'" "pts s (buff_pt bf') = Some t'" "b \<noteq> b'"
  shows "pt_pages t \<inter> pt_pages t' = {}"
  using heap_invD(2) [OF assms(1), of b b'] assms(2-) by (simp add: apart_def buff_ids_def)

definition data_page :: "kstate \<Rightarrow> ptr \<Rightarrow> bool" where
  "data_page s q \<longleftrightarrow> (\<exists>b bf t. buffs s b = Some bf \<and> pts s (buff_pt bf) = Some t \<and> (\<exists>p \<in> set (pages t). page p = Some q))"

lemma fault_data_page: "dicedev_buffer_vm_fault b i s = Inr (Some q) \<Longrightarrow> data_page s q"
  unfolding data_page_def by (erule fault_page) blast

lemma data_page_no_table:
  assumes h: "heap_inv E d s" and q: "data_page s q" and b: "buffs s b = Some bf" "pts s (buff_pt bf) = Some t"
  shows "page (pt_page t) \<noteq> Some q"
proof -
  obtain x xf u where u: "buffs s x = Some xf" "pts s (buff_pt xf) = Some u" "\<exists>p \<in> set (pages u). page p = Some q"
    using q unfolding data_page_def by blast
  show ?thesis
  proof (cases "x = b")
    case True
    then have "t = u" using b u(1,2) by simp
    then show ?thesis using table_of [OF h u(1,2)] u(3) by (auto simp: table_sound_def pt_owns_def)
  next
    case False
    then show ?thesis using tables_apart [OF h u(1,2) b] u(3) by (auto simp: pt_pages_def)
  qed
qed

definition page_written :: "ptr \<Rightarrow> u32 list \<Rightarrow> kstate \<Rightarrow> kstate" where
  "page_written q ws s = s\<lparr>mem := (mem s)\<lparr>page_mem := (page_mem (mem s))(q \<mapsto> ws)\<rparr>\<rparr>"

lemma page_written_sel [simp]:
  "pts (page_written q ws s) = pts s" "devs (page_written q ws s) = devs s" "ctxs (page_written q ws s) = ctxs s" "buffs (page_written q ws s) = buffs s"
  "tasks (page_written q ws s) = tasks s" "cmds (page_written q ws s) = cmds s" "files (page_written q ws s) = files s" "fds (page_written q ws s) = fds s"
  "page_mem (mem (page_written q ws s)) = (page_mem (mem s))(q \<mapsto> ws)" "next_ptr (mem (page_written q ws s)) = next_ptr (mem s)"
  "clock (mem (page_written q ws s)) = clock (mem s)" "buff_ids (page_written q ws s) = buff_ids s" "ctx_ids (page_written q ws s) = ctx_ids s"
  by (simp_all add: page_written_def buff_ids_def ctx_ids_def fun_eq_iff)

lemma written_sound:
  "listed (page_written q ws s) = listed s" "refs (page_written q ws s) = refs s" "apart (page_written q ws s) = apart s"
  "context_sound d (page_written q ws s) = context_sound d s" "fd_sound (page_written q ws s) = fd_sound s"
  "unshared (page_written q ws s) = unshared s" "of_ctx (page_written q ws s) = of_ctx s" "below (page_written q ws s) = below s"
  "all_listed (page_written q ws s) = all_listed s" "ctx_held (page_written q ws s) cl = ctx_held s cl"
  "closing_ok (page_written q ws s) fp c = closing_ok s fp c" "ptr_inv (mem (page_written q ws s)) = ptr_inv (mem s)"
proof -
  show l: "listed (page_written q ws s) = listed s" by (simp add: listed_def fun_eq_iff)
  show "refs (page_written q ws s) = refs s" "of_ctx (page_written q ws s) = of_ctx s" "all_listed (page_written q ws s) = all_listed s"
    by (simp_all add: refs_def of_ctx_def all_listed_def l fun_eq_iff)
  show "fd_sound (page_written q ws s) = fd_sound s" by (simp add: fd_sound_alt fun_eq_iff)
qed (simp_all add: apart_def [abs_def] context_sound_def [abs_def] unshared_def below_def ctxs_below_def Let_def
  ctx_held_def closing_ok_def ptr_inv_def)

lemma heap_page_written:
  assumes h: "heap_inv E d s" and q: "data_page s q" "page_mem (mem s) q = Some ws" "length ws' = 1024"
  shows "heap_inv E d (page_written q ws' s)"
proof -
  have "buffer_sound E d (page_written q ws' s) b" for b
    unfolding buffer_sound_def page_written_sel written_sound
  proof (intro allI impI)
    fix p d' c fp dead
    assume b: "buff_ids s b = Some (p, d', c, fp, dead)"
    then obtain bf where bf: "buffs s b = Some bf" "buff_pt bf = p" by (auto simp: buff_ids_def)
    note snd = heap_invD(1) [OF h, of b, unfolded buffer_sound_def, rule_format, OF b]
    then obtain t ep qs where t: "pts s p = Some t" "pt_owns E (mem s) t ep qs" "unat (max_size t) \<le> 4096 * length qs"
      by (auto simp: table_sound_def)
    have "ep \<noteq> q" using data_page_no_table [OF h q(1) bf(1)] bf(2) t(1,2) by (auto simp: pt_owns_def)
    then have "pt_owns E (mem (page_written q ws' s)) t ep qs" using t(2) q(3) by (auto simp: pt_owns_def)
    then have "table_sound E (mem (page_written q ws' s)) t" using t(3) by (auto simp: table_sound_def)
    then show "d' = d \<and> (\<exists>t. pts s p = Some t \<and> table_sound E (mem (page_written q ws' s)) t) \<and>
      files s fp = Some \<lparr>private_data = PrivBuff b, f_count = refs s c b fp\<rparr> \<and> 0 < refs s c b fp \<and> (\<not> dead \<longrightarrow> listed s c b)"
      using snd t(1) by blast
  qed
  moreover have "kmem_ok (mem (page_written q ws' s))" using heap_below(1) [OF h] q(2,3) by (auto simp: kmem_ok_def)
  ultimately show ?thesis using h by (simp add: heap_inv_def written_sound)
qed

lemma written_device: "slots_ok d (page_written q ws s) = slots_ok d s" "counted d (page_written q ws s) l = counted d s l"
  by (simp_all add: slots_ok_def counted_def tasks_of_def task_key_def)

lemma sys_page_written:
  assumes inv: "sys_inv E w dv s" and q: "data_page s q" "page_mem (mem s) q = Some ws" "length ws' = 1024"
  shows "sys_inv E w dv (page_written q ws' s)"
proof (rule sys_inv_heap [OF inv])
  show "heap_inv E (wt_dev w) (page_written q ws' s)"
    by (rule heap_page_written [OF _ q]) (use inv in \<open>simp add: sys_inv_def\<close>)
  show "slots_ok (wt_dev w) (page_written q ws' s)" "counted (wt_dev w) (page_written q ws' s) (live w dv)"
    using inv by (simp_all add: sys_inv_def dev_inv_def base_inv_def written_device)
qed (use inv in \<open>simp_all add: sys_inv_def dev_inv_def base_inv_def written_sound buffer_pages_def\<close>)

lemma written_pages_owned:
  assumes "pages_owned s" "data_page s q" "page_mem (mem s) q = Some ws"
  shows "pages_owned (page_written q ws' s)"
  by (rule pages_owned_mono [OF assms(1)]) (use assms(3) in \<open>auto simp: page_owner_def\<close>)

lemma data_page_mapped:
  assumes "heap_inv E d s" "data_page s q"
  obtains ws where "page_mem (mem s) q = Some ws" "length ws = 1024"
proof -
  obtain x xf u where u: "buffs s x = Some xf" "pts s (buff_pt xf) = Some u" "\<exists>p \<in> set (pages u). page p = Some q"
    using assms(2) unfolding data_page_def by blast
  obtain ep qs where o: "pt_owns E (mem s) u ep qs" using table_of [OF assms(1) u(1,2)] by (auto simp: table_sound_def)
  then have "q \<in> set qs" using u(3) by (auto simp: pt_owns_def)
  then show thesis using o that unfolding pt_owns_def by blast
qed

section \<open>Files of other drivers\<close>

text \<open>
  \<open>s'\<close> is \<open>s\<close> after the descriptor \<open>fd\<close> of a file \<open>fp\<close> that is not the driver's was opened or closed.
\<close>

definition foreign :: "kstate \<Rightarrow> ptr \<Rightarrow> bool" where
  "foreign s fp \<longleftrightarrow> (\<forall>f. files s fp = Some f \<longrightarrow> private_data f \<in> {PrivNull, PrivOther})"

definition other_changed :: "int \<Rightarrow> ptr \<Rightarrow> kstate \<Rightarrow> kstate \<Rightarrow> bool" where
  "other_changed fd fp s s' \<longleftrightarrow> foreign s fp \<and> foreign s' fp \<and> (\<forall>x. x \<noteq> fp \<longrightarrow> files s' x = files s x) \<and>
     (\<forall>x. fds s x = Some fp \<longrightarrow> x = fd) \<and> (\<forall>x. x \<noteq> fd \<longrightarrow> fds s' x = fds s x) \<and>
     (fds s fd = None \<or> fds s fd = Some fp) \<and> (fds s' fd = None \<or> fds s' fd = Some fp \<and> files s' fp \<noteq> None) \<and>
     fp < next_ptr (mem s') \<and> pts s' = pts s \<and> buffs s' = buffs s \<and> ctxs s' = ctxs s \<and> devs s' = devs s \<and>
     tasks s' = tasks s \<and> cmds s' = cmds s \<and> page_mem (mem s') = page_mem (mem s) \<and>
     next_ptr (mem s) \<le> next_ptr (mem s') \<and> ptr_inv (mem s')"

lemma other_changedD:
  assumes "other_changed fd fp s s'"
  shows "pts s' = pts s" "buffs s' = buffs s" "ctxs s' = ctxs s" "devs s' = devs s" "tasks s' = tasks s" "cmds s' = cmds s"
    "buff_ids s' = buff_ids s" "ctx_ids s' = ctx_ids s" "\<And>x. x \<noteq> fp \<Longrightarrow> files s' x = files s x"
    "\<And>x. x \<noteq> fp \<Longrightarrow> x \<in> ran (fds s') \<longleftrightarrow> x \<in> ran (fds s)"
proof -
  note o = assms [unfolded other_changed_def]
  show b: "pts s' = pts s" "buffs s' = buffs s" "ctxs s' = ctxs s" "devs s' = devs s" "tasks s' = tasks s" "cmds s' = cmds s"
    using o by blast+
  show "buff_ids s' = buff_ids s" "ctx_ids s' = ctx_ids s" by (simp_all add: buff_ids_def ctx_ids_def fun_eq_iff b)
  show "files s' x = files s x" if "x \<noteq> fp" for x using o that by blast
  have f: "fds s fd = None \<or> fds s fd = Some fp" "fds s' fd = None \<or> fds s' fd = Some fp" "\<And>y. y \<noteq> fd \<Longrightarrow> fds s' y = fds s y"
    using o by blast+
  have "fds s' y = Some x \<longleftrightarrow> fds s y = Some x" if "x \<noteq> fp" for x y
    using f that by (cases "y = fd") auto
  then show "x \<in> ran (fds s') \<longleftrightarrow> x \<in> ran (fds s)" if "x \<noteq> fp" for x using that by (simp add: ran_def)
qed

lemma other_apart:
  assumes "other_changed fd fp s s'"
  shows "files s x = Some f \<Longrightarrow> private_data f \<notin> {PrivNull, PrivOther} \<Longrightarrow> x \<noteq> fp" "files s' x = Some f \<Longrightarrow> private_data f \<notin> {PrivNull, PrivOther} \<Longrightarrow> x \<noteq> fp"
  using assms unfolding other_changed_def foreign_def by blast+

lemma heap_other:
  assumes h: "heap_inv E d s" and o: "other_changed fd fp s s'"
  shows "heap_inv E d s'"
proof -
  note D = other_changedD [OF o]
  have o': "\<forall>x. fds s x = Some fp \<longrightarrow> x = fd" "\<forall>x. x \<noteq> fd \<longrightarrow> fds s' x = fds s x" "fds s' fd = None \<or> fds s' fd = Some fp \<and> files s' fp \<noteq> None"
      "fp < next_ptr (mem s')" "page_mem (mem s') = page_mem (mem s)" "next_ptr (mem s) \<le> next_ptr (mem s')" "ptr_inv (mem s')"
    using o unfolding other_changed_def by blast+
  have l: "listed s' = listed s" by (simp add: fun_eq_iff listed_def D)
  then have r: "refs s' c b x = refs s c b x" if "x \<noteq> fp" for c b x using that D(10) by (simp add: refs_def)
  have "buffer_sound E d s' b" for b
  proof -
    have b: "buffer_sound E d s b" by (rule heap_invD [OF h])
    then have "g \<noteq> fp" if "buff_ids s b = Some (p, d', c', g, dead)" for p d' c' g dead
      using that other_apart(1) [OF o] by (fastforce simp: buffer_sound_def)
    then show ?thesis using b unfolding buffer_sound_def table_sound_def D l pt_owns_cong [OF o'(5)] by (auto simp: r D)
  qed
  moreover have "unshared s'"
  proof -
    have "x = y" if "fds s' x = Some g" "fds s' y = Some g" for x y g
    proof -
      have "fds s x = Some g \<and> fds s y = Some g \<or> x = y" using that o'(1-3) by (cases "x = fd"; cases "y = fd") auto
      then show ?thesis using heap_invD(5) [OF h] unfolding unshared_def by blast
    qed
    moreover have "x = y" if "files s' x = Some f" "files s' y = Some f'" "private_data f = PrivCtx c" "private_data f' = PrivCtx c" for x y f f' c
    proof -
      have "x \<noteq> fp" "y \<noteq> fp" using that other_apart(2) [OF o] by auto
      then have "files s x = Some f" "files s y = Some f'" using that(1,2) D(9) by simp_all
      then show ?thesis using that(3,4) heap_invD(5) [OF h] unfolding unshared_def by blast
    qed
    ultimately show ?thesis unfolding unshared_def by blast
  qed
  moreover have "apart s' b b'" for b b' using heap_invD(2) [OF h, of b b'] unfolding apart_def D by simp
  moreover have "context_sound d s' x" for x using heap_invD(3) [OF h, of x] unfolding context_sound_def D by simp
  moreover have "fd_sound s' x" for x
    unfolding fd_sound_alt D
  proof (intro allI impI)
    fix g assume g: "fds s' x = Some g"
    show "\<exists>f. files s' g = Some f \<and> (\<forall>b. private_data f = PrivBuff b \<longrightarrow> (\<exists>p d c dead. buff_ids s b = Some (p, d, c, g, dead))) \<and>
        (\<forall>c. private_data f = PrivCtx c \<longrightarrow> ctx_ids s c \<noteq> None)"
    proof (cases "g = fp")
      case True
      then obtain f where f: "files s' g = Some f" using g o'(1-3) by (cases "x = fd") auto
      then have "private_data f \<in> {PrivNull, PrivOther}" using o True unfolding other_changed_def foreign_def by blast
      then show ?thesis using f by auto
    next
      case False
      then have "fds s x = Some g" using g o'(2,3) by (cases "x = fd") auto
      then show ?thesis using heap_invD(4) [OF h, of x] D(9) [OF False] unfolding fd_sound_alt by simp
    qed
  qed
  moreover have "below s'"
  proof -
    have "c < next_ptr (mem s')" if f: "files s' x = Some f" "private_data f = PrivCtx c" for x f c
    proof -
      have "x \<noteq> fp" using f other_apart(2) [OF o] by auto
      then have "files s x = Some f" using f(1) D(9) by simp
      then show ?thesis using below_ctx(2) [OF h _ f(2)] o'(6) by (meson less_le_trans)
    qed
    moreover have "c < next_ptr (mem s')" if "buff_ids s b = Some (p, d', c, g, dead)" for b p d' c g dead
      using below_ctx(1) [OF h that] o'(6) by (rule less_le_trans)
    ultimately have "ctxs_below s' (next_ptr (mem s'))" unfolding ctxs_below_def D by blast
    moreover have "dom (files s') \<subseteq> {..<next_ptr (mem s')}"
    proof
      fix x assume x: "x \<in> dom (files s')"
      show "x \<in> {..<next_ptr (mem s')}"
      proof (cases "x = fp")
        case False
        then have "x \<in> dom (files s)" using x D(9) by (simp add: domIff)
        then have "x < next_ptr (mem s)" using heap_below(8) [OF h] by blast
        then show ?thesis using o'(6) by simp
      qed (use o'(4) in simp)
    qed
    ultimately show ?thesis using heap_below [OF h] o'(6) unfolding below_def Let_def D by (auto intro: less_le_trans)
  qed
  moreover have "kmem_ok (mem s')" by (rule kmem_ok_more [OF heap_below(1) [OF h] o'(5,6)])
  ultimately show ?thesis using o'(7) by (simp add: heap_inv_def)
qed

lemma sys_other:
  assumes inv: "sys_inv E w dv s" and o: "other_changed fd fp s s'"
  shows "sys_inv E w dv s'"
proof (rule sys_inv_heap [OF inv])
  note D = other_changedD [OF o]
  have h: "heap_inv E (wt_dev w) s" and i: "devs s (wt_dev w) = Some dv" "slots_ok (wt_dev w) s" "counted (wt_dev w) s (live w dv)"
    using inv by (simp_all add: sys_inv_def dev_inv_def base_inv_def)
  show "heap_inv E (wt_dev w) s'" by (rule heap_other [OF h o])
  show "devs s' (wt_dev w) = Some dv" "tasks s' = tasks s" "cmds s' = cmds s" by (simp_all add: D i(1))
  show "slots_ok (wt_dev w) s'" using i(2) by (simp add: slots_ok_def D)
  show "counted (wt_dev w) s' (live w dv)" using i(3) by (simp add: counted_def tasks_of_def task_key_def D)
  show "of_ctx s' c b \<and> buffer_pages s' b = buffer_pages s b" if "of_ctx s c b" for c b
    using that by (simp add: of_ctx_def listed_def buffer_pages_def D)
qed (use inv in \<open>simp_all add: sys_inv_def dev_inv_def base_inv_def\<close>)

lemma other_frame:
  assumes o: "other_changed fd fp s s'"
  shows "all_listed s' = all_listed s" "pages_owned s' = pages_owned s" "closing_ok s x c \<Longrightarrow> closing_ok s' x c" "ctx_held s cl \<Longrightarrow> ctx_held s' cl"
proof -
  note D = other_changedD [OF o]
  have "listed s' = listed s" by (simp add: fun_eq_iff listed_def D)
  then show "all_listed s' = all_listed s" by (simp add: all_listed_def D)
  have "page_mem (mem s') = page_mem (mem s)" using o unfolding other_changed_def by blast
  then show "pages_owned s' = pages_owned s" by (rule pages_owned_cong) (simp_all add: D)
  show "closing_ok s' x c" if c: "closing_ok s x c"
  proof -
    obtain f where "files s x = Some f" "private_data f = PrivCtx c" using c by (auto simp: closing_ok_def)
    then have "x \<noteq> fp" using other_apart(1) [OF o, of x f] by simp
    then show ?thesis using c by (simp add: closing_ok_def D)
  qed
  show "ctx_held s' cl" if "ctx_held s cl"
  proof (rule ctx_held_mono [OF that])
    fix x g y assume x: "files s x = Some g" "private_data g = PrivCtx y"
    then have "x \<noteq> fp" using other_apart(1) [OF o, of x g] by simp
    then show "files s' x = Some g" "x \<in> ran (fds s) \<or> (x, y) \<in> set cl \<Longrightarrow> x \<in> ran (fds s') \<or> (x, y) \<in> set cl" using x(1) by (simp_all add: D)
  qed (simp add: D)
qed

text \<open>What the kernel does to open and close such a file.\<close>

definition other_open :: "env \<Rightarrow> int \<Rightarrow> kstate \<Rightarrow> (errno + int) \<times> kstate" where
  "other_open E fd s = (case kmalloc E s of
     (None, s) \<Rightarrow> (Inl ENOMEM, s)
   | (Some fp, s) \<Rightarrow> (Inr fd, s\<lparr>files := (files s)(fp \<mapsto> \<lparr>private_data = PrivOther, f_count = 1\<rparr>), fds := (fds s)(fd \<mapsto> fp)\<rparr>))"

definition other_close :: "int \<Rightarrow> ptr \<Rightarrow> kstate \<Rightarrow> kstate" where
  "other_close fd fp s = s\<lparr>files := (files s)(fp := None), fds := (fds s)(fd := None)\<rparr>"

lemma other_open_run:
  assumes inv: "sys_inv E w dv s" and fd: "fds s fd = None" and r: "other_open E fd s = (r, s')"
  shows "(same_heap s s' \<and> sys_inv E w dv s') \<or> other_changed fd (next_ptr (mem s)) s s'"
proof -
  have h: "heap_inv E (wt_dev w) s" and bd: "bounded E" using inv by (simp_all add: sys_inv_def)
  let ?fp = "next_ptr (mem s)"
  have fresh: "files s ?fp = None" using fresh_None [OF heap_below(8) [OF h], of ?fp] by simp
  then have un: "fds s x \<noteq> Some ?fp" for x using heap_invD(4) [OF h, of x] unfolding fd_sound_alt by auto
  obtain p s1 where k: "kmalloc E s = (p, s1)" by fastforce
  have pi: "ptr_inv (mem s1)" by (rule kmalloc_ptr_inv [OF bd heap_below(2) [OF h] k])
  show ?thesis
  proof (cases p)
    case None
    then have s': "s' = s\<lparr>mem := mem s1\<rparr>" "page_mem (mem s1) = page_mem (mem s)" "next_ptr (mem s1) = next_ptr (mem s)"
      using k r by (auto simp: other_open_def kmalloc_def alloc_def split: if_splits)
    then show ?thesis using sys_mem [OF inv s'(2) _ pi] by (simp add: same_heap_def buff_ids_def ctx_ids_def fun_eq_iff)
  next
    case (Some x)
    then have s': "s' = s\<lparr>mem := mem s1, files := (files s)(?fp \<mapsto> \<lparr>private_data = PrivOther, f_count = 1\<rparr>), fds := (fds s)(fd \<mapsto> ?fp)\<rparr>"
        "page_mem (mem s1) = page_mem (mem s)" "next_ptr (mem s1) = Suc ?fp"
      using k r by (auto simp: other_open_def kmalloc_def alloc_def split: if_splits)
    then show ?thesis using pi fresh un fd by (simp add: other_changed_def foreign_def)
  qed
qed

lemma other_close_run:
  assumes h: "heap_inv E d s" and f: "fds s fd = Some fp" "files s fp = Some f" "private_data f \<in> {PrivNull, PrivOther}"
  shows "other_changed fd fp s (other_close fd fp s)"
proof -
  have n: "fp < next_ptr (mem s)" using heap_below(8) [OF h] f(2) by blast
  have u: "\<forall>x. fds s x = Some fp \<longrightarrow> x = fd" using heap_invD(5) [OF h] f(1) unfolding unshared_def by blast
  have o: "foreign s fp" "foreign (other_close fd fp s) fp" using f(2,3) by (simp_all add: foreign_def other_close_def)
  have "ptr_inv (mem s)" by (rule heap_below(2) [OF h])
  with n o f(1) show ?thesis unfolding other_changed_def by (intro conjI u) (simp_all add: other_close_def)
qed

end
