(* ===== verification/Dicedev_System.thy ===== *)
theory Dicedev_System
  imports Dicedev_Memory
begin

text \<open>
  The driver as a whole, from the probe of a device on: system calls of user programs,
  interrupts, iterations of the worker thread, and sleep, in any order. The invariant holds in
  every state that can be reached, and the faults that can happen are the ones listed here.
\<close>

section \<open>Events\<close>

text \<open>
  The device of \<open>pdev\<close>, its worker thread, and the files whose release waits for the tasks of
  their context.
\<close>

record system =
  drv :: driver
  pdev :: pci_dev
  thread :: wt_state
  closing :: "(ptr \<times> ptr) list"

abbreviation kern :: "system \<Rightarrow> kstate" where
  "kern \<sigma> \<equiv> ks (drv \<sigma>)"

definition with_kern :: "kstate \<Rightarrow> system \<Rightarrow> system" where
  "with_kern s \<sigma> = \<sigma>\<lparr>drv := (drv \<sigma>)\<lparr>ks := s\<rparr>\<rparr>"

lemma with_kern_sel [simp]:
  "kern (with_kern s \<sigma>) = s" "thread (with_kern s \<sigma>) = thread \<sigma>" "closing (with_kern s \<sigma>) = closing \<sigma>" "pdev (with_kern s \<sigma>) = pdev \<sigma>"
  "drvdata (drv (with_kern s \<sigma>)) = drvdata (drv \<sigma>)"
  by (simp_all add: with_kern_def)

lemma with_kern_idem [simp]: "with_kern (kern \<sigma>) \<sigma> = \<sigma>"
  by (simp add: with_kern_def)

text \<open>
  The arguments are what the kernel and the user program decide: the descriptor that
  \<open>get_unused_fd_flags\<close> finds, and the user memory that a call can read. \<open>Load\<close> and \<open>Store\<close> are accesses of the
  program to word \<open>i\<close> of the mapping of a buffer, \<open>LoadByte\<close> and \<open>StoreByte\<close> to its byte \<open>i\<close>, \<open>Device\<close> writes of the device to page \<open>i\<close> of
  a buffer that is bound to a slot, and \<open>OpenOther\<close> gives the program a file of another driver.
\<close>

datatype event =
    Worker
  | Interrupt
  | Suspend
  | Resume
  | Open int
  | Close int
  | Continue ptr ptr
  | Ioctl int "errno + int" u32 user_arg "dicedev_ioctl_seed option"
  | Write int "(nat \<Rightarrow> u32) option" u64
  | Read int bool u64
  | Mmap int
  | Load int nat
  | Store int nat u32
  | LoadByte int nat
  | StoreByte int nat u8
  | Device ptr nat "u32 list"
  | OpenOther int

datatype answer = SigBus | Done | Blocked | Failed errno | Value int | Result "dice option"

definition EBADF :: errno where "EBADF = Errno 9"
definition ENODEV :: errno where "ENODEV = Errno 19"

fun released :: "ptr \<Rightarrow> ptr \<Rightarrow> unit outcome \<Rightarrow> system \<Rightarrow> (answer \<times> system) result" where
  "released fp c (Block s) \<sigma> = Inr (Blocked, (with_kern s \<sigma>)\<lparr>closing := (fp, c) # closing \<sigma>\<rparr>)"
| "released fp c (Return r s) \<sigma> = Inr (Done, with_kern (s\<lparr>files := (files s)(fp := None)\<rparr>) \<sigma>)"

definition on_fd :: "int \<Rightarrow> (ptr \<Rightarrow> private_data \<Rightarrow> (answer \<times> system) result) \<Rightarrow> system \<Rightarrow> (answer \<times> system) result" where
  "on_fd fd k \<sigma> = (case fds (kern \<sigma>) fd of None \<Rightarrow> Inr (Failed EBADF, \<sigma>)
     | Some fp \<Rightarrow> bindR (deref (files (kern \<sigma>)) fp) (\<lambda>f. k fp (private_data f)))"

fun answered :: "system \<Rightarrow> ('a \<Rightarrow> answer) \<Rightarrow> 'a outcome \<Rightarrow> (answer \<times> system) result" where
  "answered \<sigma> f (Block s) = Inr (Blocked, with_kern s \<sigma>)"
| "answered \<sigma> f (Return r s) = Inr (case r of Inl e \<Rightarrow> Failed e | Inr x \<Rightarrow> f x, with_kern s \<sigma>)"

text \<open>
  An access to page \<open>i\<close> of the mapping of \<open>b\<close>. The page fault handler of the driver decides which page
  it reaches, or that the program gets a \<open>SIGBUS\<close>.
\<close>

definition touch :: "ptr \<Rightarrow> nat \<Rightarrow> (ptr \<Rightarrow> u32 list \<Rightarrow> (answer \<times> system) result) \<Rightarrow> system \<Rightarrow> (answer \<times> system) result" where
  "touch b i k \<sigma> = bindR (dicedev_buffer_vm_fault b i (kern \<sigma>)) (\<lambda>r. case r of
     None \<Rightarrow> Inr (SigBus, \<sigma>)
   | Some q \<Rightarrow> bindR (deref (page_mem (mem (kern \<sigma>))) q) (k q))"

definition on_buffer :: "int \<Rightarrow> (ptr \<Rightarrow> (answer \<times> system) result) \<Rightarrow> system \<Rightarrow> (answer \<times> system) result" where
  "on_buffer fd k \<sigma> = on_fd fd (\<lambda>fp p. case p of PrivBuff b \<Rightarrow> k b | _ \<Rightarrow> Inr (Failed EINVAL, \<sigma>)) \<sigma>"

text \<open>The bytes of a word, the lowest first.\<close>

definition get_byte :: "nat \<Rightarrow> u32 \<Rightarrow> u8" where
  "get_byte k w = ucast (drop_bit (8 * k) w)"

definition put_byte :: "nat \<Rightarrow> u8 \<Rightarrow> u32 \<Rightarrow> u32" where
  "put_byte k v w = (w AND NOT (push_bit (8 * k) (mask 8))) OR push_bit (8 * k) (ucast v)"

lemma get_put_byte:
  assumes "k < 4" "j < 4"
  shows "get_byte j (put_byte k v w) = (if j = k then v else get_byte j w)"
proof -
  have "k \<in> {0, 1, 2, 3}" "j \<in> {0, 1, 2, 3}" using assms by auto
  then show ?thesis
    by (intro bit_word_eqI) (auto simp: get_byte_def put_byte_def bit_simps dest: bit_imp_le_length)
qed

fun handle :: "env \<Rightarrow> event \<Rightarrow> system \<Rightarrow> (answer \<times> system) result" where
  "handle E Worker \<sigma> = bindR (wt_fn_step E (thread \<sigma>) (kern \<sigma>)) (\<lambda>(w, s). Inr (Done, (with_kern s \<sigma>)\<lparr>thread := w\<rparr>))"
| "handle E Interrupt \<sigma> = bindR (dicedev_isr E (wt_dev (thread \<sigma>)) (kern \<sigma>)) (\<lambda>(_, s). Inr (Done, with_kern s \<sigma>))"
| "handle E Suspend \<sigma> = bindR (dicedev_suspend (pdev \<sigma>) (drv \<sigma>)) (\<lambda>D. Inr (Done, \<sigma>\<lparr>drv := D\<rparr>))"
| "handle E Resume \<sigma> = bindR (dicedev_resume (pdev \<sigma>) (drv \<sigma>)) (\<lambda>D. Inr (Done, \<sigma>\<lparr>drv := D\<rparr>))"
| "handle E (Open fd) \<sigma> = bindR (returns (vfs_open E (wt_dev (thread \<sigma>)) fd (kern \<sigma>))) (answered \<sigma> Value)"
| "handle E (Close fd) \<sigma> = on_fd fd (\<lambda>fp p. let s = (kern \<sigma>)\<lparr>fds := (fds (kern \<sigma>))(fd := None)\<rparr> in case p of
     PrivBuff b \<Rightarrow> bindR (fput E fp s) (\<lambda>s. Inr (Done, with_kern s \<sigma>))
   | PrivCtx c \<Rightarrow> bindR (dicedev_release E fp s) (\<lambda>r. released fp c r \<sigma>)
   | _ \<Rightarrow> Inr (Done, with_kern (other_close fd fp (kern \<sigma>)) \<sigma>)) \<sigma>"
| "handle E (Continue fp c) \<sigma> = bindR (dicedev_release_wait E c (kern \<sigma>)) (\<lambda>r.
     released fp c r (\<sigma>\<lparr>closing := remove1 (fp, c) (closing \<sigma>)\<rparr>))"
| "handle E (Ioctl fd newfd cmd arg sd) \<sigma> = on_fd fd (\<lambda>fp p. case p of
     PrivCtx c \<Rightarrow> bindR (dicedev_ioctl E newfd fp cmd arg (kern \<sigma>)) (answered \<sigma> Value)
   | PrivBuff b \<Rightarrow> bindR (returns (dicedev_buffer_ioctl fp cmd sd (kern \<sigma>))) (answered \<sigma> (\<lambda>_. Value 0))
   | _ \<Rightarrow> Inr (Failed ENOTTY, \<sigma>)) \<sigma>"
| "handle E (Write fd ubuf count) \<sigma> = on_fd fd (\<lambda>fp p. case p of
     PrivBuff b \<Rightarrow> bindR (returns (dicedev_buffer_write E fp ubuf count (kern \<sigma>))) (answered \<sigma> (\<lambda>n. Value (uint n)))
   | _ \<Rightarrow> Inr (Failed EINVAL, \<sigma>)) \<sigma>"
| "handle E (Read fd copied count) \<sigma> = on_fd fd (\<lambda>fp p. case p of
     PrivBuff b \<Rightarrow> bindR (dicedev_buffer_read fp copied count (kern \<sigma>)) (answered \<sigma> Result)
   | _ \<Rightarrow> Inr (Failed EINVAL, \<sigma>)) \<sigma>"
| "handle E (Mmap fd) \<sigma> = on_fd fd (\<lambda>fp p. case p of
     PrivBuff b \<Rightarrow> bindR (returns (dicedev_buffer_mmap fp (kern \<sigma>))) (answered \<sigma> (\<lambda>_. Done))
   | _ \<Rightarrow> Inr (Failed ENODEV, \<sigma>)) \<sigma>"
| "handle E (Load fd i) \<sigma> = on_buffer fd (\<lambda>b. touch b (i div 1024) (\<lambda>q ws. Inr (Value (uint (ws ! (i mod 1024))), \<sigma>)) \<sigma>) \<sigma>"
| "handle E (Store fd i v) \<sigma> = on_buffer fd (\<lambda>b. touch b (i div 1024) (\<lambda>q ws.
     Inr (Done, with_kern (page_written q (ws[i mod 1024 := v]) (kern \<sigma>)) \<sigma>)) \<sigma>) \<sigma>"
| "handle E (LoadByte fd i) \<sigma> = on_buffer fd (\<lambda>b. touch b (i div 4096) (\<lambda>q ws.
     Inr (Value (uint (get_byte (i mod 4) (ws ! (i div 4 mod 1024)))), \<sigma>)) \<sigma>) \<sigma>"
| "handle E (StoreByte fd i v) \<sigma> = on_buffer fd (\<lambda>b. touch b (i div 4096) (\<lambda>q ws. let j = i div 4 mod 1024 in
     Inr (Done, with_kern (page_written q (ws[j := put_byte (i mod 4) v (ws ! j)]) (kern \<sigma>)) \<sigma>)) \<sigma>) \<sigma>"
| "handle E (Device b i ws) \<sigma> = touch b i (\<lambda>q _. Inr (Done, with_kern (page_written q ws (kern \<sigma>)) \<sigma>)) \<sigma>"
| "handle E (OpenOther fd) \<sigma> = (case other_open E fd (kern \<sigma>) of
     (r, s) \<Rightarrow> Inr (case r of Inl e \<Rightarrow> Failed e | Inr x \<Rightarrow> Value x, with_kern s \<sigma>))"

text \<open>
  The kernel hands out descriptors that are free, and only a release that waits is continued. The device
  writes whole pages of buffers that are bound.
\<close>

definition bound :: "ptr \<Rightarrow> kstate \<Rightarrow> bool" where
  "bound b s = (case buffs s b of None \<Rightarrow> False | Some bf \<Rightarrow> binded_slot bf \<noteq> DICEDEV_BUFFER_NO_SLOT)"

fun enabled :: "event \<Rightarrow> system \<Rightarrow> bool" where
  "enabled (Open fd) \<sigma> = (fds (kern \<sigma>) fd = None)"
| "enabled (Ioctl _ (Inr newfd) _ _ _) \<sigma> = (fds (kern \<sigma>) newfd = None)"
| "enabled (OpenOther fd) \<sigma> = (fds (kern \<sigma>) fd = None)"
| "enabled (Device b i ws) \<sigma> = (bound b (kern \<sigma>) \<and> length ws = 1024)"
| "enabled (Continue fp c) \<sigma> = ((fp, c) \<in> set (closing \<sigma>))"
| "enabled _ \<sigma> = True"

section \<open>The invariant\<close>

definition system_ok :: "env \<Rightarrow> system \<Rightarrow> bool" where
  "system_ok E \<sigma> \<longleftrightarrow> (\<exists>dv. sys_inv E (thread \<sigma>) dv (kern \<sigma>)) \<and> drvdata (drv \<sigma>) (pdev \<sigma>) = Some (wt_dev (thread \<sigma>)) \<and>
     all_listed (kern \<sigma>) \<and> pages_owned (kern \<sigma>) \<and> (\<forall>(fp, c) \<in> set (closing \<sigma>). closing_ok (kern \<sigma>) fp c) \<and>
     distinct (map snd (closing \<sigma>)) \<and> ctx_held (kern \<sigma>) (closing \<sigma>)"

lemma system_okE:
  assumes "system_ok E \<sigma>"
  obtains dv where "sys_inv E (thread \<sigma>) dv (kern \<sigma>)" "drvdata (drv \<sigma>) (pdev \<sigma>) = Some (wt_dev (thread \<sigma>))"
    "all_listed (kern \<sigma>)" "pages_owned (kern \<sigma>)" "\<forall>(fp, c) \<in> set (closing \<sigma>). closing_ok (kern \<sigma>) fp c"
    "distinct (map snd (closing \<sigma>))" "ctx_held (kern \<sigma>) (closing \<sigma>)"
  using assms unfolding system_ok_def by blast

lemma ok_same_heap:
  assumes ok: "system_ok E \<sigma>" and s: "same_heap (kern \<sigma>) s'" "sys_inv E w dv s'" "wt_dev w = wt_dev (thread \<sigma>)"
    and \<sigma>': "kern \<sigma>' = s'" "thread \<sigma>' = w" "closing \<sigma>' = closing \<sigma>" "pdev \<sigma>' = pdev \<sigma>" "drvdata (drv \<sigma>') = drvdata (drv \<sigma>)"
  shows "system_ok E \<sigma>'"
proof -
  have h: "page_mem (mem s') = page_mem (mem (kern \<sigma>))" "pts s' = pts (kern \<sigma>)" "files s' = files (kern \<sigma>)" "fds s' = fds (kern \<sigma>)"
      "buff_ids s' = buff_ids (kern \<sigma>)" "ctx_ids s' = ctx_ids (kern \<sigma>)"
    using s(1) by (simp_all add: same_heap_def)
  have "closing_ok s' fp c = closing_ok (kern \<sigma>) fp c" "ctx_held s' cl = ctx_held (kern \<sigma>) cl" for fp c cl
    by (simp_all add: closing_ok_def ctx_held_def h)
  then show ?thesis using ok s(2,3) all_listed_same [OF s(1)] pages_owned_cong [OF h(1,5,2)] unfolding system_ok_def \<sigma>' by auto
qed

section \<open>Calls that leave the heap as it is\<close>

lemma sys_advanced: "sys_inv E w dv s \<Longrightarrow> buffs s b = Some bf \<Longrightarrow> sys_inv E w dv (s\<lparr>buffs := (buffs s)(b \<mapsto> advanced bf)\<rparr>) \<and>
    same_heap s (s\<lparr>buffs := (buffs s)(b \<mapsto> advanced bf)\<rparr>)"
  by (auto intro: sys_buff simp: advanced_def same_heap_def buff_ids_def ctx_ids_def)

lemma read_result_any:
  assumes b: "buffs s b = Some bf" "pts s (buff_pt bf) = Some t" "table_sound E (mem s) t"
  shows "\<exists>r. buff_read_result b s = Inr (r, s\<lparr>buffs := (buffs s)(b \<mapsto> advanced bf)\<rparr>)"
proof (cases "unat (reader_offset (reader bf)) < 512 * num_pages t")
  case True
  note tb = table_backed [OF b]
  show ?thesis using read_result_run [OF b(1,2) tb(1,3) True] by blast
next
  case False
  then have "num_pages t \<le> unat (reader_offset (reader bf)) div 512" by (simp add: div_le_mono [of "512 * _" _ 512, simplified])
  then show ?thesis using b by (simp add: buff_read_result_def Let_def advanced_def del: bindR_eq_Inr)
qed

lemma sys_read:
  assumes inv: "sys_inv E w dv s" and f: "fds s fd = Some fp" "files s fp = Some f" "private_data f = PrivBuff b"
  shows "\<exists>r s'. (dicedev_buffer_read fp copied count s = Inr (Return r s') \<or> dicedev_buffer_read fp copied count s = Inr (Block s')) \<and>
    sys_inv E w dv s' \<and> same_heap s s'"
proof -
  note d = sys_inv_dev [OF inv]
  have h: "heap_inv E (wt_dev w) s" using inv by (simp add: sys_inv_def)
  obtain bf t where b: "buffs s b = Some bf" "buff_dev bf = wt_dev w" "pts s (buff_pt bf) = Some t" "table_sound E (mem s) t"
      "\<not> destroyed bf \<longrightarrow> of_ctx s (buff_ctx bf) b"
    using buffer_fd [OF h f] by metis
  have c: "\<exists>cx. ctxs s (buff_ctx bf) = Some cx" if "\<not> destroyed bf" using of_ctxE [OF h] b(5) that by metis
  have fb: "file_buff fp s = Inr b" using f(2,3) by (simp add: file_buff_def as_buff_def del: bindR_eq_Inr)
  let ?sl = "s\<lparr>devs := (devs s)(wt_dev w \<mapsto> dv\<lparr>slock := True\<rparr>)\<rparr>" and ?s = "s\<lparr>buffs := (buffs s)(b \<mapsto> advanced bf)\<rparr>"
  obtain r where r: "buff_read_result b ?sl = Inr (r, ?sl\<lparr>buffs := (buffs s)(b \<mapsto> advanced bf)\<rparr>)"
    using read_result_any [of ?sl b bf t E] b by auto
  have "dicedev_buffer_read fp copied count s \<in> {Inr (Return (Inl EINVAL) s), Inr (Block s), Inr (Return (Inr None) s)} \<or>
      (\<exists>r. dicedev_buffer_read fp copied count s = Inr (Return r ?s))"
  proof (cases "READS_AVAILABLE (reader bf) = 0")
    case True
    then show ?thesis using d b(1,2) c fb
      by (cases s) (auto simp: dicedev_buffer_read_def Let_def fun_upd_idem simp del: bindR_eq_Inr)
  next
    case False
    then show ?thesis using d b(1,2) fb r
      by (cases s) (auto simp: dicedev_buffer_read_def Let_def fun_upd_idem simp del: bindR_eq_Inr split: sum.splits)
  qed
  moreover have "same_heap s s" by (simp add: same_heap_def)
  ultimately show ?thesis using sys_advanced [OF inv b(1)] inv by (elim disjE exE insertE) auto
qed

lemma sys_buffer_ioctl:
  assumes inv: "sys_inv E w dv s" and f: "fds s fd = Some fp" "files s fp = Some f" "private_data f = PrivBuff b"
  shows "\<exists>r s'. dicedev_buffer_ioctl fp cmd sd s = Inr (r, s') \<and> sys_inv E w dv s' \<and> same_heap s s'"
proof -
  have h: "heap_inv E (wt_dev w) s" using inv by (simp add: sys_inv_def)
  obtain bf where b: "buffs s b = Some bf" using buffer_fd [OF h f] by metis
  let ?b = "\<lambda>x. bf\<lparr>seed_chg := True, seed := x\<rparr>" and ?s = "\<lambda>x. s\<lparr>buffs := (buffs s)(b \<mapsto> bf\<lparr>seed_chg := True, seed := x\<rparr>)\<rparr>"
  have "\<exists>r. dicedev_buffer_ioctl fp cmd sd s = Inr (r, s) \<or> (\<exists>x. dicedev_buffer_ioctl fp cmd sd s = Inr (r, ?s x))"
    using f b by (cases sd) (auto simp: dicedev_buffer_ioctl_def as_buff_def simp del: bindR_eq_Inr)
  moreover have "sys_inv E w dv (?s x)" "same_heap s (?s x)" for x
    using b by (auto intro!: sys_buff [OF inv b] simp: same_heap_def buff_ids_def ctx_ids_def)
  moreover have "same_heap s s" by (simp add: same_heap_def)
  ultimately show ?thesis using inv by blast
qed

lemma sys_dev:
  assumes inv: "sys_inv E w dv s" and s': "s' = s\<lparr>devs := (devs s)(wt_dev w \<mapsto> dv\<lparr>wt_thread := y, bar := x\<rparr>)\<rparr>"
  shows "sys_inv E w (dv\<lparr>wt_thread := y, bar := x\<rparr>) s' \<and> same_heap s s'"
proof -
  have same: "same_heap s s'" by (simp add: s' same_heap_def buff_ids_def ctx_ids_def fun_eq_iff)
  moreover have "sys_inv E w (dv\<lparr>wt_thread := y, bar := x\<rparr>) s'"
    using sys_inv_dev [OF inv] inv same
    by (intro sys_inv_frame [OF inv]) (simp_all add: s' slot_view_def sys_inv_def dev_inv_def base_inv_def heap_inv_def)
  ultimately show ?thesis by simp
qed

lemma sys_seed_increment:
  assumes inv: "sys_inv E w dv s" and c: "ctxs s c = Some cx" "ctx_dev cx = wt_dev w"
  shows "\<exists>r s' dv'. dicedev_ioctl_seed_increment c si s = Inr (r, s') \<and> sys_inv E w dv' s' \<and> same_heap s s'"
proof -
  note d = sys_inv_dev [OF inv]
  have "dicedev_ioctl_seed_increment c si s \<in> {Inr (Inl EFAULT, s), Inr (Inl EINVAL, s)} \<or>
    (\<exists>x. dicedev_ioctl_seed_increment c si s = Inr (Inr 0, s\<lparr>devs := (devs s)(wt_dev w \<mapsto> dv\<lparr>wt_thread := wt_thread dv, bar := x\<rparr>)\<rparr>))"
    using d c by (cases si) (auto simp: dicedev_ioctl_seed_increment_def dicedev_iow_def simp del: bindR_eq_Inr)
  moreover have "same_heap s s" by (simp add: same_heap_def)
  ultimately show ?thesis using inv sys_dev [OF inv refl] by (elim disjE exE insertE emptyE) blast+
qed

lemma power_run:
  assumes "drvdata D pd = Some d" "devs (ks D) d = Some dv"
  shows "\<exists>x y. dicedev_suspend pd D = Inr (D\<lparr>ks := (ks D)\<lparr>devs := (devs (ks D))(d \<mapsto> dv\<lparr>wt_thread := y, bar := x\<rparr>)\<rparr>\<rparr>)"
    "\<exists>x y. dicedev_resume pd D = Inr (D\<lparr>ks := (ks D)\<lparr>devs := (devs (ks D))(d \<mapsto> dv\<lparr>wt_thread := y, bar := x\<rparr>)\<rparr>\<rparr>)"
proof -
  let ?D = "\<lambda>x y. D\<lparr>ks := (ks D)\<lparr>devs := (devs (ks D))(d \<mapsto> dv\<lparr>wt_thread := y, bar := x\<rparr>)\<rparr>\<rparr>"
  have "dicedev_suspend pd D = Inr (?D (bar dv @ [IoWrite DICEDEV_INTR_ENABLE 0, IoWrite DICEDEV_ENABLE 0])
      ((wt_thread dv)\<lparr>should_park := True\<rparr>))"
    "dicedev_resume pd D = Inr (?D (bar dv @ [IoWrite DICEDEV_INTR_ENABLE DICEDEV_ACTIVE_INTR, IoWrite DICEDEV_ENABLE 1])
      ((wt_thread dv)\<lparr>should_park := False\<rparr>))"
    using assms by (simp_all add: dicedev_suspend_def dicedev_resume_def on_ks_def dicedev_iow_def del: bindR_eq_Inr)
  then show "\<exists>x y. dicedev_suspend pd D = Inr (?D x y)" "\<exists>x y. dicedev_resume pd D = Inr (?D x y)" by blast+
qed

lemma sys_power:
  assumes inv: "sys_inv E w dv (ks D)" and pd: "drvdata D pd = Some (wt_dev w)"
  shows "\<exists>D' dv'. dicedev_suspend pd D = Inr D' \<and> sys_inv E w dv' (ks D') \<and> same_heap (ks D) (ks D') \<and> drvdata D' = drvdata D"
    "\<exists>D' dv'. dicedev_resume pd D = Inr D' \<and> sys_inv E w dv' (ks D') \<and> same_heap (ks D) (ks D') \<and> drvdata D' = drvdata D"
  using power_run [OF pd] sys_inv_dev [OF inv] sys_dev [OF inv refl] by fastforce+

section \<open>Every event keeps the invariant\<close>

text \<open>
  The faults that remain: a run of the worker whose commands end in the middle, a fence interrupt when no
  task runs, a write that cannot copy its commands or allocate its task, and a run on descriptors
  that are not buffers of the device.
\<close>

fun known_fault :: "env \<Rightarrow> event \<Rightarrow> system \<Rightarrow> fault \<Rightarrow> bool" where
  "known_fault E Worker \<sigma> f = (f = OOB)"
| "known_fault E Interrupt \<sigma> f = (f = BUG \<and> map_option running_task (devs (kern \<sigma>) (wt_dev (thread \<sigma>))) = Some None)"
| "known_fault E (Write fd ubuf count) \<sigma> f = (f \<in> {WILD, NULL_DEREF} \<and> (ubuf = None \<or>
     \<not> alloc_ok E (clock (mem (kern \<sigma>))) \<or> \<not> alloc_ok E (Suc (clock (mem (kern \<sigma>))))))"
| "known_fault E (Ioctl fd newfd cmd arg sd) \<sigma> f = (f \<in> {WILD, NULL_DEREF} \<and> cmd = DICEDEV_IOCTL_RUN \<and>
     (\<exists>r. as_run arg = Some r \<and> \<not> run_fds_ok r (kern \<sigma>)))"
| "known_fault E _ \<sigma> f = False"

definition fine :: "env \<Rightarrow> event \<Rightarrow> system \<Rightarrow> (answer \<times> system) result \<Rightarrow> bool" where
  "fine E ev \<sigma> m \<longleftrightarrow> (case m of Inl f \<Rightarrow> known_fault E ev \<sigma> f | Inr (_, \<sigma>') \<Rightarrow> system_ok E \<sigma>')"

lemma fine_simps [simp]: "fine E ev \<sigma> (Inl f) = known_fault E ev \<sigma> f" "fine E ev \<sigma> (Inr (a, \<sigma>')) = system_ok E \<sigma>'"
  by (simp_all add: fine_def)

lemma ok_heap: "system_ok E \<sigma> \<Longrightarrow> heap_inv E (wt_dev (thread \<sigma>)) (kern \<sigma>)"
  by (auto simp: system_ok_def sys_inv_def)

lemma fine_on_fd:
  assumes "system_ok E \<sigma>" "\<And>fp f. fds (kern \<sigma>) fd = Some fp \<Longrightarrow> files (kern \<sigma>) fp = Some f \<Longrightarrow> fine E ev \<sigma> (k fp (private_data f))"
  shows "fine E ev \<sigma> (on_fd fd k \<sigma>)"
proof (cases "fds (kern \<sigma>) fd")
  case (Some fp)
  then obtain f where "files (kern \<sigma>) fp = Some f" using heap_invD(4) [OF ok_heap [OF assms(1)]] unfolding fd_sound_alt by blast
  then show ?thesis using assms(2) Some by (simp add: on_fd_def)
qed (use assms(1) in \<open>simp add: on_fd_def\<close>)

lemma ok_with_kern:
  assumes "system_ok E \<sigma>" "same_heap (kern \<sigma>) s'" "sys_inv E (thread \<sigma>) dv s'"
  shows "system_ok E (with_kern s' \<sigma>)"
  by (rule ok_same_heap [OF assms]) simp_all

lemma fine_answered:
  assumes "system_ok E \<sigma>" "m = Inr (Return r s') \<or> m = Inr (Block s')" "sys_inv E (thread \<sigma>) dv s'" "same_heap (kern \<sigma>) s'"
  shows "fine E ev \<sigma> (bindR m (answered \<sigma> g))"
  using ok_with_kern [OF assms(1,4,3)] assms(2) by auto

lemma fine_returns:
  assumes "system_ok E \<sigma>" "m = Inr (r, s')" "sys_inv E (thread \<sigma>) dv s'" "same_heap (kern \<sigma>) s'"
  shows "fine E ev \<sigma> (bindR (returns m) (answered \<sigma> g))"
  using ok_with_kern [OF assms(1,4,3)] assms(2) by (auto simp: returns_def)

lemma fine_worker:
  assumes "system_ok E \<sigma>"
  shows "fine E Worker \<sigma> (handle E Worker \<sigma>)"
proof -
  obtain dv where i: "sys_inv E (thread \<sigma>) dv (kern \<sigma>)" using system_okE [OF assms] by metis
  consider "wt_fn_step E (thread \<sigma>) (kern \<sigma>) = Inl OOB" | w' s' dv' where "wt_fn_step E (thread \<sigma>) (kern \<sigma>) = Inr (w', s')"
      "wt_dev w' = wt_dev (thread \<sigma>)" "sys_inv E w' dv' s'" "same_heap (kern \<sigma>) s'"
    using sys_worker [OF i] same_rest_heap by blast
  then show ?thesis
  proof cases
    case 2
    have "system_ok E ((with_kern s' \<sigma>)\<lparr>thread := w'\<rparr>)" by (rule ok_same_heap [OF assms 2(4,3,2)]) (simp_all add: with_kern_def)
    then show ?thesis by (simp add: 2(1))
  qed simp
qed

lemma fine_interrupt:
  assumes "system_ok E \<sigma>"
  shows "fine E Interrupt \<sigma> (handle E Interrupt \<sigma>)"
proof -
  obtain dv where i: "sys_inv E (thread \<sigma>) dv (kern \<sigma>)" using system_okE [OF assms] by metis
  show ?thesis using sys_isr [OF i] sys_inv_dev [OF i] ok_with_kern [OF assms] by fastforce
qed

lemma fine_power:
  assumes "system_ok E \<sigma>"
  shows "fine E Suspend \<sigma> (handle E Suspend \<sigma>)" "fine E Resume \<sigma> (handle E Resume \<sigma>)"
proof -
  obtain dv where i: "sys_inv E (thread \<sigma>) dv (kern \<sigma>)" "drvdata (drv \<sigma>) (pdev \<sigma>) = Some (wt_dev (thread \<sigma>))"
    using system_okE [OF assms] by metis
  have ok: "system_ok E (\<sigma>\<lparr>drv := D'\<rparr>)" if "sys_inv E (thread \<sigma>) dv' (ks D')" "same_heap (kern \<sigma>) (ks D')" "drvdata D' = drvdata (drv \<sigma>)" for D' dv'
    by (rule ok_same_heap [OF assms that(2,1)]) (simp_all add: that(3))
  show "fine E Suspend \<sigma> (handle E Suspend \<sigma>)" "fine E Resume \<sigma> (handle E Resume \<sigma>)"
    using sys_power [OF i] ok by fastforce+
qed

lemma ok_other:
  assumes ok: "system_ok E \<sigma>" and o: "other_changed fd fp (kern \<sigma>) s'"
  shows "system_ok E (with_kern s' \<sigma>)"
  using ok sys_other [OF _ o] other_frame [OF o] unfolding system_ok_def by auto

lemma fine_other_open:
  assumes ok: "system_ok E \<sigma>" and fd: "fds (kern \<sigma>) fd = None"
  shows "fine E (OpenOther fd) \<sigma> (handle E (OpenOther fd) \<sigma>)"
proof -
  obtain dv where i: "sys_inv E (thread \<sigma>) dv (kern \<sigma>)" using system_okE [OF ok] by metis
  obtain r s' where r: "other_open E fd (kern \<sigma>) = (r, s')" by fastforce
  have "system_ok E (with_kern s' \<sigma>)" using other_open_run [OF i fd r] ok_with_kern [OF ok] ok_other [OF ok] by blast
  then show ?thesis by (simp add: r)
qed

text \<open>Accesses to memory.\<close>

lemma fine_touch:
  assumes ok: "system_ok E \<sigma>" and b: "buffs (kern \<sigma>) b = Some bf"
    and k: "\<And>q ws. data_page (kern \<sigma>) q \<Longrightarrow> page_mem (mem (kern \<sigma>)) q = Some ws \<Longrightarrow> length ws = 1024 \<Longrightarrow> fine E ev \<sigma> (k q ws)"
  shows "fine E ev \<sigma> (touch b i k \<sigma>)"
proof -
  note h = ok_heap [OF ok]
  obtain t where t: "pts (kern \<sigma>) (buff_pt bf) = Some t" "table_sound E (mem (kern \<sigma>)) t"
    using heap_invD(1) [OF h, of b] b by (auto simp: buffer_sound_def buff_ids_def)
  obtain ep qs where o: "pages t = map (mk_page E) qs" "num_pages t = length qs" using t(2) by (auto simp: table_sound_def pt_owns_def)
  show ?thesis
  proof (cases "i < length qs")
    case True
    then have f: "dicedev_buffer_vm_fault b i (kern \<sigma>) = Inr (Some (qs ! i))" using b t(1) o by (simp add: dicedev_buffer_vm_fault_def)
    note q = fault_data_page [OF f]
    obtain ws where ws: "page_mem (mem (kern \<sigma>)) (qs ! i) = Some ws" "length ws = 1024" using data_page_mapped [OF h q] by blast
    show ?thesis using k [OF q ws] f ws(1) by (simp add: touch_def)
  next
    case False
    then show ?thesis using b t(1) o ok by (simp add: touch_def dicedev_buffer_vm_fault_def)
  qed
qed

lemma ok_page_written:
  assumes ok: "system_ok E \<sigma>" and q: "data_page (kern \<sigma>) q" "page_mem (mem (kern \<sigma>)) q = Some ws" "length ws' = 1024"
  shows "system_ok E (with_kern (page_written q ws' (kern \<sigma>)) \<sigma>)"
  using ok sys_page_written [OF _ q] written_pages_owned [OF _ q(1,2)] unfolding system_ok_def by (auto simp: written_sound)

lemma fine_device:
  assumes ok: "system_ok E \<sigma>" and en: "enabled (Device b i ws) \<sigma>"
  shows "fine E (Device b i ws) \<sigma> (handle E (Device b i ws) \<sigma>)"
proof -
  obtain bf where b: "buffs (kern \<sigma>) b = Some bf" using en by (auto simp: bound_def split: option.splits)
  show ?thesis using fine_touch [OF ok b] ok_page_written [OF ok] en by simp
qed

lemma fine_on_buffer:
  assumes ok: "system_ok E \<sigma>"
    and k: "\<And>b bf fp f. buffs (kern \<sigma>) b = Some bf \<Longrightarrow> fds (kern \<sigma>) fd = Some fp \<Longrightarrow> files (kern \<sigma>) fp = Some f \<Longrightarrow>
      private_data f = PrivBuff b \<Longrightarrow> fine E ev \<sigma> (k b)"
  shows "fine E ev \<sigma> (on_buffer fd k \<sigma>)"
  unfolding on_buffer_def
proof (rule fine_on_fd [OF ok])
  fix fp f assume f: "fds (kern \<sigma>) fd = Some fp" "files (kern \<sigma>) fp = Some f"
  have "fine E ev \<sigma> (k b)" if "private_data f = PrivBuff b" for b
    using buffer_fd [OF ok_heap [OF ok] f that] k [OF _ f that] by metis
  then show "fine E ev \<sigma> (case private_data f of PrivBuff b \<Rightarrow> k b | _ \<Rightarrow> Inr (Failed EINVAL, \<sigma>))"
    using ok by (simp split: private_data.split)
qed

lemma fine_mapped:
  assumes ok: "system_ok E \<sigma>"
  shows "fine E (Load fd i) \<sigma> (handle E (Load fd i) \<sigma>)" "fine E (Store fd i v) \<sigma> (handle E (Store fd i v) \<sigma>)"
    "fine E (LoadByte fd i) \<sigma> (handle E (LoadByte fd i) \<sigma>)" "fine E (StoreByte fd i x) \<sigma> (handle E (StoreByte fd i x) \<sigma>)"
  unfolding handle.simps Let_def by (rule fine_on_buffer [OF ok], erule fine_touch [OF ok], use ok ok_page_written [OF ok] in simp)+

lemma fine_buffer_calls:
  assumes ok: "system_ok E \<sigma>" and f: "fds (kern \<sigma>) fd = Some fp" "files (kern \<sigma>) fp = Some f" "private_data f = PrivBuff b"
  shows "fine E ev \<sigma> (bindR (dicedev_buffer_read fp copied count (kern \<sigma>)) (answered \<sigma> g1))"
    "fine E ev \<sigma> (bindR (returns (dicedev_buffer_ioctl fp cmd sd (kern \<sigma>))) (answered \<sigma> g2))"
    "fine E (Write fd ubuf count) \<sigma> (bindR (returns (dicedev_buffer_write E fp ubuf count (kern \<sigma>))) (answered \<sigma> g3))"
proof -
  obtain dv where i: "sys_inv E (thread \<sigma>) dv (kern \<sigma>)" using system_okE [OF ok] by metis
  show "fine E ev \<sigma> (bindR (dicedev_buffer_read fp copied count (kern \<sigma>)) (answered \<sigma> g1))"
    using sys_read [OF i f] fine_answered [OF ok] by metis
  show "fine E ev \<sigma> (bindR (returns (dicedev_buffer_ioctl fp cmd sd (kern \<sigma>))) (answered \<sigma> g2))"
    using sys_buffer_ioctl [OF i f] fine_returns [OF ok] by metis
  show "fine E (Write fd ubuf count) \<sigma> (bindR (returns (dicedev_buffer_write E fp ubuf count (kern \<sigma>))) (answered \<sigma> g3))"
    using sys_write [OF i f, of ubuf count]
  proof (elim disjE exE conjE)
    fix r s' dv'
    assume "dicedev_buffer_write E fp ubuf count (kern \<sigma>) = Inr (r, s')" "sys_inv E (thread \<sigma>) dv' s'" "same_heap (kern \<sigma>) s'"
    then show ?thesis by (rule fine_returns [OF ok])
  qed (auto simp: returns_def)
qed

lemma fine_open:
  assumes ok: "system_ok E \<sigma>" and fd: "fds (kern \<sigma>) fd = None"
  shows "fine E (Open fd) \<sigma> (handle E (Open fd) \<sigma>)"
proof -
  obtain dv where i: "sys_inv E (thread \<sigma>) dv (kern \<sigma>)" using system_okE [OF ok] by metis
  obtain r s' where s': "vfs_open E (wt_dev (thread \<sigma>)) fd (kern \<sigma>) = Inr (r, s')" "sys_inv E (thread \<sigma>) dv s'"
      "same_heap (kern \<sigma>) s' \<or> s' = opened (wt_dev (thread \<sigma>)) fd (kern \<sigma>)"
    using sys_open [OF i fd] by blast
  from s'(3) have "system_ok E (with_kern s' \<sigma>)"
  proof
    assume "s' = opened (wt_dev (thread \<sigma>)) fd (kern \<sigma>)"
    then show ?thesis using ok s'(2) fd opened_frame(1,2,5,6) [OF ok_heap [OF ok]] unfolding system_ok_def by auto
  qed (rule ok_with_kern [OF ok _ s'(2)])
  then show ?thesis using s'(1) by (simp add: returns_def)
qed

lemma ctx_fd:
  assumes ok: "system_ok E \<sigma>" and f: "fds (kern \<sigma>) fd = Some fp" "files (kern \<sigma>) fp = Some f" "private_data f = PrivCtx c"
  shows "\<exists>cx. ctxs (kern \<sigma>) c = Some cx \<and> ctx_dev cx = wt_dev (thread \<sigma>)" "(fp', c) \<notin> set (closing \<sigma>)"
proof -
  note h = ok_heap [OF ok]
  have "ctx_ids (kern \<sigma>) c \<noteq> None" using heap_invD(4) [OF h] f unfolding fd_sound_alt by fastforce
  then show "\<exists>cx. ctxs (kern \<sigma>) c = Some cx \<and> ctx_dev cx = wt_dev (thread \<sigma>)"
    using heap_ctx(1) [OF h] by (auto simp: ctx_ids_def)
  show "(fp', c) \<notin> set (closing \<sigma>)"
  proof
    assume "(fp', c) \<in> set (closing \<sigma>)"
    then have "closing_ok (kern \<sigma>) fp' c" using ok by (auto simp: system_ok_def)
    then obtain f' where "files (kern \<sigma>) fp' = Some f'" "private_data f' = PrivCtx c" "fp' \<notin> ran (fds (kern \<sigma>))"
      by (auto simp: closing_ok_def)
    then show False using heap_invD(5) [OF h] f unfolding unshared_def by (metis ranI)
  qed
qed

lemma fine_create_set:
  assumes ok: "system_ok E \<sigma>" and f: "fds (kern \<sigma>) fd = Some fp" "files (kern \<sigma>) fp = Some f" "private_data f = PrivCtx c"
    and new: "\<And>fd. newfd = Inr fd \<Longrightarrow> fds (kern \<sigma>) fd = None"
  shows "fine E ev \<sigma> (bindR (returns (dicedev_ioctl_create_set E newfd c a (kern \<sigma>))) (answered \<sigma> g))"
proof -
  obtain dv where i: "sys_inv E (thread \<sigma>) dv (kern \<sigma>)" "all_listed (kern \<sigma>)" using system_okE [OF ok] by metis
  obtain cx where "ctxs (kern \<sigma>) c = Some cx" using ctx_fd(1) [OF ok f] by blast
  then obtain r s' where s': "dicedev_ioctl_create_set E newfd c a (kern \<sigma>) = Inr (r, s')" "sys_inv E (thread \<sigma>) dv s'" "all_listed s'"
      "\<And>fp' c'. closing_ok (kern \<sigma>) fp' c' \<Longrightarrow> c' \<noteq> c \<Longrightarrow> closing_ok s' fp' c'" "pages_owned (kern \<sigma>) \<Longrightarrow> pages_owned s'"
      "\<And>cl. ctx_held (kern \<sigma>) cl \<Longrightarrow> ctx_held s' cl"
    using sys_create_set [OF i _ new] by metis
  have "closing_ok s' fp' c'" if "(fp', c') \<in> set (closing \<sigma>)" for fp' c'
  proof (rule s'(4))
    show "closing_ok (kern \<sigma>) fp' c'" using ok that by (auto simp: system_ok_def)
    show "c' \<noteq> c" using ctx_fd(2) [OF ok f] that by blast
  qed
  then have "system_ok E (with_kern s' \<sigma>)" using ok s'(2,3,5,6) unfolding system_ok_def by auto
  then show ?thesis using s'(1) by (simp add: returns_def)
qed

lemma fine_run:
  assumes ok: "system_ok E \<sigma>" and f: "fds (kern \<sigma>) fd = Some fp" "files (kern \<sigma>) fp = Some f" "private_data f = PrivCtx c"
    and cmd: "cmd = DICEDEV_IOCTL_RUN"
  shows "fine E (Ioctl fd newfd cmd arg sd) \<sigma> (bindR (returns (dicedev_ioctl_run E c (as_run arg) (kern \<sigma>))) (answered \<sigma> g))"
proof -
  obtain dv where i: "sys_inv E (thread \<sigma>) dv (kern \<sigma>)" "all_listed (kern \<sigma>)" using system_okE [OF ok] by metis
  obtain cx where c: "ctxs (kern \<sigma>) c = Some cx" using ctx_fd(1) [OF ok f] by blast
  have same: "same_heap (kern \<sigma>) (kern \<sigma>)" by (simp add: same_heap_def)
  show ?thesis
  proof (cases "as_run arg")
    case None
    then show ?thesis using ok_with_kern [OF ok same i(1)] by (simp add: dicedev_ioctl_run_def returns_def)
  next
    case (Some r)
    show ?thesis
    proof (cases "run_fds_ok r (kern \<sigma>)")
      case True
      then show ?thesis using sys_run [OF i c True] fine_returns [OF ok] Some by metis
    next
      case False
      then show ?thesis using run_bad_fds [OF ok_heap [OF ok] False, of c] ok_with_kern [OF ok same i(1)] Some cmd
        by (auto simp: returns_def)
    qed
  qed
qed

lemma fine_ctx_ioctl:
  assumes ok: "system_ok E \<sigma>" and f: "fds (kern \<sigma>) fd = Some fp" "files (kern \<sigma>) fp = Some f" "private_data f = PrivCtx c"
    and new: "\<And>fd. newfd = Inr fd \<Longrightarrow> fds (kern \<sigma>) fd = None"
  shows "fine E (Ioctl fd newfd cmd arg sd) \<sigma> (bindR (dicedev_ioctl E newfd fp cmd arg (kern \<sigma>)) (answered \<sigma> g))"
proof -
  obtain dv where i: "sys_inv E (thread \<sigma>) dv (kern \<sigma>)" using system_okE [OF ok] by metis
  obtain cx where c: "ctxs (kern \<sigma>) c = Some cx" "ctx_dev cx = wt_dev (thread \<sigma>)" using ctx_fd(1) [OF ok f] by blast
  have "same_heap (kern \<sigma>) (kern \<sigma>)" by (simp add: same_heap_def)
  note same = ok_with_kern [OF ok this i]
  have w: "fine E ev \<sigma> (bindR (dicedev_ioctl_wait c (as_wait arg) (kern \<sigma>)) (answered \<sigma> g))" for ev
    using c(1) same by (cases "as_wait arg") (simp_all add: dicedev_ioctl_wait_def)
  have s: "fine E ev \<sigma> (bindR (returns (dicedev_ioctl_seed_increment c (as_seed_increment arg) (kern \<sigma>))) (answered \<sigma> g))" for ev
    using sys_seed_increment [OF i c] fine_returns [OF ok] by metis
  show ?thesis
    using f(2,3) fine_create_set [OF ok f new] fine_run [OF ok f] w s same by (simp add: dicedev_ioctl_def as_ctx_def)
qed

lemma fine_ioctl:
  assumes ok: "system_ok E \<sigma>" and en: "enabled (Ioctl fd newfd cmd arg sd) \<sigma>"
  shows "fine E (Ioctl fd newfd cmd arg sd) \<sigma> (handle E (Ioctl fd newfd cmd arg sd) \<sigma>)"
  unfolding handle.simps
proof (rule fine_on_fd [OF ok])
  fix fp f
  assume f: "fds (kern \<sigma>) fd = Some fp" "files (kern \<sigma>) fp = Some f"
  have new: "newfd = Inr fd' \<Longrightarrow> fds (kern \<sigma>) fd' = None" for fd' using en by (cases newfd) auto
  show "fine E (Ioctl fd newfd cmd arg sd) \<sigma> (case private_data f of
     PrivCtx c \<Rightarrow> bindR (dicedev_ioctl E newfd fp cmd arg (kern \<sigma>)) (answered \<sigma> Value)
   | PrivBuff b \<Rightarrow> bindR (returns (dicedev_buffer_ioctl fp cmd sd (kern \<sigma>))) (answered \<sigma> (\<lambda>_. Value 0))
   | _ \<Rightarrow> Inr (Failed ENOTTY, \<sigma>))"
    using ok by (cases "private_data f") (simp_all add: fine_buffer_calls(2) [OF ok f] fine_ctx_ioctl [OF ok f _ new])
qed

lemma fine_release_wait:
  assumes i: "sys_inv E (thread \<sigma>) dv s" "all_listed s" "pages_owned s" and d: "drvdata (drv \<sigma>) (pdev \<sigma>) = Some (wt_dev (thread \<sigma>))"
    and c: "closing_ok s fp c" "c \<notin> snd ` set (closing \<sigma>)" "ctx_held s ((fp, c) # closing \<sigma>)"
    and cl: "\<And>fp' c'. (fp', c') \<in> set (closing \<sigma>) \<Longrightarrow> closing_ok s fp' c'" "distinct (map snd (closing \<sigma>))"
  shows "fine E ev \<sigma>\<^sub>0 (bindR (dicedev_release_wait E c s) (\<lambda>r. released fp c r \<sigma>))"
proof -
  obtain cx where cx: "ctxs s c = Some cx" using c(1) by (auto simp: closing_ok_def ctx_ids_def)
  obtain f where f: "files s fp = Some f" "private_data f = PrivCtx c" using c(1) by (auto simp: closing_ok_def)
  show ?thesis
  proof (cases "task_count cx = 0")
    case False
    then have "dicedev_release_wait E c s = Inr (Block s)" using cx by (simp add: dicedev_release_wait_def word_neq_0_conv)
    moreover have "system_ok E ((with_kern s \<sigma>)\<lparr>closing := (fp, c) # closing \<sigma>\<rparr>)"
      using i d c cl unfolding system_ok_def with_kern_def by auto
    ultimately show ?thesis by simp
  next
    case True
    obtain s' dv' where s': "dicedev_release_wait E c s = Inr (Return (Inr ()) s')"
        "sys_inv E (thread \<sigma>) dv' (s'\<lparr>files := (files s')(fp := None)\<rparr>)" "all_listed (s'\<lparr>files := (files s')(fp := None)\<rparr>)"
        "fds s' = fds s" "ctxs s' = (ctxs s)(c := None)" "pages_owned s'"
        "\<And>x f y. files s x = Some f \<Longrightarrow> private_data f = PrivCtx y \<Longrightarrow> files s' x = Some f"
        "\<And>fp' c'. closing_ok s fp' c' \<Longrightarrow> c' \<noteq> c \<Longrightarrow> closing_ok (s'\<lparr>files := (files s')(fp := None)\<rparr>) fp' c'"
      using sys_release_wait [OF i(1,2) c(1) cx True] i(3) by metis
    let ?s = "s'\<lparr>files := (files s')(fp := None)\<rparr>"
    have ids: "ctx_ids ?s x = (if x = c then None else ctx_ids s x)" for x using s'(5) by (simp add: ctx_ids_def)
    have "ctx_held ?s (closing \<sigma>)"
    proof (rule ctx_held_mono [OF c(3)])
      fix x g y
      assume x: "ctx_ids ?s y \<noteq> None" "files s x = Some g" "private_data g = PrivCtx y"
      then have "y \<noteq> c" using ids by auto
      then show "files ?s x = Some g" using f x(2,3) s'(7) by auto
      show "x \<in> ran (fds ?s) \<or> (x, y) \<in> set (closing \<sigma>)" if "x \<in> ran (fds s) \<or> (x, y) \<in> set ((fp, c) # closing \<sigma>)"
        using that \<open>y \<noteq> c\<close> s'(4) by auto
    qed (use ids in \<open>simp split: if_splits\<close>)
    moreover have "pages_owned ?s" by (rule iffD2 [OF pages_owned_cong s'(6)]) (simp_all add: buff_ids_def fun_eq_iff)
    moreover have "closing_ok ?s fp' c'" if "(fp', c') \<in> set (closing \<sigma>)" for fp' c'
      using s'(8) cl(1) [OF that] c(2) that by (metis image_eqI snd_conv)
    ultimately have "system_ok E (with_kern ?s \<sigma>)" using s'(2,3) d cl(2) unfolding system_ok_def by auto
    then show ?thesis by (simp add: s'(1))
  qed
qed

lemma fine_continue:
  assumes ok: "system_ok E \<sigma>" and c: "(fp, c) \<in> set (closing \<sigma>)"
  shows "fine E (Continue fp c) \<sigma> (handle E (Continue fp c) \<sigma>)"
proof -
  obtain dv where i: "sys_inv E (thread \<sigma>) dv (kern \<sigma>)" "drvdata (drv \<sigma>) (pdev \<sigma>) = Some (wt_dev (thread \<sigma>))"
    "all_listed (kern \<sigma>)" "pages_owned (kern \<sigma>)" "\<And>fp c. (fp, c) \<in> set (closing \<sigma>) \<Longrightarrow> closing_ok (kern \<sigma>) fp c"
    "distinct (map snd (closing \<sigma>))" "ctx_held (kern \<sigma>) (closing \<sigma>)"
    using system_okE [OF ok] by (metis (no_types, lifting) case_prod_conv)
  obtain xs ys where xy: "closing \<sigma> = xs @ (fp, c) # ys" using split_list [OF c] by blast
  let ?\<sigma> = "\<sigma>\<lparr>closing := remove1 (fp, c) (closing \<sigma>)\<rparr>"
  have r: "remove1 (fp, c) (closing \<sigma>) = xs @ ys" using xy i(6) by (force simp: remove1_append)
  have "fine E (Continue fp c) \<sigma> (bindR (dicedev_release_wait E c (kern \<sigma>)) (\<lambda>r. released fp c r ?\<sigma>))"
  proof (rule fine_release_wait [OF _ i(3,4)])
    show "ctx_held (kern \<sigma>) ((fp, c) # closing ?\<sigma>)" using i(7) unfolding ctx_held_def by (simp add: r) (simp add: xy disj_commute disj_left_commute)
  qed (use i xy r in \<open>auto simp: image_iff\<close>)
  then show ?thesis by simp
qed

lemma fine_close_ctx:
  assumes ok: "system_ok E \<sigma>" and f: "fds (kern \<sigma>) fd = Some fp" "files (kern \<sigma>) fp = Some f" "private_data f = PrivCtx c"
  shows "fine E ev \<sigma> (bindR (dicedev_release E fp ((kern \<sigma>)\<lparr>fds := (fds (kern \<sigma>))(fd := None)\<rparr>)) (\<lambda>r. released fp c r \<sigma>))"
proof -
  obtain dv where i: "sys_inv E (thread \<sigma>) dv (kern \<sigma>)" "drvdata (drv \<sigma>) (pdev \<sigma>) = Some (wt_dev (thread \<sigma>))"
    "all_listed (kern \<sigma>)" "pages_owned (kern \<sigma>)" "\<And>fp c. (fp, c) \<in> set (closing \<sigma>) \<Longrightarrow> closing_ok (kern \<sigma>) fp c"
    "distinct (map snd (closing \<sigma>))" "ctx_held (kern \<sigma>) (closing \<sigma>)"
    using system_okE [OF ok] by (metis (no_types, lifting) case_prod_conv)
  obtain s' where s': "dicedev_release E fp ((kern \<sigma>)\<lparr>fds := (fds (kern \<sigma>))(fd := None)\<rparr>) = dicedev_release_wait E c s'"
      "sys_inv E (thread \<sigma>) dv s'" "all_listed s'" "closing_ok s' fp c" "ctxs s' = ctxs (kern \<sigma>)" "fds s' = (fds (kern \<sigma>))(fd := None)"
      "files s' = files (kern \<sigma>)" "pages_owned s'" "\<And>fp' c'. closing_ok (kern \<sigma>) fp' c' \<Longrightarrow> closing_ok s' fp' c'"
    using sys_release_start [OF i(1,3) f] i(4) by metis
  have "ctx_held s' ((fp, c) # closing \<sigma>)"
  proof (rule ctx_held_mono [OF i(7)])
    fix x g y
    assume x: "files (kern \<sigma>) x = Some g" "private_data g = PrivCtx y" "x \<in> ran (fds (kern \<sigma>)) \<or> (x, y) \<in> set (closing \<sigma>)"
    then show "x \<in> ran (fds s') \<or> (x, y) \<in> set ((fp, c) # closing \<sigma>)"
      using f s'(6) ran_del_other [where m = "fds (kern \<sigma>)", OF f(1)] by (cases "x = fp") auto
  qed (use s'(5,7) in \<open>simp_all add: ctx_ids_def\<close>)
  then show ?thesis unfolding s'(1)
    using ctx_fd(2) [OF ok f] i s' by (intro fine_release_wait [OF s'(2,3,8)]) auto
qed

lemma fine_close_buffer:
  assumes ok: "system_ok E \<sigma>" and f: "fds (kern \<sigma>) fd = Some fp" "files (kern \<sigma>) fp = Some f" "private_data f = PrivBuff b"
  shows "fine E ev \<sigma> (bindR (fput E fp ((kern \<sigma>)\<lparr>fds := (fds (kern \<sigma>))(fd := None)\<rparr>)) (\<lambda>s. Inr (Done, with_kern s \<sigma>)))"
proof -
  obtain dv where i: "sys_inv E (thread \<sigma>) dv (kern \<sigma>)" "drvdata (drv \<sigma>) (pdev \<sigma>) = Some (wt_dev (thread \<sigma>))"
    "all_listed (kern \<sigma>)" "pages_owned (kern \<sigma>)" "\<And>fp c. (fp, c) \<in> set (closing \<sigma>) \<Longrightarrow> closing_ok (kern \<sigma>) fp c"
    "distinct (map snd (closing \<sigma>))" "ctx_held (kern \<sigma>) (closing \<sigma>)"
    using system_okE [OF ok] by (metis (no_types, lifting) case_prod_conv)
  obtain s' dv' where s': "fput E fp ((kern \<sigma>)\<lparr>fds := (fds (kern \<sigma>))(fd := None)\<rparr>) = Inr s'"
      "sys_inv E (thread \<sigma>) dv' s'" "ctxs s' = ctxs (kern \<sigma>)" "fds s' = (fds (kern \<sigma>))(fd := None)"
      "\<And>x. x \<noteq> b \<Longrightarrow> buff_ids s' x = buff_ids (kern \<sigma>) x" "\<And>x. x \<noteq> fp \<Longrightarrow> files s' x = files (kern \<sigma>) x"
      "buff_ids s' b = None \<or> buff_ids s' b = buff_ids (kern \<sigma>) b" "pages_owned s'"
    using sys_close_buffer_fd [OF i(1) f] i(4) by metis
  have ids: "buff_ids s' x = Some y \<Longrightarrow> buff_ids (kern \<sigma>) x = Some y" for x y using s'(5,7) by (cases "x = b") auto
  have ci: "ctx_ids s' = ctx_ids (kern \<sigma>)" by (simp add: ctx_ids_def s'(3) fun_eq_iff)
  have "all_listed s'" using i(3) ids unfolding all_listed_def listed_def ci by blast
  moreover have "closing_ok s' fp' c'" if "(fp', c') \<in> set (closing \<sigma>)" for fp' c'
  proof -
    have k: "closing_ok (kern \<sigma>) fp' c'" using i(5) that .
    then have "fp' \<noteq> fp" using f(1) by (auto simp: closing_ok_def ran_def)
    moreover have "buff_ids s' x \<noteq> Some (p, d, c', q, False)" for x p d q using k ids unfolding closing_ok_def by blast
    ultimately show ?thesis using k s'(4,6) unfolding closing_ok_def ci by (auto simp: ran_def)
  qed
  moreover have "ctx_held s' (closing \<sigma>)"
  proof (rule ctx_held_mono [OF i(7)])
    fix x g y
    assume x: "files (kern \<sigma>) x = Some g" "private_data g = PrivCtx y"
    then have "x \<noteq> fp" using f(2,3) by auto
    then show "files s' x = Some g" using x(1) s'(6) by simp
    show "x \<in> ran (fds s') \<or> (x, y) \<in> set (closing \<sigma>)" if "x \<in> ran (fds (kern \<sigma>)) \<or> (x, y) \<in> set (closing \<sigma>)"
      using that s'(4) ran_del_other [where m = "fds (kern \<sigma>)", OF f(1) \<open>x \<noteq> fp\<close>] by auto
  qed (simp add: ci)
  ultimately have "system_ok E (with_kern s' \<sigma>)" using s'(2,8) i(2,6) unfolding system_ok_def by auto
  then show ?thesis by (simp add: s'(1))
qed

lemma fine_close_other:
  assumes ok: "system_ok E \<sigma>" and f: "fds (kern \<sigma>) fd = Some fp" "files (kern \<sigma>) fp = Some f" "private_data f \<in> {PrivNull, PrivOther}"
  shows "system_ok E (with_kern (other_close fd fp (kern \<sigma>)) \<sigma>)"
  by (rule ok_other [OF ok other_close_run [OF ok_heap [OF ok] f]])

lemma fine_close:
  assumes ok: "system_ok E \<sigma>"
  shows "fine E (Close fd) \<sigma> (handle E (Close fd) \<sigma>)"
  unfolding handle.simps Let_def
proof (rule fine_on_fd [OF ok])
  fix fp f
  assume f: "fds (kern \<sigma>) fd = Some fp" "files (kern \<sigma>) fp = Some f"
  show "fine E (Close fd) \<sigma> (case private_data f of
     PrivBuff b \<Rightarrow> bindR (fput E fp ((kern \<sigma>)\<lparr>fds := (fds (kern \<sigma>))(fd := None)\<rparr>)) (\<lambda>s. Inr (Done, with_kern s \<sigma>))
   | PrivCtx c \<Rightarrow> bindR (dicedev_release E fp ((kern \<sigma>)\<lparr>fds := (fds (kern \<sigma>))(fd := None)\<rparr>)) (\<lambda>r. released fp c r \<sigma>)
   | _ \<Rightarrow> Inr (Done, with_kern (other_close fd fp (kern \<sigma>)) \<sigma>))"
    using ok by (cases "private_data f") (simp_all add: fine_close_buffer [OF ok f] fine_close_ctx [OF ok f] fine_close_other [OF ok f])
qed

lemma handle_fine:
  assumes ok: "system_ok E \<sigma>" and en: "enabled ev \<sigma>"
  shows "fine E ev \<sigma> (handle E ev \<sigma>)"
proof (cases ev)
  case (Mmap fd)
  show ?thesis unfolding Mmap handle.simps
    by (rule fine_on_fd [OF ok]) (simp add: ok with_kern_idem dicedev_buffer_mmap_def as_buff_def returns_def split: private_data.split)
next
  case (Write fd ubuf count)
  show ?thesis unfolding Write handle.simps
    by (rule fine_on_fd [OF ok]) (simp add: ok fine_buffer_calls(3) [OF ok] split: private_data.split)
next
  case (Read fd copied count)
  show ?thesis unfolding Read handle.simps
    by (rule fine_on_fd [OF ok]) (simp add: ok fine_buffer_calls(1) [OF ok] split: private_data.split)
qed (use en fine_worker [OF ok] fine_interrupt [OF ok] fine_power [OF ok] fine_open [OF ok] fine_close [OF ok] fine_continue [OF ok]
  fine_ioctl [OF ok] fine_mapped [OF ok] fine_device [OF ok] fine_other_open [OF ok] in \<open>simp_all del: handle.simps\<close>)

section \<open>Reachable states\<close>

definition willing :: "services \<Rightarrow> bool" where
  "willing K \<longleftrightarrow> early_error K = None \<and> ret_cdev K = None \<and> ret_node K"

definition booted :: "pci_dev \<Rightarrow> driver \<Rightarrow> system" where
  "booted pd D = \<lparr>drv = D, pdev = pd, thread = \<lparr>wt_dev = the (drvdata D pd), next_task = None\<rparr>, closing = []\<rparr>"

text \<open>The first device is probed; then the events come in any order.\<close>

inductive reachable :: "env \<Rightarrow> services \<Rightarrow> system \<Rightarrow> bool" for E K where
  probe: "dicedev_probe E K pd driver0 = Inr (None, D) \<Longrightarrow> reachable E K (booted pd D)"
| event: "reachable E K \<sigma> \<Longrightarrow> enabled ev \<sigma> \<Longrightarrow> handle E ev \<sigma> = Inr (a, \<sigma>') \<Longrightarrow> reachable E K \<sigma>'"

lemma empty_heap:
  assumes "bounded E" "dev_inv E w dv s" "ptr_inv (mem s)" "live w dv = []"
    and "page_mem (mem s) = Map.empty" "buffs s = Map.empty" "ctxs s = Map.empty" "tasks s = Map.empty" "cmds s = Map.empty" "pts s = Map.empty"
      "files s = Map.empty" "fds s = Map.empty"
  shows "sys_inv E w dv s" "all_listed s" "pages_owned s" "ctx_held s []"
proof -
  have ids: "buff_ids s = Map.empty" "ctx_ids s = Map.empty" by (simp_all add: buff_ids_def ctx_ids_def assms fun_eq_iff)
  have "heap_inv E (wt_dev w) s"
    by (simp add: heap_inv_def kmem_ok_def below_def ctxs_below_def unshared_def buffer_sound_def apart_def context_sound_def fd_sound_def ids assms)
  moreover have "tasks_inv w dv s" using assms(4) by (simp add: tasks_inv_def live_def waiting_def)
  ultimately show "sys_inv E w dv s" using assms(1,2) by (simp add: sys_inv_def)
  show "all_listed s" "pages_owned s" "ctx_held s []" by (simp_all add: all_listed_def pages_owned_def ctx_held_def ids assms)
qed

lemma probe_ok:
  assumes E: "bounded E" "drains E" "alloc_ok E 0" and K: "willing K" and D: "dicedev_probe E K pd driver0 = Inr (r, D)"
  shows "system_ok E (booted pd D)"
proof -
  have r: "D = probed E pd driver0"
    using probe_run [of driver0 E K pd] D K E(2,3) by (simp add: willing_def driver0_def mem0_def)
  let ?w = "\<lparr>wt_dev = 0, next_task = None\<rparr>" and ?dv = "started E 0\<lparr>dev_node := True\<rparr>"
  have i: "free_index (replicate 256 None) = 0" by (simp add: numeral_eq_Suc)
  have s: "devs (ks D) 0 = Some ?dv" "drvdata D pd = Some 0" "mem (ks D) = \<lparr>page_mem = Map.empty, next_ptr = 1, clock = 1\<rparr>"
      "buffs (ks D) = Map.empty" "ctxs (ks D) = Map.empty" "tasks (ks D) = Map.empty" "cmds (ks D) = Map.empty" "pts (ks D) = Map.empty"
      "files (ks D) = Map.empty" "fds (ks D) = Map.empty"
    by (simp_all add: r probed_def entered_def driver0_def mem0_def Let_def i)
  have "dev_inv E ?w ?dv (ks D)" by (rule dev_inv_started [OF E(2)]) (simp_all add: s)
  then have "sys_inv E ?w ?dv (ks D)" "all_listed (ks D)" "pages_owned (ks D)" "ctx_held (ks D) []"
    by (rule empty_heap [OF E(1)]; simp add: s ptr_inv_def live_def started_def zero_device_def)+
  then show ?thesis using s(2) by (auto simp: system_ok_def booted_def)
qed

text \<open>
  The environment: fewer than \<open>2^64 - 1\<close> allocations succeed, so that \<open>task_count\<close> and the
  pointers stay in their types; the device makes room in its queue; the first allocation succeeds.
\<close>

definition env_ok :: "env \<Rightarrow> bool" where
  "env_ok E \<longleftrightarrow> bounded E \<and> drains E \<and> alloc_ok E 0"

lemma reachable_ok:
  assumes "env_ok E" "willing K"
  shows "reachable E K \<sigma> \<Longrightarrow> system_ok E \<sigma>"
proof (induction rule: reachable.induct)
  case (probe pd D)
  then show ?case using probe_ok assms by (auto simp: env_ok_def)
next
  case (event \<sigma> ev a \<sigma>')
  then show ?case using handle_fine [of E \<sigma> ev] by simp
qed

fun trace :: "env \<Rightarrow> event list \<Rightarrow> system \<Rightarrow> system option" where
  "trace E [] \<sigma> = Some \<sigma>"
| "trace E (ev # evs) \<sigma> = (if enabled ev \<sigma> then (case handle E ev \<sigma> of Inl _ \<Rightarrow> None | Inr (_, \<sigma>') \<Rightarrow> trace E evs \<sigma>') else None)"

lemma reachable_trace: "reachable E K \<sigma> \<Longrightarrow> trace E evs \<sigma> = Some \<sigma>' \<Longrightarrow> reachable E K \<sigma>'"
  by (induction evs arbitrary: \<sigma>) (auto split: if_splits sum.splits prod.splits intro: reachable.event)

definition env1 :: env where
  "env1 = env0\<lparr>alloc_ok := (\<lambda>n. n < 1000)\<rparr>"

definition first :: system where
  "first = booted 7 (probed env1 7 driver0)"

lemma first_reachable: "env_ok env1" "willing services0" "reachable env1 services0 first"
proof -
  show k: "willing services0" by (simp add: willing_def services0_def early_error_def)
  show e: "env_ok env1" using drains_env0 by (simp add: env_ok_def env1_def bounded_def drains_def env0_def)
  have "dicedev_probe env1 services0 7 driver0 = Inr (None, probed env1 7 driver0)"
    by (rule probe_run) (use k e in \<open>simp_all add: willing_def env_ok_def driver0_def mem0_def\<close>)
  then show "reachable env1 services0 first" unfolding first_def by (rule reachable.probe)
qed

definition no_arg :: user_arg where
  "no_arg = \<lparr>as_create_set = None, as_run = None, as_wait = None, as_seed_increment = None\<rparr>"

definition create_arg :: "int \<Rightarrow> user_arg" where
  "create_arg n = no_arg\<lparr>as_create_set := Some \<lparr>cs_size = n, cs_allowed = 0x20\<rparr>\<rparr>"

definition demo :: "event list" where
  "demo = [Open 3, Ioctl 3 (Inr 4) DICEDEV_IOCTL_CREATE_SET (create_arg 4096) None,
     Ioctl 3 (Inr 5) DICEDEV_IOCTL_CREATE_SET (create_arg 4096) None]"

lemmas system_defs = Let_def on_fd_def with_kern_def returns_def as_ctx_def as_buff_def kmalloc_def alloc_def dicedev_ioctl_def
  dicedev_ioctl_create_set_def create_set_install_def dicedev_buffer_init_def dicedev_buffer_get_fd_def dicedev_pt_init_def
  zero_pt_def page_init_def page_free_def dma_alloc_coherent_def write_entry_def dicedev_buffer_vm_fault_def
  dicedev_release_def dicedev_release_wait_def open_run opened_def new_ctx_def

lemmas first_defs = first_def booted_def probed_def entered_def driver0_def env1_def env0_def mem0_def started_def zero_device_def
  create_arg_def no_arg_def DICEDEV_MAX_ALLOWED_def

lemma demo_run:
  "\<exists>\<sigma>. trace env1 demo first = Some \<sigma> \<and> fds (kern \<sigma>) 4 = Some 8 \<and> dicedev_buffer_vm_fault 3 0 (kern \<sigma>) = Inr (Some 7) \<and>
    dicedev_buffer_vm_fault 9 0 (kern \<sigma>) = Inr (Some 13) \<and> map_option buff_pt (buffs (kern \<sigma>) 9) = Some 10 \<and> (\<exists>t. pts (kern \<sigma>) 10 = Some t)"
  by (simp add: demo_def first_defs system_defs del: bindR_eq_Inr)

lemma demoE:
  obtains \<sigma> xf t where "trace env1 demo first = Some \<sigma>" "reachable env1 services0 \<sigma>" "fds (kern \<sigma>) 4 = Some 8"
    "dicedev_buffer_vm_fault 3 0 (kern \<sigma>) = Inr (Some 7)" "dicedev_buffer_vm_fault 9 0 (kern \<sigma>) = Inr (Some 13)"
    "buffs (kern \<sigma>) 9 = Some xf" "pts (kern \<sigma>) (buff_pt xf) = Some t"
  using demo_run reachable_trace [OF first_reachable(3)] by (auto simp: map_option_eq_Some)

lemma open_close_run: "\<exists>\<sigma>. trace env1 [Open 3, Close 3] first = Some \<sigma> \<and> fds (kern \<sigma>) = Map.empty \<and> closing \<sigma> = []"
  by (simp add: first_defs system_defs del: bindR_eq_Inr)

lemma no_descriptors_empty:
  assumes ok: "system_ok E \<sigma>" and none: "\<forall>fd fp. fds (kern \<sigma>) fd = Some fp \<longrightarrow> foreign (kern \<sigma>) fp" "closing \<sigma> = []"
  shows "ctxs (kern \<sigma>) = Map.empty" "buffs (kern \<sigma>) = Map.empty" "page_mem (mem (kern \<sigma>)) = Map.empty"
proof -
  have no: "private_data f \<noteq> PrivCtx c \<and> private_data f \<noteq> PrivBuff b" if f: "files (kern \<sigma>) fp = Some f" "fp \<in> ran (fds (kern \<sigma>))" for fp f c b
  proof -
    obtain fd where "fds (kern \<sigma>) fd = Some fp" using f(2) unfolding ran_def by blast
    then have "foreign (kern \<sigma>) fp" using none(1) by blast
    then show ?thesis using f(1) by (auto simp: foreign_def)
  qed
  have c: "ctx_ids (kern \<sigma>) c = None" for c
  proof (rule ccontr)
    assume "ctx_ids (kern \<sigma>) c \<noteq> None"
    moreover have "ctx_held (kern \<sigma>) []" using ok none(2) by (simp add: system_ok_def)
    ultimately obtain fp f where "files (kern \<sigma>) fp = Some f" "private_data f = PrivCtx c" "fp \<in> ran (fds (kern \<sigma>))"
      unfolding ctx_held_def list.set empty_iff by blast
    then show False using no by blast
  qed
  have b: "buff_ids (kern \<sigma>) b = None" for b
  proof (rule ccontr)
    assume "buff_ids (kern \<sigma>) b \<noteq> None"
    then obtain p d c fp dead where "buff_ids (kern \<sigma>) b = Some (p, d, c, fp, dead)" by (metis not_None_eq prod_cases5)
    then have "0 < refs (kern \<sigma>) c b fp" "files (kern \<sigma>) fp = Some \<lparr>private_data = PrivBuff b, f_count = refs (kern \<sigma>) c b fp\<rparr>"
      using heap_invD(1) [OF ok_heap [OF ok], of b] by (simp_all add: buffer_sound_def)
    then show False using no c by (fastforce simp: refs_def listed_def)
  qed
  show "ctxs (kern \<sigma>) = Map.empty" using c by (simp add: ctx_ids_def fun_eq_iff)
  show "buffs (kern \<sigma>) = Map.empty" using b by (simp add: buff_ids_def fun_eq_iff)
  have "pages_owned (kern \<sigma>)" using ok by (simp add: system_ok_def)
  then show "page_mem (mem (kern \<sigma>)) = Map.empty" using b by (auto simp: pages_owned_def page_owner_def)
qed

lemma no_descriptors_idle:
  assumes ok: "system_ok E \<sigma>" and none: "ctxs (kern \<sigma>) = Map.empty" "buffs (kern \<sigma>) = Map.empty"
  shows "\<exists>dv. devs (kern \<sigma>) (wt_dev (thread \<sigma>)) = Some dv \<and> live (thread \<sigma>) dv = [] \<and> buff_slots dv = replicate 16 None \<and> free_slots dv = 16"
proof -
  obtain dv where i: "base_inv E (wt_dev (thread \<sigma>)) dv (kern \<sigma>) (live (thread \<sigma>) dv)"
    using ok by (auto simp: system_ok_def sys_inv_def dev_inv_def)
  then have "\<forall>tp \<in> set (live (thread \<sigma>) dv). task_linked (wt_dev (thread \<sigma>)) (kern \<sigma>) tp" by (simp add: base_inv_def)
  then have "live (thread \<sigma>) dv = []" using none(1) by (cases "live (thread \<sigma>) dv") (auto simp: task_linked_def ctx_key_def)
  moreover have d: "devs (kern \<sigma>) (wt_dev (thread \<sigma>)) = Some dv" "slots_ok (wt_dev (thread \<sigma>)) (kern \<sigma>)" using i by (simp_all add: base_inv_def)
  moreover have "buff_slots dv = replicate 16 None"
  proof (rule nth_equalityI)
    show l: "length (buff_slots dv) = length (replicate 16 None)" using d by (simp add: slots_ok_def)
    fix j assume "j < length (buff_slots dv)"
    then have "buff_slots dv ! j \<noteq> Some b" for b using d l none(2) by (auto simp: slots_ok_def)
    then show "buff_slots dv ! j = replicate 16 None ! j" using \<open>j < length (buff_slots dv)\<close> l by (cases "buff_slots dv ! j") auto
  qed
  moreover have "count_list (replicate 16 (None :: ptr option)) None = 16" by (simp add: numeral_eq_Suc)
  then have "free_slots dv = 16" using d calculation(4) by (simp add: slots_ok_def)
  ultimately show ?thesis by blast
qed

section \<open>Properties\<close>





text \<open>
  C3. Memory isolation: page faults in the mappings of two different buffers are never served
  with the same page, and neither of them with a page that holds a page table of the device.
\<close>

theorem reachable_isolation:
  assumes "env_ok E" "willing K" "reachable E K \<sigma>" "b \<noteq> b'"
    and "dicedev_buffer_vm_fault b i (kern \<sigma>) = Inr (Some q)" "dicedev_buffer_vm_fault b' j (kern \<sigma>) = Inr (Some q')"
    and "buffs (kern \<sigma>) x = Some xf" "pts (kern \<sigma>) (buff_pt xf) = Some t"
  shows "q \<noteq> q' \<and> page (pt_page t) \<noteq> Some q"
proof -
  note h = ok_heap [OF reachable_ok [OF assms(1-3)]]
  let ?d = "wt_dev (thread \<sigma>)"
  obtain bf u where u: "buffs (kern \<sigma>) b = Some bf" "pts (kern \<sigma>) (buff_pt bf) = Some u" "\<exists>p \<in> set (pages u). page p = Some q"
    using fault_page [OF assms(5)] by metis
  obtain bf' u' where u': "buffs (kern \<sigma>) b' = Some bf'" "pts (kern \<sigma>) (buff_pt bf') = Some u'" "\<exists>p \<in> set (pages u'). page p = Some q'"
    using fault_page [OF assms(6)] by metis
  have "q \<noteq> q'" using tables_apart [OF h u(1,2) u'(1,2) assms(4)] u(3) u'(3) by (auto simp: pt_pages_def)
  moreover have "page (pt_page t) \<noteq> Some q" by (rule data_page_no_table [OF h fault_data_page [OF assms(5)] assms(7,8)])
  ultimately show ?thesis by simp
qed

theorem reachable_isolation_witness:
  "\<exists>\<sigma>. trace env1 demo first = Some \<sigma> \<and> dicedev_buffer_vm_fault 3 0 (kern \<sigma>) = Inr (Some 7) \<and>
    dicedev_buffer_vm_fault 9 0 (kern \<sigma>) = Inr (Some 13) \<and> (7 :: ptr) \<noteq> 13"
proof -
  obtain \<sigma> xf t where \<sigma>: "trace env1 demo first = Some \<sigma>" "reachable env1 services0 \<sigma>"
    "dicedev_buffer_vm_fault 3 0 (kern \<sigma>) = Inr (Some 7)" "dicedev_buffer_vm_fault 9 0 (kern \<sigma>) = Inr (Some 13)"
    "buffs (kern \<sigma>) 9 = Some xf" "pts (kern \<sigma>) (buff_pt xf) = Some t"
    using demoE by metis
  have "(7 :: ptr) \<noteq> 13" using reachable_isolation [OF first_reachable(1,2) \<sigma>(2) _ \<sigma>(3-6)] by simp
  then show ?thesis using \<sigma>(1,3,4) by (intro exI [of _ \<sigma>] conjI)
qed



end
