(* ===== verification/Dicedev_Frame.thy ===== *)
theory Dicedev_Frame
  imports Dicedev_System
begin

text \<open>
  What goes on in the background of a program: the worker thread, interrupts, the device, sleep, and
  waiting releases. None of it touches a context that has no unfinished task.
\<close>

section \<open>The contexts that the worker changes\<close>

lemma feed_cmd_frame: "feed_cmd E d cmd s = Inr s' \<Longrightarrow> ctxs s' = ctxs s \<and> buffs s' = buffs s"
  by (auto simp: feed_cmd_eq_Inr)

lemma modify_task_frame: "modify_task tp f s = Inr s' \<Longrightarrow> ctxs s' = ctxs s \<and> buffs s' = buffs s"
  by (auto simp: modify_eq_Inr)

lemma run_loop_ctxs:
  "wt_run_loop E tp c d b m s = Inr s' \<Longrightarrow> buffs s b = Some bf \<Longrightarrow> x \<noteq> c \<Longrightarrow> ctxs s' x = ctxs s x"
proof (induction E tp c d b m s rule: wt_run_loop.induct)
  case (1 E tp c d b m s)
  show ?case
  proof (cases "m > 0")
    case False
    then show ?thesis using "1.prems" by (simp add: wt_run_loop.simps)
  next
    case True
    show ?thesis using "1.prems"(1,2) True
    proof (cases rule: run_loop_InrE)
      case (failed s2)
      then show ?thesis using "1.prems"(3) by (auto simp: dicedev_ctx_set_failed_def modify_eq_Inr)
    next
      case (nop c0 s1)
      then show ?thesis using "1.IH"(1) [OF True nop(1) refl _ nop(3)] get_next_word_frame [OF nop(1)] "1.prems"(2,3)
        by (simp add: masked_fields)
    next
      case (die c0 s1 c1 s2 s3 s4)
      then show ?thesis
        using "1.IH"(2) [OF True die(1) refl _ _ die(3,4) refl _ _ _ die(7,8,9)] "1.prems"(2,3)
          get_next_word_frame [OF die(1)] get_next_word_frame [OF die(4)] modify_task_frame [OF die(7)] feed_cmd_frame [OF die(8)]
        by (simp add: masked_fields)
    next
      case (set c0 s1 s2)
      then show ?thesis
        using "1.IH"(3) [OF True set(1) refl _ _ _ _ _ set(4,5)] get_next_word_frame [OF set(1)] feed_cmd_frame [OF set(4)] "1.prems"(2,3)
        by (simp add: masked_fields)
    qed
  qed
qed

lemma init_it_ctxs: "dicedev_task_init_it tp s = Inr s' \<Longrightarrow> ctxs s' = ctxs s \<and> buffs s' = buffs s"
proof (cases "tasks s tp")
  case (Some t)
  then show "dicedev_task_init_it tp s = Inr s' \<Longrightarrow> ctxs s' = ctxs s \<and> buffs s' = buffs s"
    by (cases "t_body t") (auto simp: dicedev_task_init_it_def Let_def modify_eq_Inr)
qed (simp add: dicedev_task_init_it_def)

lemma run_task_ctxs:
  assumes "wt_run_task E tp s = Inr s'" "tasks s tp = Some t" "x \<noteq> t_ctx t"
  shows "ctxs s' x = ctxs s x"
proof -
  obtain d m s1 bf s2 where r: "modify_dev d (\<lambda>dv. dv\<lparr>running_task := Some tp\<rparr>) s = Inr s1" "buffs s1 (t_buff_out t) = Some bf"
      "dicedev_task_init_it tp s1 = Inr s2" "wt_run_loop E tp (t_ctx t) d (t_buff_out t) m s2 = Inr s'"
    using assms(1,2) by (simp add: wt_run_task_def Let_def) (elim exE conjE, rule that)
  have "ctxs s1 = ctxs s" using r(1) by (auto simp: modify_eq_Inr)
  then show ?thesis using run_loop_ctxs [OF r(4) _ assms(3)] init_it_ctxs [OF r(3)] r(2) by simp
qed

text \<open>Operations that change no context.\<close>

lemma modify_ctxs: "modify_dev d f s = Inr s' \<Longrightarrow> ctxs s' = ctxs s" "modify_buff b g s = Inr s' \<Longrightarrow> ctxs s' = ctxs s"
  by (auto simp: modify_eq_Inr)

lemma lock_ctxs: "spin_lock_irqsave d s = Inr s' \<Longrightarrow> ctxs s' = ctxs s" "spin_unlock_irqrestore d s = Inr s' \<Longrightarrow> ctxs s' = ctxs s"
    "dicedev_iow d r v s = Inr s' \<Longrightarrow> ctxs s' = ctxs s"
  by (auto simp: spin_lock_irqsave_def spin_unlock_irqrestore_def dicedev_iow_def modify_eq_Inr split: if_splits)

lemmas plain_ctxs = modify_ctxs lock_ctxs feed_cmd_frame [THEN conjunct1]

lemma unbind_ctxs: "unbind_slot E d b s = Inr s' \<Longrightarrow> ctxs s' = ctxs s"
  by (auto simp: unbind_slot_def Let_def dest!: plain_ctxs)

lemma bind_ctxs: "bind_free_slot E d b s = Inr s' \<Longrightarrow> ctxs s' = ctxs s" "restart_device d s = Inr s' \<Longrightarrow> ctxs s' = ctxs s"
  "dicedev_buffer_init_reader b s = Inr s' \<Longrightarrow> ctxs s' = ctxs s"
  by (auto simp: bind_free_slot_def bind_slot_def restart_device_def dicedev_buffer_init_reader_def Let_def dest!: plain_ctxs)

lemma ctx_ctxs: "modify_ctx c f s = Inr s' \<Longrightarrow> x \<noteq> c \<Longrightarrow> ctxs s' x = ctxs s x" "wake_up_ctx c s = Inr s' \<Longrightarrow> x \<noteq> c \<Longrightarrow> ctxs s' x = ctxs s x"
  by (auto simp: wake_up_ctx_def modify_eq_Inr)

lemma task_destroy_ctxs:
  assumes "task_destroy E tp s = Inr s'" "tasks s tp = Some t" "x \<noteq> t_ctx t"
  shows "ctxs s' x = ctxs s x"
  using assms by (auto simp: task_destroy_def Let_def split: if_splits dest!: plain_ctxs unbind_ctxs ctx_ctxs)


definition uses_ctx :: "kstate \<Rightarrow> ptr \<Rightarrow> ptr list \<Rightarrow> bool" where
  "uses_ctx s c l \<longleftrightarrow> tasks_of s c l \<noteq> []"

lemma uses_ctx_iff: "uses_ctx s c l \<longleftrightarrow> (\<exists>tp \<in> set l. \<exists>t. tasks s tp = Some t \<and> t_ctx t = c)"
  by (auto simp: uses_ctx_def tasks_of_def task_key_def filter_empty_conv)

lemma worker_ctxs:
  assumes inv: "dev_inv E w dv s" and r: "wt_fn_step E w s = Inr (w', s')" and c: "\<not> uses_ctx s c (live w dv)"
  shows "ctxs s' c = ctxs s c"
proof -
  have d: "devs s (wt_dev w) = Some dv" "\<not> slock dv" using inv by (simp_all add: dev_inv_def base_inv_def)
  have other: "\<exists>t. tasks s tp = Some t \<and> c \<noteq> t_ctx t" if "tp \<in> set (live w dv)" for tp
  proof -
    have "task_linked (wt_dev w) s tp" using inv that by (simp add: dev_inv_def base_inv_def)
    then obtain t where "tasks s tp = Some t" by (auto simp: task_linked_def task_key_def)
    then show ?thesis using c that by (auto simp: uses_ctx_iff)
  qed
  show ?thesis using inv
  proof (cases rule: get_eventE)
    case (idle ev)
    then show ?thesis using r by (auto simp: wt_fn_step_def wt_handle_def)
  next
    case (finish tp)
    obtain t where t: "tasks s tp = Some t" "c \<noteq> t_ctx t" using other finish(2) by (auto simp: live_def)
    obtain s1 where s1: "task_destroy E tp s = Inr s1" using r finish d by (auto simp: wt_fn_step_def wt_handle_def Let_def)
    then have "ctxs s' = ctxs s1" using r finish d
      by (auto simp: wt_fn_step_def wt_handle_def Let_def split: if_splits dest!: plain_ctxs bind_ctxs)
    then show ?thesis using task_destroy_ctxs [OF s1 t] by simp
  next
    case (nxt tp tps)
    obtain t where t: "tasks s tp = Some t" "c \<noteq> t_ctx t" using other nxt(3) by (auto simp: live_def)
    then have "ctxs s' c = ctxs s c" if "task_destroy E tp (s\<lparr>devs := (devs s)(wt_dev w \<mapsto> dv\<lparr>pending_tasks := tps\<rparr>)\<rparr>) = Inr s'"
      using task_destroy_ctxs [OF that, of t c] by simp
    then show ?thesis using r nxt take_next_run [OF d nxt(3)] t(1) by (auto simp: wt_fn_step_def wt_handle_def Let_def split: if_splits)
  next
    case (bind tp t bf)
    then show ?thesis using r by (auto simp: wt_fn_step_def wt_handle_def Let_def dest!: plain_ctxs bind_ctxs)
  next
    case (run tp t bf)
    have t: "c \<noteq> t_ctx t" using other [of tp] run(2,4) by (auto simp: live_def)
    let ?s = "s\<lparr>devs := (devs s)(wt_dev w \<mapsto> dv\<lparr>fence_state := DICEDEV_FENCE_STATE_WAITING\<rparr>)\<rparr>"
    obtain s1 where s1: "wt_run_task E tp ?s = Inr s1" using r run d by (auto simp: wt_fn_step_def wt_handle_def Let_def)
    then have "ctxs s' = ctxs s1" using r run d by (auto simp: wt_fn_step_def wt_handle_def Let_def dest!: plain_ctxs)
    then show ?thesis using run_task_ctxs [OF s1 _ t] run(4) by simp
  qed
qed

section \<open>The background of a program\<close>

fun is_background :: "event \<Rightarrow> bool" where
  "is_background Worker = True"
| "is_background Interrupt = True"
| "is_background Suspend = True"
| "is_background Resume = True"
| "is_background (Device _ _ _) = True"
| "is_background _ = False"

inductive background :: "env \<Rightarrow> system \<Rightarrow> system \<Rightarrow> bool" for E where
  start: "background E \<sigma> \<sigma>"
| step: "background E \<sigma> \<sigma>' \<Longrightarrow> is_background ev \<Longrightarrow> enabled ev \<sigma>' \<Longrightarrow> handle E ev \<sigma>' = Inr (a, \<sigma>'') \<Longrightarrow> background E \<sigma> \<sigma>''"

text \<open>A context without unfinished tasks.\<close>

definition quiet :: "system \<Rightarrow> ptr \<Rightarrow> bool" where
  "quiet \<sigma> c \<longleftrightarrow> (\<forall>dv. devs (kern \<sigma>) (wt_dev (thread \<sigma>)) = Some dv \<longrightarrow> \<not> uses_ctx (kern \<sigma>) c (live (thread \<sigma>) dv))"

definition undisturbed :: "system \<Rightarrow> system \<Rightarrow> bool" where
  "undisturbed \<sigma> \<sigma>' \<longleftrightarrow> closing \<sigma>' = closing \<sigma> \<and> clock (mem (kern \<sigma>')) = clock (mem (kern \<sigma>)) \<and> fds (kern \<sigma>') = fds (kern \<sigma>) \<and> files (kern \<sigma>') = files (kern \<sigma>) \<and> pts (kern \<sigma>') = pts (kern \<sigma>) \<and>
     buff_ids (kern \<sigma>') = buff_ids (kern \<sigma>) \<and> ctx_ids (kern \<sigma>') = ctx_ids (kern \<sigma>) \<and>
     (\<forall>c. quiet \<sigma> c \<longrightarrow> quiet \<sigma>' c \<and> ctxs (kern \<sigma>') c = ctxs (kern \<sigma>) c)"

lemma undisturbed_refl [simp]: "undisturbed \<sigma> \<sigma>"
  by (simp add: undisturbed_def)

lemma undisturbed_trans: "undisturbed \<sigma> \<sigma>' \<Longrightarrow> undisturbed \<sigma>' \<sigma>'' \<Longrightarrow> undisturbed \<sigma> \<sigma>''"
  by (simp add: undisturbed_def)

lemma undisturbedI:
  assumes "same_heap (kern \<sigma>) (kern \<sigma>')" "closing \<sigma>' = closing \<sigma>" "clock (mem (kern \<sigma>')) = clock (mem (kern \<sigma>))" "\<And>c. quiet \<sigma> c \<Longrightarrow> quiet \<sigma>' c \<and> ctxs (kern \<sigma>') c = ctxs (kern \<sigma>) c"
  shows "undisturbed \<sigma> \<sigma>'"
  using assms by (simp add: undisturbed_def same_heap_def)

lemma uses_ctx_cong: "tasks s' = tasks s \<Longrightarrow> uses_ctx s' c l = uses_ctx s c l"
  by (simp add: uses_ctx_iff)

lemma worker_undisturbed:
  assumes ok: "system_ok E \<sigma>" and r: "handle E Worker \<sigma> = Inr (a, \<sigma>')"
  shows "undisturbed \<sigma> \<sigma>'"
proof -
  obtain dv where i: "sys_inv E (thread \<sigma>) dv (kern \<sigma>)" using system_okE [OF ok] by metis
  then have d: "dev_inv E (thread \<sigma>) dv (kern \<sigma>)" "devs (kern \<sigma>) (wt_dev (thread \<sigma>)) = Some dv" using sys_inv_dev [OF i] by (simp_all add: sys_inv_def)
  obtain w' s' where w: "wt_fn_step E (thread \<sigma>) (kern \<sigma>) = Inr (w', s')" "\<sigma>' = (with_kern s' \<sigma>)\<lparr>thread := w'\<rparr>" using r by auto
  then obtain dv' where k: "wt_dev w' = wt_dev (thread \<sigma>)" "dev_inv E w' dv' s'" "fifo_step (task_failed (kern \<sigma>)) (live (thread \<sigma>) dv) (live w' dv')"
      "waiting_kept (thread \<sigma>) dv (kern \<sigma>) w' dv' s'"
    using wt_fn_step_ok [OF d(1)] unfolding step_ok_def by auto
  have \<sigma>': "kern \<sigma>' = s'" "thread \<sigma>' = w'" by (simp_all add: w(2) with_kern_def)
  have d': "devs s' (wt_dev w') = Some dv'" using k(2) by (simp add: dev_inv_def base_inv_def)
  have key: "\<forall>x \<in> set (live w' dv'). task_key s' x = task_key (kern \<sigma>) x" using k(4) by (simp add: waiting_kept_def)
  have "\<not> uses_ctx s' c (live w' dv')" if "\<not> uses_ctx (kern \<sigma>) c (live (thread \<sigma>) dv)" for c
    using that fifo_step_subset [OF k(3)] key by (auto simp: uses_ctx_def tasks_of_def filter_empty_conv)
  then have "quiet \<sigma>' c \<and> ctxs s' c = ctxs (kern \<sigma>) c" if "quiet \<sigma> c" for c
    using that worker_ctxs [OF d(1) w(1)] d(2) d' by (simp add: quiet_def \<sigma>')
  moreover have "same_heap (kern \<sigma>) s'" using k(4) same_rest_heap by (simp add: waiting_kept_def)
  moreover have "mem s' = mem (kern \<sigma>)" using k(4) by (simp add: waiting_kept_def same_rest_def)
  ultimately show ?thesis by (intro undisturbedI) (simp_all add: \<sigma>', simp add: w(2))
qed

lemma interrupt_undisturbed:
  assumes ok: "system_ok E \<sigma>" and r: "handle E Interrupt \<sigma> = Inr (a, \<sigma>')"
  shows "undisturbed \<sigma> \<sigma>'"
proof -
  obtain dv where i: "sys_inv E (thread \<sigma>) dv (kern \<sigma>)" using system_okE [OF ok] by metis
  have d: "devs (kern \<sigma>) (wt_dev (thread \<sigma>)) = Some dv" "\<not> slock dv" using sys_inv_dev [OF i] by simp_all
  obtain b s' where s': "dicedev_isr E (wt_dev (thread \<sigma>)) (kern \<sigma>) = Inr (b, s')" "\<sigma>' = with_kern s' \<sigma>" using r by auto
  have h: "same_heap (kern \<sigma>) s'" using sys_isr [OF i] s'(1) by auto
  have l: "live (thread \<sigma>) (isr_dev E dv) = live (thread \<sigma>) dv" by (simp add: live_def isr_dev_def Let_def)
  have q: "quiet \<sigma> c \<longleftrightarrow> \<not> uses_ctx (kern \<sigma>) c (live (thread \<sigma>) dv)" for c using d by (simp add: quiet_def)
  have "mem s' = mem (kern \<sigma>) \<and> tasks s' = tasks (kern \<sigma>) \<and> devs s' (wt_dev (thread \<sigma>)) = Some (isr_dev E dv) \<and> (\<forall>c. quiet \<sigma> c \<longrightarrow> ctxs s' c = ctxs (kern \<sigma>) c)"
  proof (cases "running_task dv")
    case None
    then show ?thesis using s'(1) isr_idle_run [OF d None, of E] by (auto split: if_splits)
  next
    case (Some tp)
    have "task_linked (wt_dev (thread \<sigma>)) (kern \<sigma>) tp" using i Some by (simp add: sys_inv_def dev_inv_def base_inv_def live_def)
    then obtain t cx where t: "tasks (kern \<sigma>) tp = Some t" "ctxs (kern \<sigma>) (t_ctx t) = Some cx" by (rule task_linkedE) blast
    have "c \<noteq> t_ctx t" if "quiet \<sigma> c" for c using that t(1) Some unfolding q by (auto simp: uses_ctx_iff live_def)
    then show ?thesis using s'(1) isr_run [OF d Some t, of E] by auto
  qed
  then show ?thesis using h uses_ctx_cong [of s' "kern \<sigma>"] by (intro undisturbedI) (simp_all add: s'(2) quiet_def d l)
qed

lemma power_undisturbed:
  assumes ok: "system_ok E \<sigma>" and ev: "ev = Suspend \<or> ev = Resume" and r: "handle E ev \<sigma> = Inr (a, \<sigma>')"
  shows "undisturbed \<sigma> \<sigma>'"
proof -
  obtain dv where i: "sys_inv E (thread \<sigma>) dv (kern \<sigma>)" and p: "drvdata (drv \<sigma>) (pdev \<sigma>) = Some (wt_dev (thread \<sigma>))"
    using system_okE [OF ok] by metis
  have d: "devs (kern \<sigma>) (wt_dev (thread \<sigma>)) = Some dv" using sys_inv_dev [OF i] by simp
  obtain x y where \<sigma>': "kern \<sigma>' = (kern \<sigma>)\<lparr>devs := (devs (kern \<sigma>))(wt_dev (thread \<sigma>) \<mapsto> dv\<lparr>wt_thread := y, bar := x\<rparr>)\<rparr>" "thread \<sigma>' = thread \<sigma>"
      "closing \<sigma>' = closing \<sigma>"
    using ev r power_run [OF p d] by fastforce
  have "live (thread \<sigma>) (dv\<lparr>wt_thread := y, bar := x\<rparr>) = live (thread \<sigma>) dv" by (simp add: live_def)
  then have "quiet \<sigma>' c = quiet \<sigma> c" for c by (simp add: quiet_def \<sigma>' d uses_ctx_iff)
  then show ?thesis by (simp add: undisturbed_def \<sigma>'(1,3) buff_ids_def ctx_ids_def fun_eq_iff)
qed

lemma touch_write:
  assumes "touch b i (\<lambda>q ws. Inr (x, with_kern (page_written q (f ws) (kern \<sigma>)) \<sigma>)) \<sigma> = Inr (a, \<sigma>')"
  obtains "\<sigma>' = \<sigma>" | q ws where "\<sigma>' = with_kern (page_written q ws (kern \<sigma>)) \<sigma>"
  using assms by (auto simp: touch_def split: option.splits)

lemma page_undisturbed: "undisturbed \<sigma> (with_kern (page_written q ws (kern \<sigma>)) \<sigma>)"
  by (simp add: undisturbed_def quiet_def uses_ctx_iff)

lemma background_step:
  assumes ok: "system_ok E \<sigma>" and ev: "is_background ev" "enabled ev \<sigma>" and r: "handle E ev \<sigma> = Inr (a, \<sigma>')"
  shows "system_ok E \<sigma>' \<and> undisturbed \<sigma> \<sigma>'"
proof -
  have "undisturbed \<sigma> \<sigma>'"
  proof (cases ev)
    case (Device b i ws)
    then have "touch b i (\<lambda>q _. Inr (Done, with_kern (page_written q ws (kern \<sigma>)) \<sigma>)) \<sigma> = Inr (a, \<sigma>')" using r by simp
    then show ?thesis by (rule touch_write) (auto intro: page_undisturbed)
  qed (use ev r worker_undisturbed [OF ok] interrupt_undisturbed [OF ok] power_undisturbed [OF ok, of ev] in \<open>simp_all del: handle.simps\<close>)
  then show ?thesis using handle_fine [OF ok ev(2)] r by simp
qed

lemma background_ok: "background E \<sigma> \<sigma>' \<Longrightarrow> system_ok E \<sigma> \<Longrightarrow> system_ok E \<sigma>' \<and> undisturbed \<sigma> \<sigma>'"
  by (induction rule: background.induct) (auto dest: background_step intro: undisturbed_trans)

section \<open>The kinds of descriptors\<close>

datatype fd_kind = Context | Buffer

definition kind_of :: "kstate \<Rightarrow> int \<rightharpoonup> fd_kind" where
  "kind_of s fd = (case Option.bind (fds s fd) (files s) of None \<Rightarrow> None
     | Some f \<Rightarrow> (case private_data f of PrivCtx _ \<Rightarrow> Some Context | PrivBuff _ \<Rightarrow> Some Buffer | _ \<Rightarrow> None))"

lemma kind_of_Some:
  "kind_of s fd = Some Context \<longleftrightarrow> (\<exists>fp f c. fds s fd = Some fp \<and> files s fp = Some f \<and> private_data f = PrivCtx c)"
  "kind_of s fd = Some Buffer \<longleftrightarrow> (\<exists>fp f b. fds s fd = Some fp \<and> files s fp = Some f \<and> private_data f = PrivBuff b)"
  by (auto simp: kind_of_def split: option.splits private_data.splits bind_splits)

lemma kind_of_cong: "fds s' = fds s \<Longrightarrow> files s' = files s \<Longrightarrow> kind_of s' = kind_of s"
  by (rule ext) (simp add: kind_of_def)

lemma kind_of_frame:
  assumes "heap_inv E d s" "\<And>x. x \<noteq> fd \<Longrightarrow> fds s' x = fds s x"
    and "\<And>x g. x \<noteq> fd \<Longrightarrow> fds s x = Some g \<Longrightarrow> map_option private_data (files s' g) = map_option private_data (files s g)" "x \<noteq> fd"
  shows "kind_of s' x = kind_of s x"
proof (cases "fds s x")
  case (Some g)
  then show ?thesis using assms(2-4)
    by (cases "files s g"; cases "files s' g") (fastforce simp: kind_of_def)+
qed (use assms(2,4) in \<open>simp add: kind_of_def\<close>)

end
