(* ===== verification/Dicedev_Client.thy ===== *)
theory Dicedev_Client
  imports Dicedev_Frame
begin

text \<open>
  User programs that call the driver, and the functions of \<open>z3-tst/common.h\<close>. A program is a tree of
  system calls; it runs while the worker, the device and its interrupts go on in the background. A type system for
  descriptors keeps programs from the calls that make the driver fault.
\<close>

section \<open>Programs\<close>

text \<open>The calls of a program, and its accesses to the memory that is mapped behind a descriptor.\<close>

datatype request =
    ROpen string
  | RClose int
  | RIoctl int u32 user_arg "dicedev_ioctl_seed option"
  | RMmap int
  | RLoad int nat
  | RStore int nat u32
  | RLoadByte int nat
  | RStoreByte int nat u8

text \<open>A program ends with an exit code and its last message, or by an assertion or a signal.\<close>

datatype prog =
    Exit int string
  | Abort
  | Killed
  | Call request "answer \<Rightarrow> prog"

definition ENOENT :: errno where "ENOENT = Errno 2"

text \<open>\<open>newfd\<close> is the descriptor that the kernel would give out, or the error that it has none.\<close>

fun perform :: "env \<Rightarrow> errno + int \<Rightarrow> request \<Rightarrow> system \<Rightarrow> (answer \<times> system) result" where
  "perform E newfd (ROpen path) \<sigma> = (case newfd of
     Inl e \<Rightarrow> Inr (Failed e, \<sigma>)
   | Inr fd \<Rightarrow> if path = ''/dev/dicedev0'' then handle E (Open fd) \<sigma> else Inr (Failed ENOENT, \<sigma>))"
| "perform E newfd (RClose fd) \<sigma> = handle E (Close fd) \<sigma>"
| "perform E newfd (RIoctl fd cmd arg sd) \<sigma> = handle E (Ioctl fd newfd cmd arg sd) \<sigma>"
| "perform E newfd (RMmap fd) \<sigma> = handle E (Mmap fd) \<sigma>"
| "perform E newfd (RLoad fd i) \<sigma> = handle E (Load fd i) \<sigma>"
| "perform E newfd (RStore fd i v) \<sigma> = handle E (Store fd i v) \<sigma>"
| "perform E newfd (RLoadByte fd i) \<sigma> = handle E (LoadByte fd i) \<sigma>"
| "perform E newfd (RStoreByte fd i v) \<sigma> = handle E (StoreByte fd i v) \<sigma>"

definition fresh_fd :: "errno + int \<Rightarrow> system \<Rightarrow> bool" where
  "fresh_fd newfd \<sigma> = (case newfd of Inl _ \<Rightarrow> True | Inr fd \<Rightarrow> 0 \<le> fd \<and> fds (kern \<sigma>) fd = None)"

subsection \<open>Running\<close>

text \<open>
  A program that sleeps in a call makes it again when it is woken up, except that \<open>close\<close> goes on
  with the release where it slept.
\<close>

datatype process = Run prog | Closing ptr ptr prog

inductive pstep :: "env \<Rightarrow> process \<times> system \<Rightarrow> process \<times> system \<Rightarrow> bool" for E where
  other: "is_background ev \<Longrightarrow> enabled ev \<sigma> \<Longrightarrow> handle E ev \<sigma> = Inr (a, \<sigma>') \<Longrightarrow> pstep E (p, \<sigma>) (p, \<sigma>')"
| call: "fresh_fd newfd \<sigma> \<Longrightarrow> perform E newfd r \<sigma> = Inr (a, \<sigma>') \<Longrightarrow> a \<noteq> Blocked \<Longrightarrow> pstep E (Run (Call r k), \<sigma>) (Run (k a), \<sigma>')"
| sleep: "fresh_fd newfd \<sigma> \<Longrightarrow> perform E newfd r \<sigma> = Inr (Blocked, \<sigma>') \<Longrightarrow> \<forall>fd. r \<noteq> RClose fd \<Longrightarrow>
    pstep E (Run (Call r k), \<sigma>) (Run (Call r k), \<sigma>')"
| close: "perform E newfd (RClose fd) \<sigma> = Inr (Blocked, \<sigma>') \<Longrightarrow> closing \<sigma>' = (fp, c) # cl \<Longrightarrow>
    pstep E (Run (Call (RClose fd) k), \<sigma>) (Closing fp c (k Done), \<sigma>')"
| wake: "handle E (Continue fp c) \<sigma> = Inr (a, \<sigma>') \<Longrightarrow>
    pstep E (Closing fp c p, \<sigma>) (if a = Blocked then Closing fp c p else Run p, \<sigma>')"

text \<open>The next call of the program makes the driver fault.\<close>

fun crashes :: "env \<Rightarrow> process \<Rightarrow> system \<Rightarrow> bool" where
  "crashes E (Run (Call r k)) \<sigma> = (\<exists>newfd f. fresh_fd newfd \<sigma> \<and> perform E newfd r \<sigma> = Inl f)"
| "crashes E (Closing fp c p) \<sigma> = (\<exists>f. handle E (Continue fp c) \<sigma> = Inl f)"
| "crashes E (Run _) \<sigma> = False"

text \<open>
  A program ends as \<open>Q\<close> says, whatever goes on in the background and whichever descriptors the
  kernel gives out, as long as it has some; no call faults or sleeps.
\<close>

primrec passes :: "env \<Rightarrow> (int \<Rightarrow> string \<Rightarrow> bool) \<Rightarrow> prog \<Rightarrow> system \<Rightarrow> bool" where
  "passes E Q (Exit n msg) \<sigma> = Q n msg"
| "passes E Q Abort \<sigma> = False"
| "passes E Q Killed \<sigma> = False"
| "passes E Q (Call r k) \<sigma> = (\<forall>\<sigma>' newfd. background E \<sigma> \<sigma>' \<longrightarrow> 0 \<le> newfd \<longrightarrow> fds (kern \<sigma>') newfd = None \<longrightarrow>
     (\<exists>a \<sigma>''. perform E (Inr newfd) r \<sigma>' = Inr (a, \<sigma>'') \<and> a \<noteq> Blocked \<and> passes E Q (k a) \<sigma>''))"

section \<open>The functions of \<open>common.h\<close>\<close>

text \<open>What a system call returns to C.\<close>

fun ret :: "answer \<Rightarrow> int" where
  "ret (Failed _) = -1"
| "ret (Value n) = n"
| "ret _ = 0"

definition syserr :: "string \<Rightarrow> prog" where
  "syserr fmt = Exit 1 fmt"

definition do_open :: "string \<Rightarrow> (int \<Rightarrow> prog) \<Rightarrow> prog" where
  "do_open path k = Call (ROpen path) (\<lambda>a. let fd = ret a in if fd < 0 then syserr ''open'' else k fd)"

definition do_open0 :: "(int \<Rightarrow> prog) \<Rightarrow> prog" where
  "do_open0 k = do_open ''/dev/dicedev0'' k"

definition do_open1 :: "(int \<Rightarrow> prog) \<Rightarrow> prog" where
  "do_open1 k = do_open ''/dev/dicedev1'' k"

definition do_create_buf :: "int \<Rightarrow> int \<Rightarrow> u64 \<Rightarrow> (int \<Rightarrow> prog) \<Rightarrow> prog" where
  "do_create_buf fd sz al k = (let cb = \<lparr>cs_size = sz, cs_allowed = al\<rparr> in
     Call (RIoctl fd DICEDEV_IOCTL_CREATE_SET (no_arg\<lparr>as_create_set := Some cb\<rparr>) None)
       (\<lambda>a. let bfd = ret a in if bfd < 0 then syserr ''create_buffer'' else k bfd))"

definition do_close :: "int \<Rightarrow> prog \<Rightarrow> prog" where
  "do_close fd k = Call (RClose fd) (\<lambda>a. if ret a < 0 then syserr ''close'' else k)"

text \<open>\<open>munmap\<close> does not reach the driver.\<close>

definition do_munmap :: "int \<Rightarrow> nat \<Rightarrow> nat \<Rightarrow> prog \<Rightarrow> prog" where
  "do_munmap bfd addr len k = k"

definition run_arg :: "int \<Rightarrow> u32 \<Rightarrow> u32 \<Rightarrow> int \<Rightarrow> user_arg" where
  "run_arg cfd addr sz bfd = no_arg\<lparr>as_run := Some \<lparr>run_cfd = cfd, run_addr = addr, run_size = sz, run_bfd = bfd\<rparr>\<rparr>"

definition do_run :: "int \<Rightarrow> int \<Rightarrow> u32 \<Rightarrow> u32 \<Rightarrow> int \<Rightarrow> prog \<Rightarrow> prog" where
  "do_run fd cfd addr sz bfd k = Call (RIoctl fd DICEDEV_IOCTL_RUN (run_arg cfd addr sz bfd) None)
     (\<lambda>a. if ret a \<noteq> 0 then syserr ''run'' else k)"

definition do_run_with_err :: "int \<Rightarrow> int \<Rightarrow> u32 \<Rightarrow> u32 \<Rightarrow> int \<Rightarrow> prog \<Rightarrow> prog" where
  "do_run_with_err fd cfd addr sz bfd k = Call (RIoctl fd DICEDEV_IOCTL_RUN (run_arg cfd addr sz bfd) None)
     (\<lambda>a. if ret a \<noteq> -1 then syserr ''run should fail'' else k)"

definition wait_arg :: "u32 \<Rightarrow> user_arg" where
  "wait_arg cnt = no_arg\<lparr>as_wait := Some \<lparr>wait_cnt = cnt\<rparr>\<rparr>"

definition do_wait :: "int \<Rightarrow> u32 \<Rightarrow> prog \<Rightarrow> prog" where
  "do_wait fd cnt k = Call (RIoctl fd DICEDEV_IOCTL_WAIT (wait_arg cnt) None) (\<lambda>a. if ret a \<noteq> 0 then syserr ''wait'' else k)"

definition do_wait_for_err :: "int \<Rightarrow> u32 \<Rightarrow> prog \<Rightarrow> prog" where
  "do_wait_for_err fd cnt k = Call (RIoctl fd DICEDEV_IOCTL_WAIT (wait_arg cnt) None)
     (\<lambda>a. if ret a \<noteq> -1 then syserr ''wait should fail'' else k)"

definition do_run_and_wait_with_err :: "int \<Rightarrow> int \<Rightarrow> u32 \<Rightarrow> u32 \<Rightarrow> int \<Rightarrow> prog \<Rightarrow> prog" where
  "do_run_and_wait_with_err fd cfd addr sz bfd k = Call (RIoctl fd DICEDEV_IOCTL_RUN (run_arg cfd addr sz bfd) None)
     (\<lambda>a. if ret a \<noteq> 0 then syserr ''run failed'' else do_wait_for_err fd 0 k)"

lemmas common_defs = syserr_def do_open_def do_open0_def do_open1_def do_create_buf_def do_close_def do_munmap_def do_run_def
  do_run_with_err_def do_wait_def do_wait_for_err_def do_run_and_wait_with_err_def run_arg_def wait_arg_def

section \<open>A type system for descriptors\<close>

text \<open>
  \<open>\<Gamma>\<close> says which descriptors are known to be contexts and buffers. The driver trusts the two descriptors
  of a run, so they have to be buffers.
\<close>

fun request_ok :: "request \<Rightarrow> (int \<rightharpoonup> fd_kind) \<Rightarrow> bool" where
  "request_ok (RIoctl fd cmd arg sd) \<Gamma> = (cmd = DICEDEV_IOCTL_RUN \<longrightarrow> (case as_run arg of None \<Rightarrow> True
     | Some r \<Rightarrow> \<Gamma> (run_cfd r) = Some Buffer \<and> \<Gamma> (run_bfd r) = Some Buffer))"
| "request_ok _ \<Gamma> = True"

fun kinds_after :: "request \<Rightarrow> answer \<Rightarrow> (int \<rightharpoonup> fd_kind) \<Rightarrow> (int \<rightharpoonup> fd_kind)" where
  "kinds_after (ROpen path) (Value n) \<Gamma> = \<Gamma>(n \<mapsto> Context)"
| "kinds_after (RIoctl fd cmd arg sd) (Value n) \<Gamma> =
     (if cmd = DICEDEV_IOCTL_CREATE_SET \<and> \<Gamma> fd = Some Context then \<Gamma>(n \<mapsto> Buffer) else \<Gamma>)"
| "kinds_after (RClose fd) a \<Gamma> = (if \<Gamma> fd = Some Buffer then \<Gamma>(fd := None) else Map.empty)"
| "kinds_after _ _ \<Gamma> = \<Gamma>"

text \<open>The answers that a call can have: a new descriptor is none of the known ones.\<close>

fun possible :: "request \<Rightarrow> answer \<Rightarrow> (int \<rightharpoonup> fd_kind) \<Rightarrow> bool" where
  "possible (ROpen path) a \<Gamma> = (case a of Value n \<Rightarrow> \<Gamma> n = None | Failed _ \<Rightarrow> True | _ \<Rightarrow> False)"
| "possible (RIoctl fd cmd arg sd) a \<Gamma> =
     (case a of Value n \<Rightarrow> cmd = DICEDEV_IOCTL_CREATE_SET \<and> \<Gamma> fd = Some Context \<longrightarrow> \<Gamma> n = None | Failed _ \<Rightarrow> True | _ \<Rightarrow> False)"
| "possible _ a \<Gamma> = True"

primrec well_typed :: "prog \<Rightarrow> (int \<rightharpoonup> fd_kind) \<Rightarrow> bool" where
  "well_typed (Exit n msg) \<Gamma> = True"
| "well_typed Abort \<Gamma> = True"
| "well_typed Killed \<Gamma> = True"
| "well_typed (Call r k) \<Gamma> = (request_ok r \<Gamma> \<and> (\<forall>a. possible r a \<Gamma> \<longrightarrow> well_typed (k a) (kinds_after r a \<Gamma>)))"

subsection \<open>What calls do to the kinds\<close>

lemma same_kinds: "same_heap s s' \<Longrightarrow> kind_of s' = kind_of s"
  by (rule kind_of_cong) (simp_all add: same_heap_def)

lemma fd_added_kinds:
  assumes h: "heap_inv E d s" and s': "files s fp = None" "fds s fd = None" "files s' = (files s)(fp \<mapsto> f)" "fds s' = (fds s)(fd \<mapsto> fp)"
    and k: "kind_of s' fd = Some k"
  shows "kind_of s' = (kind_of s)(fd \<mapsto> k)"
proof -
  have "g \<noteq> fp" if "fds s x = Some g" for x g using that heap_invD(4) [OF h, of x] s'(1) unfolding fd_sound_alt by auto
  then have "kind_of s' x = kind_of s x" if "x \<noteq> fd" for x using kind_of_frame [OF h, of fd s' x] s'(3,4) that by auto
  then show ?thesis using k by (simp add: fun_eq_iff)
qed

lemma opened_kinds:
  assumes h: "heap_inv E d s" and fd: "fds s fd = None"
  shows "kind_of (opened d fd s) = (kind_of s)(fd \<mapsto> Context)"
proof -
  have "files s (next_ptr (mem s)) = None" by (rule fresh_None [OF heap_below(8) [OF h]]) simp
  then show ?thesis by (rule fd_added_kinds [OF h _ fd]) (simp_all add: opened_def Let_def kind_of_def)
qed

lemma unchanged_kinds:
  assumes h: "heap_inv E d s" and u: "unchanged s s'"
  shows "kind_of s' = kind_of s"
proof
  fix x
  have "g < next_ptr (mem s)" if g: "fds s x = Some g" for g
  proof -
    obtain f where "files s g = Some f" using g heap_invD(4) [OF h, of x] unfolding fd_sound_alt by auto
    then show ?thesis using heap_below(8) [OF h] by blast
  qed
  moreover have "fds s' = fds s" using u by (simp add: unchanged_def same_kernel_def)
  moreover have "files s' g = files s g" if "g < next_ptr (mem s)" for g
    using u that by (auto simp: unchanged_def)
  ultimately show "kind_of s' x = kind_of s x" by (cases "fds s x") (simp_all add: kind_of_def)
qed

lemma create_set_kinds:
  assumes inv: "sys_inv E w dv s" and c: "ctxs s c = Some cx" and fd: "\<And>fd. newfd = Inr fd \<Longrightarrow> fds s fd = None"
    and r: "dicedev_ioctl_create_set E newfd c arg s = Inr (r, s')"
  shows "case r of Inl _ \<Rightarrow> kind_of s' = kind_of s | Inr fd \<Rightarrow> newfd = Inr fd \<and> kind_of s' = (kind_of s)(fd \<mapsto> Buffer)"
proof -
  have h: "heap_inv E (wt_dev w) s" using inv by (simp add: sys_inv_def)
  note d = sys_inv_dev [OF inv]
  have "buff_ids s (next_ptr (mem s)) = None" by (rule fresh_None [OF heap_below(3) [OF h]]) simp
  then have fresh: "buffs s (next_ptr (mem s)) = None" by (simp add: buff_ids_def)
  have dc: "devs s (ctx_dev cx) = Some dv" using d heap_ctx(1) [OF h c] by simp
  have out: "case r of Inl e \<Rightarrow> unchanged s s' | Inr fd \<Rightarrow> newfd = Inr fd \<and> (\<exists>cs. set_made E c cs fd s s')"
    using create_set_spec [OF heap_below(1) [OF h] c dc _ fresh heap_below(7) [OF h], of E newfd arg] r d by (auto split: sum.splits)
  show ?thesis
  proof (cases r)
    case (Inl e)
    then show ?thesis using out unchanged_kinds [OF h] by simp
  next
    case (Inr n)
    then obtain cs where m: "set_made E c cs n s s'" and n: "newfd = Inr n" "fds s n = None" using out fd by auto
    obtain b fp where b: "next_ptr (mem s) \<le> fp" "files s' = (files s)(fp \<mapsto> \<lparr>private_data = PrivBuff b, f_count = 2\<rparr>)" "fds s' = (fds s)(n \<mapsto> fp)"
      using m unfolding set_made_def by (elim exE conjE) (rule that, auto)
    have "files s fp = None" by (rule fresh_None [OF heap_below(8) [OF h]]) (use b(1) in simp)
    then have "kind_of s' = (kind_of s)(n \<mapsto> Buffer)" by (rule fd_added_kinds [OF h _ n(2) b(2,3)]) (simp add: kind_of_def b)
    then show ?thesis using Inr n(1) by simp
  qed
qed

lemma answered_Value:
  "answered \<sigma> g y = Inr (a, \<sigma>') \<Longrightarrow> a \<noteq> Blocked \<Longrightarrow> (\<And>x. \<exists>n. g x = Value n) \<Longrightarrow> (\<exists>n. a = Value n) \<or> (\<exists>e. a = Failed e)"
  by (cases y) (auto split: sum.splits)

lemma answered_kinds:
  assumes "m = Inr (r, s')" "kind_of s' = kind_of (kern \<sigma>)" "bindR (returns m) (answered \<sigma> g) = Inr (a, \<sigma>')"
  shows "kind_of (kern \<sigma>') = kind_of (kern \<sigma>)"
  using assms by (auto simp: returns_def)

text \<open>Only \<open>DICEDEV_IOCTL_CREATE_SET\<close> on a context adds a descriptor.\<close>

definition made_buffer :: "int \<Rightarrow> errno + int \<Rightarrow> u32 \<Rightarrow> answer \<Rightarrow> (int \<rightharpoonup> fd_kind) \<Rightarrow> int \<Rightarrow> bool" where
  "made_buffer fd newfd cmd a \<Gamma> n \<longleftrightarrow> a = Value n \<and> newfd = Inr n \<and> cmd = DICEDEV_IOCTL_CREATE_SET \<and> \<Gamma> fd = Some Context"

lemma create_made:
  assumes ok: "system_ok E \<sigma>" and f: "fds (kern \<sigma>) fd = Some fp" "files (kern \<sigma>) fp = Some f" "private_data f = PrivCtx c"
    and new: "\<And>fd. newfd = Inr fd \<Longrightarrow> fds (kern \<sigma>) fd = None"
    and r: "bindR (returns (dicedev_ioctl_create_set E newfd c x (kern \<sigma>))) (answered \<sigma> Value) = Inr (a, \<sigma>')"
  shows "(kind_of (kern \<sigma>') = kind_of (kern \<sigma>) \<and> (\<forall>n. a \<noteq> Value n)) \<or>
    (\<exists>n. a = Value n \<and> newfd = Inr n \<and> kind_of (kern \<sigma>') = (kind_of (kern \<sigma>))(n \<mapsto> Buffer))"
proof -
  obtain dv where i: "sys_inv E (thread \<sigma>) dv (kern \<sigma>)" using system_okE [OF ok] by metis
  obtain cx where cx: "ctxs (kern \<sigma>) c = Some cx" using ctx_fd(1) [OF ok f] by blast
  obtain x' s' where s': "dicedev_ioctl_create_set E newfd c x (kern \<sigma>) = Inr (x', s')" "\<sigma>' = with_kern s' \<sigma>" "a = (case x' of Inl e \<Rightarrow> Failed e | Inr x \<Rightarrow> Value x)"
    using r by (auto simp: returns_def)
  show ?thesis using create_set_kinds [OF i cx new s'(1)] s'(2,3) by (cases x') simp_all
qed

lemma run_kinds:
  assumes ok: "system_ok E \<sigma>" and c: "ctxs (kern \<sigma>) c = Some cx" and r: "dicedev_ioctl_run E c x (kern \<sigma>) = Inr (y, s')"
  shows "kind_of s' = kind_of (kern \<sigma>)"
proof -
  obtain dv where i: "sys_inv E (thread \<sigma>) dv (kern \<sigma>)" "all_listed (kern \<sigma>)" using system_okE [OF ok] by metis
  show ?thesis
  proof (cases x)
    case None
    then show ?thesis using r by (simp add: dicedev_ioctl_run_def)
  next
    case (Some u)
    have "same_heap (kern \<sigma>) s'" if "run_fds_ok u (kern \<sigma>)" using sys_run [OF i c that] r Some by auto
    moreover have "s' = kern \<sigma>" if "\<not> run_fds_ok u (kern \<sigma>)" using run_bad_fds [OF ok_heap [OF ok] that, of c] r Some by auto
    ultimately show ?thesis using same_kinds by blast
  qed
qed

lemma ctx_ioctl_kinds:
  assumes ok: "system_ok E \<sigma>" and f: "fds (kern \<sigma>) fd = Some fp" "files (kern \<sigma>) fp = Some f" "private_data f = PrivCtx c"
    and cmd: "cmd \<noteq> DICEDEV_IOCTL_CREATE_SET"
    and r: "bindR (dicedev_ioctl E newfd fp cmd arg (kern \<sigma>)) (answered \<sigma> Value) = Inr (a, \<sigma>')"
  shows "kind_of (kern \<sigma>') = kind_of (kern \<sigma>)"
proof -
  obtain dv where i: "sys_inv E (thread \<sigma>) dv (kern \<sigma>)" using system_okE [OF ok] by metis
  obtain cx where cx: "ctxs (kern \<sigma>) c = Some cx" "ctx_dev cx = wt_dev (thread \<sigma>)" using ctx_fd(1) [OF ok f] by blast
  obtain y s' where s: "dicedev_ioctl_seed_increment c (as_seed_increment arg) (kern \<sigma>) = Inr (y, s')" "kind_of s' = kind_of (kern \<sigma>)"
    using sys_seed_increment [OF i cx] same_kinds by blast
  consider "cmd = DICEDEV_IOCTL_RUN" | "cmd = DICEDEV_IOCTL_WAIT" | "cmd = DICEDEV_IOCTL_ENABLE_SEED_INCREMENT"
    | "cmd \<notin> {DICEDEV_IOCTL_CREATE_SET, DICEDEV_IOCTL_RUN, DICEDEV_IOCTL_WAIT, DICEDEV_IOCTL_ENABLE_SEED_INCREMENT}" using cmd by blast
  then show ?thesis
  proof cases
    case 1
    then show ?thesis using r f(2,3) by (auto simp: dicedev_ioctl_def as_ctx_def returns_def dest!: run_kinds [OF ok cx(1)])
  next
    case 2
    then show ?thesis using r f(2,3) cx(1)
      by (cases "as_wait arg") (auto simp: dicedev_ioctl_def as_ctx_def dicedev_ioctl_wait_def split: if_splits)
  next
    case 3
    then show ?thesis using r f(2,3) s by (auto simp: dicedev_ioctl_def as_ctx_def returns_def)
  qed (use r f(2,3) in \<open>auto simp: dicedev_ioctl_def as_ctx_def\<close>)
qed

lemma ioctl_kinds:
  assumes ok: "system_ok E \<sigma>" and new: "\<And>fd. newfd = Inr fd \<Longrightarrow> fds (kern \<sigma>) fd = None"
    and r: "handle E (Ioctl fd newfd cmd arg sd) \<sigma> = Inr (a, \<sigma>')"
  shows "(kind_of (kern \<sigma>') = kind_of (kern \<sigma>) \<and> \<not> (cmd = DICEDEV_IOCTL_CREATE_SET \<and> kind_of (kern \<sigma>) fd = Some Context \<and> (\<exists>n. a = Value n))) \<or>
    (\<exists>n. made_buffer fd newfd cmd a (kind_of (kern \<sigma>)) n \<and> kind_of (kern \<sigma>') = (kind_of (kern \<sigma>))(n \<mapsto> Buffer))"
proof (cases "fds (kern \<sigma>) fd")
  case None
  then show ?thesis using r by (auto simp: on_fd_def)
next
  case (Some fp)
  then obtain f where f: "fds (kern \<sigma>) fd = Some fp" "files (kern \<sigma>) fp = Some f"
    using heap_invD(4) [OF ok_heap [OF ok]] unfolding fd_sound_alt by blast
  obtain dv where i: "sys_inv E (thread \<sigma>) dv (kern \<sigma>)" using system_okE [OF ok] by metis
  show ?thesis
  proof (cases "private_data f")
    case (PrivCtx c)
    have k: "kind_of (kern \<sigma>) fd = Some Context" using f PrivCtx by (simp add: kind_of_def)
    have b: "bindR (dicedev_ioctl E newfd fp cmd arg (kern \<sigma>)) (answered \<sigma> Value) = Inr (a, \<sigma>')"
      using r f PrivCtx by (simp add: on_fd_def del: bindR_eq_Inr)
    show ?thesis
    proof (cases "cmd = DICEDEV_IOCTL_CREATE_SET")
      case True
      then have "bindR (returns (dicedev_ioctl_create_set E newfd c (as_create_set arg) (kern \<sigma>))) (answered \<sigma> Value) = Inr (a, \<sigma>')"
        using b f(2) PrivCtx by (simp add: dicedev_ioctl_def as_ctx_def del: bindR_eq_Inr)
      then show ?thesis using create_made [OF ok f PrivCtx new] True k unfolding made_buffer_def by blast
    next
      case False
      then show ?thesis using ctx_ioctl_kinds [OF ok f PrivCtx False b] by blast
    qed
  next
    case (PrivBuff b)
    then have b: "bindR (returns (dicedev_buffer_ioctl fp cmd sd (kern \<sigma>))) (answered \<sigma> (\<lambda>_. Value 0)) = Inr (a, \<sigma>')"
      using r f by (simp add: on_fd_def del: bindR_eq_Inr)
    obtain y s' where "dicedev_buffer_ioctl fp cmd sd (kern \<sigma>) = Inr (y, s')" "kind_of s' = kind_of (kern \<sigma>)"
      using sys_buffer_ioctl [OF i f PrivBuff, of cmd sd] same_kinds by blast
    then have "kind_of (kern \<sigma>') = kind_of (kern \<sigma>)" using b by (rule answered_kinds)
    moreover have "kind_of (kern \<sigma>) fd \<noteq> Some Context" using f PrivBuff by (simp add: kind_of_def)
    ultimately show ?thesis by blast
  qed (use r f in \<open>auto simp: on_fd_def\<close>)
qed

lemma close_kinds:
  assumes ok: "system_ok E \<sigma>" and fd: "kind_of (kern \<sigma>) fd = Some Buffer" and r: "handle E (Close fd) \<sigma> = Inr (a, \<sigma>')"
  shows "a = Done \<and> kind_of (kern \<sigma>') = (kind_of (kern \<sigma>))(fd := None)"
proof -
  obtain dv where i: "sys_inv E (thread \<sigma>) dv (kern \<sigma>)" using system_okE [OF ok] by metis
  note h = ok_heap [OF ok]
  obtain fp f b where f: "fds (kern \<sigma>) fd = Some fp" "files (kern \<sigma>) fp = Some f" "private_data f = PrivBuff b"
    using fd unfolding kind_of_Some by blast
  obtain s' where s': "fput E fp ((kern \<sigma>)\<lparr>fds := (fds (kern \<sigma>))(fd := None)\<rparr>) = Inr s'" "fds s' = (fds (kern \<sigma>))(fd := None)"
      "\<forall>x. x \<noteq> fp \<longrightarrow> files s' x = files (kern \<sigma>) x"
    using sys_close_buffer_fd [OF i f] by blast
  have a: "a = Done" "kern \<sigma>' = s'" using r f s'(1) by (auto simp: on_fd_def)
  have "g \<noteq> fp" if "fds (kern \<sigma>) x = Some g" "x \<noteq> fd" for x g using heap_invD(5) [OF h] f(1) that unfolding unshared_def by blast
  then have "kind_of s' x = kind_of (kern \<sigma>) x" if "x \<noteq> fd" for x using kind_of_frame [OF h, of fd s' x] s'(2,3) that by auto
  moreover have "kind_of s' fd = None" using s'(2) by (simp add: kind_of_def)
  ultimately show ?thesis using a by (simp add: fun_eq_iff)
qed

lemma on_fdE:
  assumes "on_fd fd k \<sigma> = Inr (a, \<sigma>')"
  obtains "\<sigma>' = \<sigma>" "a = Failed EBADF" | fp f where "fds (kern \<sigma>) fd = Some fp" "files (kern \<sigma>) fp = Some f" "k fp (private_data f) = Inr (a, \<sigma>')"
  using assms by (auto simp: on_fd_def split: option.splits)

lemma on_bufferE:
  assumes "on_buffer fd k \<sigma> = Inr (a, \<sigma>')"
  obtains "\<sigma>' = \<sigma>" | b where "k b = Inr (a, \<sigma>')"
  using assms unfolding on_buffer_def by (rule on_fdE) (auto split: private_data.splits)

lemma touchE:
  assumes "touch b i k \<sigma> = Inr (a, \<sigma>')"
  obtains "\<sigma>' = \<sigma>" | q ws where "k q ws = Inr (a, \<sigma>')"
  using assms by (auto simp: touch_def split: option.splits)

lemma written_kinds [simp]: "kind_of (page_written q ws s) = kind_of s"
  by (rule kind_of_cong) simp_all

lemma mapped_kinds:
  "handle E (Load fd i) \<sigma> = Inr (a, \<sigma>') \<Longrightarrow> kind_of (kern \<sigma>') = kind_of (kern \<sigma>)"
  "handle E (Store fd i v) \<sigma> = Inr (a, \<sigma>') \<Longrightarrow> kind_of (kern \<sigma>') = kind_of (kern \<sigma>)"
  "handle E (LoadByte fd i) \<sigma> = Inr (a, \<sigma>') \<Longrightarrow> kind_of (kern \<sigma>') = kind_of (kern \<sigma>)"
  "handle E (StoreByte fd i x) \<sigma> = Inr (a, \<sigma>') \<Longrightarrow> kind_of (kern \<sigma>') = kind_of (kern \<sigma>)"
  unfolding handle.simps Let_def by (auto elim!: on_bufferE touchE)

lemma mmap_kinds: "handle E (Mmap fd) \<sigma> = Inr (a, \<sigma>') \<Longrightarrow> kind_of (kern \<sigma>') = kind_of (kern \<sigma>)"
  unfolding handle.simps by (erule on_fdE) (auto simp: dicedev_buffer_mmap_def returns_def as_buff_def split: private_data.splits)

lemma open_kinds:
  assumes ok: "system_ok E \<sigma>" and fd: "fds (kern \<sigma>) fd = None" and r: "handle E (Open fd) \<sigma> = Inr (a, \<sigma>')"
  shows "(kind_of (kern \<sigma>') = kind_of (kern \<sigma>) \<and> (\<exists>e. a = Failed e)) \<or> (a = Value fd \<and> kind_of (kern \<sigma>') = (kind_of (kern \<sigma>))(fd \<mapsto> Context))"
proof -
  note h = ok_heap [OF ok]
  have "files (kern \<sigma>) (next_ptr (mem (kern \<sigma>))) = None" by (rule fresh_None [OF heap_below(8) [OF h]]) simp
  note run = open_run [OF this, of E "wt_dev (thread \<sigma>)" fd]
  have m: "kind_of (s\<lparr>mem := m\<rparr>) = kind_of s" for s m by (rule kind_of_cong) simp_all
  show ?thesis using r run opened_kinds [OF h fd] by (auto simp: returns_def m split: if_splits)
qed

subsection \<open>Well-typed programs do not make the driver fault\<close>

lemma map_le_fresh: "\<Gamma> \<subseteq>\<^sub>m m \<Longrightarrow> m n = None \<Longrightarrow> \<Gamma> \<subseteq>\<^sub>m m(n \<mapsto> x)"
  by (auto simp: map_le_def dom_def)

lemma map_le_del: "\<Gamma> \<subseteq>\<^sub>m m \<Longrightarrow> \<Gamma>(n := None) \<subseteq>\<^sub>m m(n := None)"
  by (auto simp: map_le_def dom_def)

text \<open>The event of a request.\<close>

lemma perform_fine:
  assumes ok: "system_ok E \<sigma>" and new: "fresh_fd newfd \<sigma>" and r: "request_ok r \<Gamma>" and \<Gamma>: "\<Gamma> \<subseteq>\<^sub>m kind_of (kern \<sigma>)"
  shows "\<exists>a \<sigma>'. perform E newfd r \<sigma> = Inr (a, \<sigma>') \<and> system_ok E \<sigma>'"
proof -
  have fine: "\<exists>a \<sigma>'. handle E ev \<sigma> = Inr (a, \<sigma>') \<and> system_ok E \<sigma>'" if en: "enabled ev \<sigma>" and no: "\<And>f. \<not> known_fault E ev \<sigma> f" for ev
    using handle_fine [OF ok en] no unfolding fine_def by (auto split: sum.splits)
  have buf: "\<exists>b bf. names_buffer x b bf (kern \<sigma>)" if x: "\<Gamma> x = Some Buffer" for x
  proof -
    have "kind_of (kern \<sigma>) x = Some Buffer" using \<Gamma> x by (metis domI map_le_def)
    then obtain fp f b where f: "fds (kern \<sigma>) x = Some fp" "files (kern \<sigma>) fp = Some f" "private_data f = PrivBuff b" unfolding kind_of_Some by blast
    then show ?thesis using buffer_fd [OF ok_heap [OF ok] f] unfolding names_buffer_def by metis
  qed
  show ?thesis
  proof (cases r)
    case (ROpen path)
    then show ?thesis using fine [of "Open _"] new ok by (auto simp: fresh_fd_def simp del: handle.simps split: sum.splits)
  next
    case (RIoctl fd cmd arg sd)
    have "enabled (Ioctl fd newfd cmd arg sd) \<sigma>" using new by (cases newfd) (auto simp: fresh_fd_def)
    moreover have "\<not> known_fault E (Ioctl fd newfd cmd arg sd) \<sigma> f" for f
      using r buf unfolding RIoctl by (auto simp: run_fds_ok_def)
    ultimately show ?thesis unfolding RIoctl perform.simps by (rule fine)
  qed (simp_all add: fine del: handle.simps)
qed

lemma kinds_preserved:
  assumes ok: "system_ok E \<sigma>" and new: "fresh_fd newfd \<sigma>" and \<Gamma>: "\<Gamma> \<subseteq>\<^sub>m kind_of (kern \<sigma>)" and p: "perform E newfd r \<sigma> = Inr (a, \<sigma>')"
  shows "kinds_after r a \<Gamma> \<subseteq>\<^sub>m kind_of (kern \<sigma>')"
proof -
  have free: "kind_of (kern \<sigma>) n = None" "fds (kern \<sigma>) n = None" if "newfd = Inr n" for n
    using new that by (simp_all add: fresh_fd_def kind_of_def)
  have known: "kind_of (kern \<sigma>) x = Some k" if x: "\<Gamma> x = Some k" for x k using \<Gamma> x by (metis domI map_le_def)
  show ?thesis
  proof (cases r)
    case (ROpen path)
    then consider n where "newfd = Inr n" "handle E (Open n) \<sigma> = Inr (a, \<sigma>')" | e where "a = Failed e" "\<sigma>' = \<sigma>"
      using p by (auto simp del: handle.simps split: sum.splits if_splits)
    then show ?thesis
    proof cases
      case 1
      show ?thesis using open_kinds [OF ok free(2) [OF 1(1)] 1(2)] \<Gamma> free(1) [OF 1(1)] ROpen by (auto simp: map_le_fresh map_le_upd)
    qed (use \<Gamma> ROpen in simp)
  next
    case (RClose fd)
    then have p: "handle E (Close fd) \<sigma> = Inr (a, \<sigma>')" using p by (simp del: handle.simps)
    show ?thesis using close_kinds [OF ok known p] \<Gamma> RClose by (auto simp: map_le_del)
  next
    case (RIoctl fd cmd arg sd)
    then have p: "handle E (Ioctl fd newfd cmd arg sd) \<sigma> = Inr (a, \<sigma>')" using p by (simp del: handle.simps)
    have k: "kinds_after r a \<Gamma> = \<Gamma> \<or> (\<exists>n. a = Value n \<and> cmd = DICEDEV_IOCTL_CREATE_SET \<and> \<Gamma> fd = Some Context \<and> kinds_after r a \<Gamma> = \<Gamma>(n \<mapsto> Buffer))"
      unfolding RIoctl by (cases a) auto
    have "\<Gamma> fd = Some Context \<Longrightarrow> kind_of (kern \<sigma>) fd = Some Context" by (rule known)
    then show ?thesis using k ioctl_kinds [OF ok free(2) p] \<Gamma> free(1) unfolding made_buffer_def
      by (elim disjE exE conjE) (auto simp: map_le_fresh map_le_upd)
  qed (use p \<Gamma> mapped_kinds mmap_kinds in \<open>simp_all del: handle.simps\<close>)
qed

lemma perform_possible:
  assumes ok: "system_ok E \<sigma>" and new: "fresh_fd newfd \<sigma>" and \<Gamma>: "\<Gamma> \<subseteq>\<^sub>m kind_of (kern \<sigma>)"
    and p: "perform E newfd r \<sigma> = Inr (a, \<sigma>')" "a \<noteq> Blocked"
  shows "possible r a \<Gamma>"
proof -
  have known: "kind_of (kern \<sigma>) x = Some k" if x: "\<Gamma> x = Some k" for x k using \<Gamma> x by (metis domI map_le_def)
  have free: "\<Gamma> n = None" "fds (kern \<sigma>) n = None" if "newfd = Inr n" for n
    using new that known [of n] by (cases "\<Gamma> n"; simp add: fresh_fd_def kind_of_def)+
  show ?thesis
  proof (cases r)
    case (ROpen path)
    then consider n where "newfd = Inr n" "handle E (Open n) \<sigma> = Inr (a, \<sigma>')" | e where "a = Failed e" "\<sigma>' = \<sigma>"
      using p(1) by (auto simp del: handle.simps split: sum.splits if_splits)
    then show ?thesis
    proof cases
      case 1
      show ?thesis using open_kinds [OF ok free(2) [OF 1(1)] 1(2)] free(1) [OF 1(1)] ROpen by auto
    qed (use ROpen in simp)
  next
    case (RIoctl fd cmd arg sd)
    then have i: "handle E (Ioctl fd newfd cmd arg sd) \<sigma> = Inr (a, \<sigma>')" using p by (simp del: handle.simps)
    then have "(\<exists>n. a = Value n) \<or> (\<exists>e. a = Failed e)" unfolding handle.simps
      using p(2) by (elim on_fdE) (auto dest: answered_Value split: private_data.splits)
    then show ?thesis using ioctl_kinds [OF ok free(2) i] free(1) known [of fd] unfolding made_buffer_def RIoctl by auto
  qed simp_all
qed

fun typed :: "process \<Rightarrow> system \<Rightarrow> bool" where
  "typed (Run p) \<sigma> = (\<exists>\<Gamma>. well_typed p \<Gamma> \<and> \<Gamma> \<subseteq>\<^sub>m kind_of (kern \<sigma>))"
| "typed (Closing fp c p) \<sigma> = (well_typed p Map.empty \<and> (fp, c) \<in> set (closing \<sigma>))"

lemma typed_undisturbed: "undisturbed \<sigma> \<sigma>' \<Longrightarrow> typed p \<sigma> \<Longrightarrow> typed p \<sigma>'"
  by (cases p) (auto simp: undisturbed_def kind_of_cong [of "kern \<sigma>'" "kern \<sigma>"])

lemma released_answer: "released fp c r \<sigma> = Inr (Blocked, \<sigma>') \<Longrightarrow> (fp, c) \<in> set (closing \<sigma>')"
  by (cases r) auto

lemma pstep_typed:
  assumes s: "pstep E (p, \<sigma>) (p', \<sigma>')" and ok: "system_ok E \<sigma>" and t: "typed p \<sigma>"
  shows "system_ok E \<sigma>' \<and> typed p' \<sigma>'"
  using s
proof (cases rule: pstep.cases)
  case (other ev a)
  then show ?thesis using background_step [OF ok other(2-4)] typed_undisturbed [of \<sigma> \<sigma>' p] t by simp
next
  case (call newfd r a k)
  obtain \<Gamma> where \<Gamma>: "request_ok r \<Gamma>" "possible r a \<Gamma> \<Longrightarrow> well_typed (k a) (kinds_after r a \<Gamma>)" "\<Gamma> \<subseteq>\<^sub>m kind_of (kern \<sigma>)" using t call(1) by auto
  have "system_ok E \<sigma>'" using perform_fine [OF ok call(3) \<Gamma>(1,3)] call(4) by simp
  moreover have "typed p' \<sigma>'" unfolding call(2) typed.simps 
    using kinds_preserved [OF ok call(3) \<Gamma>(3) call(4)] \<Gamma>(2) [OF perform_possible [OF ok call(3) \<Gamma>(3) call(4,5)]] by blast
  ultimately show ?thesis by simp
next
  case (sleep newfd r k)
  obtain \<Gamma> where \<Gamma>: "request_ok r \<Gamma>" "well_typed (Call r k) \<Gamma>" "\<Gamma> \<subseteq>\<^sub>m kind_of (kern \<sigma>)" using t sleep(1) by auto
  have "kinds_after r Blocked \<Gamma> = \<Gamma>" using sleep(5) by (cases r) auto
  then have "\<Gamma> \<subseteq>\<^sub>m kind_of (kern \<sigma>')" using kinds_preserved [OF ok sleep(3) \<Gamma>(3) sleep(4)] by simp
  then have "typed p' \<sigma>'" unfolding sleep(2) typed.simps using \<Gamma>(2) by blast
  then show ?thesis using perform_fine [OF ok sleep(3) \<Gamma>(1,3)] sleep(4) by simp
next
  case (close newfd fd fp c cl k)
  obtain \<Gamma> where \<Gamma>: "well_typed (k Done) (kinds_after (RClose fd) Done \<Gamma>)" "\<Gamma> \<subseteq>\<^sub>m kind_of (kern \<sigma>)" using t close(1) by auto
  have b: "handle E (Close fd) \<sigma> = Inr (Blocked, \<sigma>')" using close(3) by (simp del: handle.simps)
  have "\<Gamma> fd \<noteq> Some Buffer"
  proof
    assume "\<Gamma> fd = Some Buffer"
    then have "kind_of (kern \<sigma>) fd = Some Buffer" using \<Gamma>(2) by (metis domI map_le_def)
    from close_kinds [OF ok this b] show False by simp
  qed
  then have "typed p' \<sigma>'" using \<Gamma>(1) close(2,4) by simp
  then show ?thesis using handle_fine [OF ok, of "Close fd"] b by (simp del: handle.simps)
next
  case (wake fp c a q)
  have "enabled (Continue fp c) \<sigma>" using t wake(1) by simp
  from handle_fine [OF ok this] have "system_ok E \<sigma>'" using wake(3) by (simp del: handle.simps)
  moreover have "(fp, c) \<in> set (closing \<sigma>')" if "a = Blocked" using wake(3) that by (auto intro: released_answer)
  moreover have "typed (Run q) \<sigma>'" using t wake(1) by (auto intro: exI [of _ Map.empty])
  ultimately show ?thesis using t wake(1,2) by simp
qed

lemma typed_no_crash:
  assumes ok: "system_ok E \<sigma>" and t: "typed p \<sigma>"
  shows "\<not> crashes E p \<sigma>"
proof (cases p)
  case (Run q)
  show ?thesis
  proof (cases q)
    case (Call r k)
    obtain \<Gamma> where \<Gamma>: "request_ok r \<Gamma>" "\<Gamma> \<subseteq>\<^sub>m kind_of (kern \<sigma>)" using t Run Call by auto
    have "perform E newfd r \<sigma> \<noteq> Inl f" if "fresh_fd newfd \<sigma>" for newfd f using perform_fine [OF ok that \<Gamma>] by auto
    then show ?thesis using Run Call by simp
  qed (simp_all add: Run)
next
  case (Closing fp c q)
  then have "enabled (Continue fp c) \<sigma>" using t by simp
  from handle_fine [OF ok this] have "handle E (Continue fp c) \<sigma> \<noteq> Inl f" for f by (auto simp: fine_def simp del: handle.simps)
  then show ?thesis using Closing by (simp del: handle.simps)
qed

lemma psteps_typed: "(pstep E)\<^sup>*\<^sup>* (p, \<sigma>) (p', \<sigma>') \<Longrightarrow> system_ok E \<sigma> \<Longrightarrow> typed p \<sigma> \<Longrightarrow> system_ok E \<sigma>' \<and> typed p' \<sigma>'"
proof (induction "(p', \<sigma>')" arbitrary: p' \<sigma>' rule: rtranclp_induct)
  case (step y)
  then show ?case using pstep_typed [of E "fst y" "snd y"] by (cases y) simp
qed simp

subsection \<open>Typing rules\<close>

named_theorems typing \<open>typing rules of statements\<close>

lemma wt_open:
  assumes "\<And>fd. \<Gamma> fd = None \<Longrightarrow> well_typed (k fd) (\<Gamma>(fd \<mapsto> Context))"
  shows "well_typed (do_open path k) \<Gamma>"
  using assms by (auto simp: do_open_def syserr_def Let_def split: answer.splits)

lemma wt_open0 [typing]: "(\<And>fd. \<Gamma> fd = None \<Longrightarrow> well_typed (k fd) (\<Gamma>(fd \<mapsto> Context))) \<Longrightarrow> well_typed (do_open0 k) \<Gamma>"
  and wt_open1 [typing]: "(\<And>fd. \<Gamma> fd = None \<Longrightarrow> well_typed (k fd) (\<Gamma>(fd \<mapsto> Context))) \<Longrightarrow> well_typed (do_open1 k) \<Gamma>"
  by (simp_all add: do_open0_def do_open1_def wt_open)

lemma wt_create_buf [typing]:
  assumes "\<Gamma> fd = Some Context" "\<And>bfd. \<Gamma> bfd = None \<Longrightarrow> well_typed (k bfd) (\<Gamma>(bfd \<mapsto> Buffer))"
  shows "well_typed (do_create_buf fd sz al k) \<Gamma>"
  using assms by (auto simp: do_create_buf_def syserr_def Let_def split: answer.splits)

lemma wt_ioctl:
  assumes "cmd \<noteq> DICEDEV_IOCTL_CREATE_SET \<or> \<Gamma> fd \<noteq> Some Context" "request_ok (RIoctl fd cmd arg sd) \<Gamma>" "\<And>a. well_typed (k a) \<Gamma>"
  shows "well_typed (Call (RIoctl fd cmd arg sd) k) \<Gamma>"
proof -
  have "kinds_after (RIoctl fd cmd arg sd) a \<Gamma> = \<Gamma>" for a using assms(1) by (cases a) auto
  then show ?thesis using assms(2,3) by simp
qed

lemma wt_run [typing]:
  assumes "\<Gamma> cfd = Some Buffer" "\<Gamma> bfd = Some Buffer" "well_typed k \<Gamma>"
  shows "well_typed (do_run fd cfd addr sz bfd k) \<Gamma>" "well_typed (do_run_with_err fd cfd addr sz bfd k) \<Gamma>"
  unfolding do_run_def do_run_with_err_def
  by (rule wt_ioctl; use assms in \<open>simp add: run_arg_def no_arg_def syserr_def\<close>)+

lemma wt_wait [typing]:
  assumes "well_typed k \<Gamma>"
  shows "well_typed (do_wait fd cnt k) \<Gamma>" "well_typed (do_wait_for_err fd cnt k) \<Gamma>"
  unfolding do_wait_def do_wait_for_err_def by (rule wt_ioctl; use assms in \<open>simp add: syserr_def\<close>)+

lemma wt_run_and_wait [typing]:
  assumes "\<Gamma> cfd = Some Buffer" "\<Gamma> bfd = Some Buffer" "well_typed k \<Gamma>"
  shows "well_typed (do_run_and_wait_with_err fd cfd addr sz bfd k) \<Gamma>"
  unfolding do_run_and_wait_with_err_def
  by (rule wt_ioctl, use assms in \<open>simp_all add: run_arg_def no_arg_def syserr_def wt_wait\<close>)

lemma wt_close [typing]: "(\<And>\<Gamma>'. well_typed k \<Gamma>') \<Longrightarrow> well_typed (do_close fd k) \<Gamma>"
  by (simp add: do_close_def syserr_def)

lemma wt_munmap [typing]: "well_typed k \<Gamma> \<Longrightarrow> well_typed (do_munmap bfd addr len k) \<Gamma>"
  by (simp add: do_munmap_def)

lemma wt_exit [typing]: "well_typed (Exit n msg) \<Gamma>" "well_typed Abort \<Gamma>" "well_typed Killed \<Gamma>"
  by simp_all

lemma wt_if [typing]: "(P \<Longrightarrow> well_typed p \<Gamma>) \<Longrightarrow> (\<not> P \<Longrightarrow> well_typed q \<Gamma>) \<Longrightarrow> well_typed (if P then p else q) \<Gamma>"
  by simp

lemma wt_foldr: "well_typed k \<Gamma> \<Longrightarrow> (\<And>x k. x \<in> set xs \<Longrightarrow> well_typed k \<Gamma> \<Longrightarrow> well_typed (f x k) \<Gamma>) \<Longrightarrow> well_typed (foldr f xs k) \<Gamma>"
  by (induction xs) simp_all

section \<open>Programs that come to an end\<close>

text \<open>
  \<open>fd\<close> is a context without tasks and errors, and the next \<open>n\<close> allocations succeed.
\<close>

definition idle :: "env \<Rightarrow> nat \<Rightarrow> int \<Rightarrow> system \<Rightarrow> bool" where
  "idle E n fd \<sigma> \<longleftrightarrow> system_ok E \<sigma> \<and> plenty E n (mem (kern \<sigma>)) \<and> (\<exists>fp f c cx. fds (kern \<sigma>) fd = Some fp \<and> files (kern \<sigma>) fp = Some f \<and>
     private_data f = PrivCtx c \<and> ctxs (kern \<sigma>) c = Some cx \<and> task_count cx = 0 \<and> \<not> ctx_failed cx \<and> quiet \<sigma> c)"

lemma idleE:
  assumes "idle E n fd \<sigma>"
  obtains fp f c cx where "system_ok E \<sigma>" "plenty E n (mem (kern \<sigma>))" "fds (kern \<sigma>) fd = Some fp" "files (kern \<sigma>) fp = Some f"
    "private_data f = PrivCtx c" "ctxs (kern \<sigma>) c = Some cx" "task_count cx = 0" "\<not> ctx_failed cx" "quiet \<sigma> c"
  using assms unfolding idle_def by blast

lemma plenty_cong: "clock m' = clock m \<Longrightarrow> plenty E n m' = plenty E n m"
  by (simp add: plenty_def)

lemma idle_background:
  assumes b: "background E \<sigma> \<sigma>'" and i: "idle E n fd \<sigma>"
  shows "idle E n fd \<sigma>'"
proof -
  obtain fp f c cx where c: "system_ok E \<sigma>" "plenty E n (mem (kern \<sigma>))" "fds (kern \<sigma>) fd = Some fp" "files (kern \<sigma>) fp = Some f"
    "private_data f = PrivCtx c" "ctxs (kern \<sigma>) c = Some cx" "task_count cx = 0" "\<not> ctx_failed cx" "quiet \<sigma> c" using i by (rule idleE)
  have ok: "system_ok E \<sigma>'" and u: "undisturbed \<sigma> \<sigma>'" using background_ok [OF b c(1)] by simp_all
  have m: "clock (mem (kern \<sigma>')) = clock (mem (kern \<sigma>))" "fds (kern \<sigma>') = fds (kern \<sigma>)" "files (kern \<sigma>') = files (kern \<sigma>)"
      "quiet \<sigma>' c" "ctxs (kern \<sigma>') c = ctxs (kern \<sigma>) c" using u c(9) by (simp_all add: undisturbed_def)
  show ?thesis unfolding idle_def using ok c m plenty_cong [OF m(1)] by (metis (no_types, lifting))
qed

lemma passes_idle:
  assumes i: "idle E n fd \<sigma>"
    and c: "\<And>\<sigma> newfd. idle E n fd \<sigma> \<Longrightarrow> fds (kern \<sigma>) newfd = None \<Longrightarrow> 0 \<le> newfd \<Longrightarrow>
      \<exists>a \<sigma>'. perform E (Inr newfd) r \<sigma> = Inr (a, \<sigma>') \<and> a \<noteq> Blocked \<and> passes E Q (k a) \<sigma>'"
  shows "passes E Q (Call r k) \<sigma>"
  using c idle_background [OF _ i] by simp

lemma quiet_same: "tasks s' = tasks (kern \<sigma>) \<Longrightarrow> devs s' = devs (kern \<sigma>) \<Longrightarrow> quiet (with_kern s' \<sigma>) c = quiet \<sigma> c"
  by (simp add: quiet_def uses_ctx_iff)

lemma quiet_new:
  assumes ok: "system_ok E \<sigma>" and c: "ctxs (kern \<sigma>) c = None"
  shows "quiet \<sigma> c"
proof -
  obtain dv where i: "sys_inv E (thread \<sigma>) dv (kern \<sigma>)" using system_okE [OF ok] by metis
  have "task_linked (wt_dev (thread \<sigma>)) (kern \<sigma>) tp" if "tp \<in> set (live (thread \<sigma>) dv)" for tp
    using i that by (simp add: sys_inv_def dev_inv_def base_inv_def)
  then have "t_ctx t \<noteq> c" if "tp \<in> set (live (thread \<sigma>) dv)" "tasks (kern \<sigma>) tp = Some t" for tp t
    using that c by (metis option.distinct(1) option.inject task_linkedE)
  then show ?thesis using sys_inv_dev [OF i] by (auto simp: quiet_def uses_ctx_iff)
qed

lemma opened_idle:
  assumes ok: "system_ok E \<sigma>" and p: "plenty E (n + 2) (mem (kern \<sigma>))" and fd: "fds (kern \<sigma>) fd = None"
  shows "\<exists>\<sigma>'. handle E (Open fd) \<sigma> = Inr (Value fd, \<sigma>') \<and> idle E n fd \<sigma>'"
proof -
  let ?d = "wt_dev (thread \<sigma>)"
  obtain dv where i: "sys_inv E (thread \<sigma>) dv (kern \<sigma>)" using system_okE [OF ok] by metis
  note h = ok_heap [OF ok]
  let ?fp = "next_ptr (mem (kern \<sigma>))" and ?\<sigma> = "with_kern (opened ?d fd (kern \<sigma>)) \<sigma>"
  have f: "files (kern \<sigma>) ?fp = None" by (rule fresh_None [OF heap_below(8) [OF h]]) simp
  have a: "alloc_ok E (clock (mem (kern \<sigma>)))" "alloc_ok E (Suc (clock (mem (kern \<sigma>))))"
    using p unfolding plenty_def by (auto dest: spec [of _ 0] spec [of _ 1])
  have run: "handle E (Open fd) \<sigma> = Inr (Value fd, ?\<sigma>)" using open_run [OF f, of E ?d fd] a by (simp add: returns_def del: bindR_eq_Inr)
  have ok': "system_ok E ?\<sigma>" using fine_open [OF ok fd] by (simp add: run del: handle.simps)
  have "ctx_ids (kern \<sigma>) (Suc ?fp) = None" by (rule fresh_None [OF heap_below(4) [OF h]]) simp
  then have new: "ctxs (kern \<sigma>) (Suc ?fp) = None" by (simp add: ctx_ids_def)
  have "quiet ?\<sigma> (Suc ?fp) = quiet \<sigma> (Suc ?fp)" by (rule quiet_same) (simp_all add: opened_def Let_def)
  then have "quiet ?\<sigma> (Suc ?fp)" using quiet_new [OF ok new] by simp
  moreover have "plenty E (Suc n) ((mem (kern \<sigma>))\<lparr>clock := Suc (clock (mem (kern \<sigma>)))\<rparr>)"
    by (rule plenty_alloc [of E _ "mem (kern \<sigma>)"]) (use p in simp_all)
  then have "plenty E n (mem (kern ?\<sigma>))" by (rule plenty_alloc) (simp add: opened_def Let_def)
  ultimately have "idle E n fd ?\<sigma>" unfolding idle_def using ok' by (simp add: opened_def Let_def new_ctx_def)
  then show ?thesis using run by blast
qed

lemma passes_open0:
  assumes ok: "system_ok E \<sigma>" and p: "plenty E (n + 2) (mem (kern \<sigma>))" and k: "\<And>fd \<sigma>. idle E n fd \<sigma> \<Longrightarrow> passes E Q (k fd) \<sigma>"
  shows "passes E Q (do_open0 k) \<sigma>"
proof -
  have "\<exists>a \<sigma>''. perform E (Inr newfd) (ROpen ''/dev/dicedev0'') \<sigma>' = Inr (a, \<sigma>'') \<and> a \<noteq> Blocked \<and>
      passes E Q (let fd = ret a in if fd < 0 then syserr ''open'' else k fd) \<sigma>''"
    if b: "background E \<sigma> \<sigma>'" and n: "0 \<le> newfd" "fds (kern \<sigma>') newfd = None" for \<sigma>' newfd
  proof -
    have ok': "system_ok E \<sigma>'" "clock (mem (kern \<sigma>')) = clock (mem (kern \<sigma>))" using background_ok [OF b ok] by (simp_all add: undisturbed_def)
    have "plenty E (n + 2) (mem (kern \<sigma>'))" using p plenty_cong [OF ok'(2)] by simp
    then obtain \<sigma>'' where "handle E (Open newfd) \<sigma>' = Inr (Value newfd, \<sigma>'')" "idle E n newfd \<sigma>''" using opened_idle [OF ok'(1) _ n(2)] by blast
    then show ?thesis using k n(1) by (simp del: handle.simps)
  qed
  then show ?thesis by (simp add: do_open0_def do_open_def del: perform.simps)
qed

lemmas idle_defs = on_fd_def dicedev_ioctl_def as_ctx_def returns_def with_kern_def

lemma idle_refused:
  assumes i: "idle E n fd \<sigma>" and cmd: "cmd \<in> {DICEDEV_IOCTL_CREATE_SET, DICEDEV_IOCTL_RUN, DICEDEV_IOCTL_WAIT}"
    and arg: "as_create_set arg = None" "as_wait arg = None" "\<And>r. as_run arg = Some r \<Longrightarrow> run_addr r mod 4 \<noteq> 0 \<or> run_size r mod 4 \<noteq> 0"
  shows "\<exists>e. perform E newfd (RIoctl fd cmd arg sd) \<sigma> = Inr (Failed e, \<sigma>)"
proof -
  obtain fp f c where c: "fds (kern \<sigma>) fd = Some fp" "files (kern \<sigma>) fp = Some f" "private_data f = PrivCtx c" using i by (rule idleE)
  show ?thesis using cmd arg c
    by (cases "as_run arg") (auto simp: idle_defs dicedev_ioctl_create_set_def dicedev_ioctl_run_def dicedev_ioctl_wait_def simp del: bindR_eq_Inr)
qed

lemma idle_wait:
  assumes i: "idle E n fd \<sigma>"
  shows "perform E newfd (RIoctl fd DICEDEV_IOCTL_WAIT (wait_arg cnt) sd) \<sigma> = Inr (Value 0, \<sigma>)"
proof -
  obtain fp f c cx where c: "fds (kern \<sigma>) fd = Some fp" "files (kern \<sigma>) fp = Some f"
    "private_data f = PrivCtx c" "ctxs (kern \<sigma>) c = Some cx" "task_count cx = 0" "\<not> ctx_failed cx" using i by (rule idleE)
  then show ?thesis by (simp add: idle_defs dicedev_ioctl_wait_def wait_arg_def del: bindR_eq_Inr)
qed

lemma idle_close:
  assumes i: "idle E n fd \<sigma>"
  shows "\<exists>\<sigma>'. perform E newfd (RClose fd) \<sigma> = Inr (Done, \<sigma>')"
proof -
  obtain fp f c cx where c: "system_ok E \<sigma>" "fds (kern \<sigma>) fd = Some fp" "files (kern \<sigma>) fp = Some f"
    "private_data f = PrivCtx c" "ctxs (kern \<sigma>) c = Some cx" "task_count cx = 0" using i by (rule idleE)
  obtain dv where v: "sys_inv E (thread \<sigma>) dv (kern \<sigma>)" "all_listed (kern \<sigma>)" using system_okE [OF c(1)] by metis
  obtain s1 where s1: "dicedev_release E fp ((kern \<sigma>)\<lparr>fds := (fds (kern \<sigma>))(fd := None)\<rparr>) = dicedev_release_wait E c s1"
      "sys_inv E (thread \<sigma>) dv s1" "all_listed s1" "closing_ok s1 fp c" "ctxs s1 = ctxs (kern \<sigma>)"
    using sys_release_start [OF v c(2-4)] by blast
  obtain s2 where "dicedev_release_wait E c s1 = Inr (Return (Inr ()) s2)"
    using sys_release_wait [OF s1(2-4), of cx] s1(5) c(5,6) by auto
  then show ?thesis using c(2-4) s1(1) by (simp add: on_fd_def del: bindR_eq_Inr)
qed

lemma passes_close:
  assumes "idle E n fd \<sigma>" "\<And>\<sigma>. passes E Q k \<sigma>"
  shows "passes E Q (do_close fd k) \<sigma>"
  unfolding do_close_def by (rule passes_idle [OF assms(1)]) (use idle_close assms(2) in fastforce)

lemma passes_wait:
  assumes "idle E n fd \<sigma>" "\<And>\<sigma>. idle E n fd \<sigma> \<Longrightarrow> passes E Q k \<sigma>"
  shows "passes E Q (do_wait fd cnt k) \<sigma>"
  unfolding do_wait_def
  by (rule passes_idle [OF assms(1)], rule exI [of _ "Value 0"], rule exI, intro conjI, erule idle_wait) (simp_all add: assms(2))

lemma passes_run_refused:
  assumes i: "idle E n fd \<sigma>" and a: "addr mod 4 \<noteq> 0 \<or> sz mod 4 \<noteq> 0" and k: "\<And>\<sigma>. idle E n fd \<sigma> \<Longrightarrow> passes E Q k \<sigma>"
  shows "passes E Q (do_run_with_err fd cfd addr sz bfd k) \<sigma>"
  unfolding do_run_with_err_def
proof (rule passes_idle [OF i])
  fix \<sigma> newfd
  assume j: "idle E n fd \<sigma>"
  have "\<exists>e. perform E (Inr newfd) (RIoctl fd DICEDEV_IOCTL_RUN (run_arg cfd addr sz bfd) None) \<sigma> = Inr (Failed e, \<sigma>)"
    by (rule idle_refused [OF j]) (use a in \<open>auto simp: run_arg_def no_arg_def\<close>)
  then obtain e where e: "perform E (Inr newfd) (RIoctl fd DICEDEV_IOCTL_RUN (run_arg cfd addr sz bfd) None) \<sigma> = Inr (Failed e, \<sigma>)" by blast
  show "\<exists>a \<sigma>'. perform E (Inr newfd) (RIoctl fd DICEDEV_IOCTL_RUN (run_arg cfd addr sz bfd) None) \<sigma> = Inr (a, \<sigma>') \<and>
      a \<noteq> Blocked \<and> passes E Q (if ret a \<noteq> -1 then syserr ''run should fail'' else k) \<sigma>'"
    using k [OF j] e by (intro exI [of _ "Failed e"] exI [of _ \<sigma>]) (simp del: perform.simps)
qed

text \<open>A buffer of \<open>np\<close> pages.\<close>

definition mapped :: "nat \<Rightarrow> int \<Rightarrow> system \<Rightarrow> bool" where
  "mapped np bfd \<sigma> \<longleftrightarrow> (\<exists>fp f b tp x t. fds (kern \<sigma>) bfd = Some fp \<and> files (kern \<sigma>) fp = Some f \<and> private_data f = PrivBuff b \<and>
     buff_ids (kern \<sigma>) b = Some (tp, x) \<and> pts (kern \<sigma>) tp = Some t \<and> num_pages t = np)"

lemma mapped_undisturbed: "undisturbed \<sigma> \<sigma>' \<Longrightarrow> mapped np bfd \<sigma>' = mapped np bfd \<sigma>"
  by (simp add: undisturbed_def mapped_def)

lemma mapped_mmap: "mapped np bfd \<sigma> \<Longrightarrow> perform E newfd (RMmap bfd) \<sigma> = Inr (Done, \<sigma>)"
  unfolding mapped_def by (auto simp: on_fd_def dicedev_buffer_mmap_def as_buff_def returns_def simp del: bindR_eq_Inr)

lemma mapped_beyond: "mapped np bfd \<sigma> \<Longrightarrow> np \<le> i div 4096 \<Longrightarrow> perform E newfd (RStoreByte bfd i x) \<sigma> = Inr (SigBus, \<sigma>)"
  unfolding mapped_def by (auto simp: on_buffer_def on_fd_def touch_def dicedev_buffer_vm_fault_def buff_ids_def simp del: bindR_eq_Inr)

lemma created_idle:
  assumes i: "idle E n fd \<sigma>" and n: "(nat (cs_size cs) + 4095) div 4096 + 5 \<le> n" and cs: "\<not> set_refused cs" and new: "fds (kern \<sigma>) newfd = None"
    and arg: "as_create_set arg = Some cs"
  shows "\<exists>\<sigma>'. perform E (Inr newfd) (RIoctl fd DICEDEV_IOCTL_CREATE_SET arg sd) \<sigma> = Inr (Value newfd, \<sigma>') \<and> idle E 0 fd \<sigma>' \<and>
    mapped ((nat (cs_size cs) + 4095) div 4096) newfd \<sigma>'"
proof -
  obtain fp f c cx where c: "system_ok E \<sigma>" "plenty E n (mem (kern \<sigma>))" "fds (kern \<sigma>) fd = Some fp" "files (kern \<sigma>) fp = Some f"
    "private_data f = PrivCtx c" "ctxs (kern \<sigma>) c = Some cx" "task_count cx = 0" "\<not> ctx_failed cx" "quiet \<sigma> c" using i by (rule idleE)
  obtain dv where v: "sys_inv E (thread \<sigma>) dv (kern \<sigma>)" using system_okE [OF c(1)] by metis
  note h = ok_heap [OF c(1)] and d = sys_inv_dev [OF v]
  have "buff_ids (kern \<sigma>) (next_ptr (mem (kern \<sigma>))) = None" by (rule fresh_None [OF heap_below(3) [OF h]]) simp
  then have fresh: "buffs (kern \<sigma>) (next_ptr (mem (kern \<sigma>))) = None" by (simp add: buff_ids_def)
  have dc: "devs (kern \<sigma>) (ctx_dev cx) = Some dv" "\<not> slock dv" using d heap_ctx(1) [OF h c(6)] by simp_all
  note spec = heap_below(1) [OF h] c(6) dc fresh heap_below(7) [OF h]
  have sz: "unat (word_of_int (cs_size cs) :: u64) = nat (cs_size cs)" by (rule set_size [OF cs])
  have "unat ((word_of_int (cs_size cs) + 0x1000 - 1 :: u64) div 0x1000) = (nat (cs_size cs) + 4095) div 4096"
    using num_pages_ceil [of "word_of_int (cs_size cs)"] set_size [OF cs] by simp
  then have "plenty E (unat ((word_of_int (cs_size cs) + 0x1000 - 1 :: u64) div 0x1000) + 5) (mem (kern \<sigma>))"
    using plenty_le [OF c(2)] n by simp
  then obtain s' where s': "dicedev_ioctl_create_set E (Inr newfd) c (Some cs) (kern \<sigma>) = Inr (Inr newfd, s')"
    using create_set_succeeds [OF spec _ cs] by blast
  have "set_made E c cs newfd (kern \<sigma>) s'" using create_set_spec [OF spec, of E "Inr newfd" "Some cs"] s' by auto
  then obtain b tp g t where m: "next_ptr (mem (kern \<sigma>)) \<le> b" "b < tp" "tp < g" "table_for E (mem (kern \<sigma>)) (mem s') (word_of_int (cs_size cs)) t" "pts s' = (pts (kern \<sigma>))(tp \<mapsto> t)"
     "files s' = (files (kern \<sigma>))(g \<mapsto> \<lparr>private_data = PrivBuff b, f_count = 2\<rparr>)" "fds s' = (fds (kern \<sigma>))(newfd \<mapsto> g)"
     "buffs s' = (buffs (kern \<sigma>))(b \<mapsto> fresh_buffer c (ctx_dev cx) tp g (cs_allowed cs) zero_buffer)"
     "ctxs s' = (ctxs (kern \<sigma>))(c \<mapsto> cx\<lparr>allocated_buffers := b # allocated_buffers cx\<rparr>)"
     "devs s' = devs (kern \<sigma>)" "tasks s' = tasks (kern \<sigma>)"
    unfolding set_made_def using c(6) by (elim exE conjE) (rule that; simp)
  have g: "g \<noteq> fp" using heap_below(8) [OF h] c(4) m(1-3) by fastforce
  have run: "perform E (Inr newfd) (RIoctl fd DICEDEV_IOCTL_CREATE_SET arg sd) \<sigma> = Inr (Value newfd, with_kern s' \<sigma>)"
    using c(3-5) s' arg by (simp add: idle_defs del: bindR_eq_Inr)
  have "enabled (Ioctl fd (Inr newfd) DICEDEV_IOCTL_CREATE_SET arg sd) \<sigma>" using new by simp
  from handle_fine [OF c(1) this] have ok: "system_ok E (with_kern s' \<sigma>)" using run by (simp del: handle.simps)
  have "quiet (with_kern s' \<sigma>) c" using c(9) m(10,11) quiet_same by blast
  moreover have "plenty E 0 (mem s')" by (simp add: plenty_def)
  moreover have "newfd \<noteq> fd" using new c(3) by auto
  ultimately have "idle E 0 fd (with_kern s' \<sigma>)" unfolding idle_def using ok m(6,7,9) c(3-5,7,8) g by simp
  moreover have "mapped ((nat (cs_size cs) + 4095) div 4096) newfd (with_kern s' \<sigma>)"
    using m(4-8) sz by (auto simp: mapped_def table_for_def buff_ids_def fresh_buffer_def)
  ultimately show ?thesis using run by blast
qed

lemma passes_create_buf:
  assumes i: "idle E n fd \<sigma>" and cs: "\<not> set_refused \<lparr>cs_size = sz, cs_allowed = al\<rparr>" and n: "(nat sz + 4095) div 4096 + 5 \<le> n"
    and k: "\<And>bfd \<sigma>. idle E 0 fd \<sigma> \<Longrightarrow> mapped ((nat sz + 4095) div 4096) bfd \<sigma> \<Longrightarrow> passes E Q (k bfd) \<sigma>"
  shows "passes E Q (do_create_buf fd sz al k) \<sigma>"
  unfolding do_create_buf_def Let_def
proof (rule passes_idle [OF i])
  fix \<sigma> newfd
  let ?r = "RIoctl fd DICEDEV_IOCTL_CREATE_SET (no_arg\<lparr>as_create_set := Some \<lparr>cs_size = sz, cs_allowed = al\<rparr>\<rparr>) None"
  assume j: "idle E n fd \<sigma>" "fds (kern \<sigma>) newfd = None" "0 \<le> newfd"
  obtain \<sigma>' where s: "perform E (Inr newfd) ?r \<sigma> = Inr (Value newfd, \<sigma>')" "idle E 0 fd \<sigma>'" "mapped ((nat sz + 4095) div 4096) newfd \<sigma>'"
    using created_idle [OF j(1) _ cs j(2), of "no_arg\<lparr>as_create_set := Some \<lparr>cs_size = sz, cs_allowed = al\<rparr>\<rparr>" None] n by (auto simp del: perform.simps)
  then show "\<exists>a \<sigma>'. perform E (Inr newfd) ?r \<sigma> = Inr (a, \<sigma>') \<and> a \<noteq> Blocked \<and>
      passes E Q (if ret a < 0 then syserr ''create_buffer'' else k (ret a)) \<sigma>'"
    using k j(3) by (intro exI [of _ "Value newfd"] exI [of _ \<sigma>']) (simp del: perform.simps)
qed

lemma passes_mapped:
  assumes ok: "system_ok E \<sigma>" and m: "mapped np bfd \<sigma>"
    and c: "\<And>\<sigma> newfd. system_ok E \<sigma> \<Longrightarrow> mapped np bfd \<sigma> \<Longrightarrow> \<exists>a \<sigma>'. perform E (Inr newfd) r \<sigma> = Inr (a, \<sigma>') \<and> a \<noteq> Blocked \<and> passes E Q (k a) \<sigma>'"
  shows "passes E Q (Call r k) \<sigma>"
proof -
  have "system_ok E \<sigma>' \<and> mapped np bfd \<sigma>'" if "background E \<sigma> \<sigma>'" for \<sigma>'
    using background_ok [OF that ok] mapped_undisturbed [of \<sigma> \<sigma>'] m by simp
  then show ?thesis using c by simp
qed

section \<open>Properties\<close>


lemma first_open:
  obtains \<sigma> where "handle env1 (Open 3) first = Inr (Value 3, \<sigma>)" "idle env1 100 3 \<sigma>"
proof -
  have p: "plenty env1 (100 + 2) (mem (kern first))" "fds (kern first) 3 = None" by (simp_all add: plenty_def first_defs Let_def)
  show thesis using opened_idle [OF reachable_ok [OF first_reachable] p] that by blast
qed


end
