(* ===== verification/Dicedev_Tests.thy ===== *)
theory Dicedev_Tests
  imports Dicedev_Client
begin

text \<open>
  The test programs of \<open>z3-tst\<close>: their calls never make the driver fault, and the ones that
  check what the driver refuses come to their end.
\<close>

section \<open>The programs\<close>

subsection \<open>Macros of \<open>dicedev.h\<close>\<close>

datatype output_type = FAIR | SNAKE_EYES | CHEAT_DICE

fun output_code :: "output_type \<Rightarrow> u32" where
  "output_code FAIR = 0"
| "output_code SNAKE_EYES = 1"
| "output_code CHEAT_DICE = 2"

definition DICEDEV_USER_CMD_NEW_SET :: u32 where
  "DICEDEV_USER_CMD_NEW_SET = DICEDEV_USER_CMD_TYPE_NEW_SET"

definition get_die_header :: "u32 \<Rightarrow> output_type \<Rightarrow> u32" where
  "get_die_header num ot = DICEDEV_USER_CMD_GET_DIE_HEADER num (output_code ot)"

subsection \<open>Statements\<close>

text \<open>A mapping is named by the descriptor of its buffer. A signal without a handler ends the program.\<close>

definition do_mmap :: "int \<Rightarrow> prog \<Rightarrow> prog" where
  "do_mmap bfd k = Call (RMmap bfd) (\<lambda>a. if ret a < 0 then syserr ''mmap'' else k)"

definition put_word :: "int \<Rightarrow> nat \<Rightarrow> u32 \<Rightarrow> prog \<Rightarrow> prog" where
  "put_word bfd i v k = Call (RStore bfd i v) (\<lambda>a. if a = SigBus then Killed else k)"

definition get_word :: "int \<Rightarrow> nat \<Rightarrow> (int \<Rightarrow> prog) \<Rightarrow> prog" where
  "get_word bfd i k = Call (RLoad bfd i) (\<lambda>a. if a = SigBus then Killed else k (ret a))"

definition assert_that :: "bool \<Rightarrow> prog \<Rightarrow> prog" where
  "assert_that P k = (if P then k else Abort)"

definition for_loop :: "nat \<Rightarrow> nat \<Rightarrow> (nat \<Rightarrow> prog \<Rightarrow> prog) \<Rightarrow> prog \<Rightarrow> prog" where
  "for_loop a b body k = foldr body [a..<b] k"

text \<open>Words \<open>cmd[0], cmd[1], \<dots>\<close> from word \<open>i\<close> of the mapping on.\<close>

definition put_words :: "int \<Rightarrow> nat \<Rightarrow> u32 list \<Rightarrow> prog \<Rightarrow> prog" where
  "put_words bfd i vs k = foldr (\<lambda>(j, v). put_word bfd (i + j) v) (enumerate 0 vs) k"

text \<open>\<open>buf_read[i].value\<close> and \<open>buf_read[i].type\<close>.\<close>

definition assert_die :: "int \<Rightarrow> nat \<Rightarrow> int \<Rightarrow> int \<Rightarrow> prog \<Rightarrow> prog" where
  "assert_die bfd i v t k = get_word bfd (2 * i) (\<lambda>x. if x = v then get_word bfd (2 * i + 1) (\<lambda>y. assert_that (y = t) k) else Abort)"

definition assert_same_die :: "int \<Rightarrow> nat \<Rightarrow> nat \<Rightarrow> prog \<Rightarrow> prog" where
  "assert_same_die bfd i j k = get_word bfd (2 * i) (\<lambda>v. get_word bfd (2 * j) (\<lambda>v'. if v = v'
     then get_word bfd (2 * i + 1) (\<lambda>t. get_word bfd (2 * j + 1) (\<lambda>t'. assert_that (t = t') k)) else Abort))"

definition do_seed :: "int \<Rightarrow> u32 \<Rightarrow> prog \<Rightarrow> prog" where
  "do_seed bfd x k = Call (RIoctl bfd DICEDEV_BUFFER_IOCTL_SEED no_arg (Some \<lparr>ioctl_seed = x\<rparr>)) (\<lambda>_. k)"

subsection \<open>Tests of results\<close>

definition change_seed :: prog where
  "change_seed = do_open0 (\<lambda>fd. do_create_buf fd 0x3000 0x20 (\<lambda>bfd. do_mmap bfd (do_munmap bfd 0x2000 0x1000 (do_seed bfd 0x123
     (put_words bfd 0x400 [get_die_header 5 FAIR, 0x20, get_die_header 5 FAIR, 0x20]
     (do_run fd bfd 0x1000 16 bfd (do_wait fd 0
     (assert_die bfd 7 2 5
     (do_close bfd (do_munmap bfd 0 0x2000 (do_close fd (Exit 0 ''''))))))))))))"

definition example :: prog where
  "example = do_open0 (\<lambda>fd0. do_open1 (\<lambda>fd1. do_create_buf fd0 0x3000 0x20 (\<lambda>bfd. do_mmap bfd
     (for_loop 0 0x3000 (\<lambda>i k. Call (RStoreByte bfd i 0x13) (\<lambda>a. if a = SigBus then Killed else k))
     (for_loop 0 0x3000 (\<lambda>i k. Call (RLoadByte bfd i) (\<lambda>a. if a = SigBus then Killed else if ret a \<noteq> 0x13 then Exit (-1) '''' else k))
     (do_munmap bfd 0 0x3000 (do_close bfd (Exit 0 ''''))))))))"

definition get_die :: prog where
  "get_die = do_open0 (\<lambda>fd. do_create_buf fd 0x3000 0x20 (\<lambda>bfd. do_mmap bfd (do_munmap bfd 0x2000 0x1000
     (put_words bfd 0x400 [get_die_header 5 FAIR, 0x20, get_die_header 5 FAIR, 0x20]
     (do_run fd bfd 0x1000 16 bfd (do_wait fd 0
     (assert_die bfd 0 0 5
     (assert_die bfd 7 5 5
     (assert_die bfd 3 4 5
     (do_close bfd (do_munmap bfd 0 0x2000 (do_close fd (Exit 0 '''')))))))))))))"

definition get_new_set :: prog where
  "get_new_set = do_open0 (\<lambda>fd. do_create_buf fd 0x3000 0x20 (\<lambda>bfd. do_mmap bfd (do_munmap bfd 0x2000 0x1000
     (put_words bfd 0x400 [get_die_header 5 FAIR, 0x20, DICEDEV_USER_CMD_NEW_SET, get_die_header 5 FAIR, 0x20]
     (do_run fd bfd 0x1000 20 bfd (do_wait fd 0
     (for_loop 0 5 (\<lambda>i k. assert_same_die bfd i (i + 5) k)
     (do_close bfd (do_munmap bfd 0 0x2000 (do_close fd (Exit 0 '''')))))))))))"

definition get_set_tricks :: prog where
  "get_set_tricks = do_open0 (\<lambda>fd. do_create_buf fd 0x3000 0x20 (\<lambda>bfd. do_mmap bfd (do_munmap bfd 0x2000 0x1000
     (put_words bfd 0x400 [get_die_header 12 SNAKE_EYES, 0x20, get_die_header 12 CHEAT_DICE, 0x20]
     (do_run fd bfd 0x1000 16 bfd (do_wait fd 0
     (for_loop 0 24 (\<lambda>i k. if i < 12 then assert_die bfd i 0 5 k
        else get_word bfd (2 * i) (\<lambda>v. assert_that (2 < v) k))
     (do_close bfd (do_munmap bfd 0 0x2000 (do_close fd (Exit 0 '''')))))))))))"

definition get_sets :: prog where
  "get_sets = do_open0 (\<lambda>fd. do_create_buf fd 0x3000 0x20 (\<lambda>bfd. do_mmap bfd (do_munmap bfd 0x2000 0x1000
     (do_create_buf fd 0x3000 0x4 (\<lambda>bfd2. do_mmap bfd2 (do_munmap bfd2 0x2000 0x1000 (do_seed bfd2 0x123
     (put_words bfd2 0x400 [get_die_header 5 FAIR, 0x4, get_die_header 5 FAIR, 0x4]
     (do_run fd bfd2 0x1000 16 bfd2 (do_wait fd 0
     (put_words bfd 0x400 [get_die_header 5 FAIR, 0x20, get_die_header 5 FAIR, 0x20]
     (do_run fd bfd 0x1000 16 bfd (do_wait fd 0
     (assert_die bfd 7 5 5
     (assert_die bfd2 7 2 2
     (do_close bfd (do_munmap bfd 0 0x2000 (do_close bfd2 (do_munmap bfd2 0 0x2000 (do_close fd (Exit 0 '''')))))))))))))))))))))"

subsection \<open>Tests of errors\<close>

definition crossmap :: prog where
  "crossmap = do_open0 (\<lambda>fd. do_open1 (\<lambda>fd2. do_create_buf fd 0x3000 0 (\<lambda>bfd.
     do_run fd bfd 0 4 bfd (do_run_with_err fd2 bfd 0 4 bfd
     (do_close bfd (do_close fd (do_close fd2 (Exit 0 ''''))))))))"

definition dumb_run :: prog where
  "dumb_run = do_open0 (\<lambda>fd. do_create_buf fd 0x3000 0 (\<lambda>bfd. do_run fd bfd 0 4 bfd (do_wait fd 0
     (do_run_with_err fd 1 0 4 bfd (let crap_fd = 1 in do_run_with_err fd bfd 0 4 crap_fd
     (do_close bfd (do_close fd (Exit 0 ''''))))))))"

definition invalid_cmd :: prog where
  "invalid_cmd = do_open0 (\<lambda>fd. do_create_buf fd 0x1000 0 (\<lambda>bfd. do_mmap bfd
     (for_loop 0 0x10 (\<lambda>i k. Call (RStoreByte bfd i (if i mod 2 \<noteq> 0 then 0xab else 0xcd)) (\<lambda>a. if a = SigBus then Killed else k))
     (do_run_and_wait_with_err fd bfd 0 0x10 bfd
     (do_close bfd (do_close fd (Exit 0 '''')))))))"

text \<open>Address 1 is not mapped, so the driver cannot read an argument there.\<close>

definition chk :: "int \<Rightarrow> u32 \<Rightarrow> string \<Rightarrow> prog \<Rightarrow> prog" where
  "chk fd req err k = Call (RIoctl fd req no_arg None) (\<lambda>a. if ret a \<noteq> -1 then Exit (-1) (''ioctl '' @ err @ '' succeeded'') else k)"

definition invalid_ioctl :: prog where
  "invalid_ioctl = do_open0 (\<lambda>fd. chk fd DICEDEV_IOCTL_CREATE_SET ''buffer_resize'' (chk fd DICEDEV_IOCTL_RUN ''create_buffer''
     (chk fd DICEDEV_IOCTL_WAIT ''run'' (do_close fd (Exit 0 '''')))))"

definition invalid_size :: prog where
  "invalid_size = do_open0 (\<lambda>fd. do_create_buf fd 0x1000 0 (\<lambda>bfd. do_run_with_err fd bfd 0x1000 1 bfd (do_close fd (Exit 0 ''''))))"

definition large_wait :: prog where
  "large_wait = do_open0 (\<lambda>fd. do_wait fd 0xfffffff (do_close fd (Exit 0 '''')))"

definition not_allowed :: prog where
  "not_allowed = do_open0 (\<lambda>fd. do_create_buf fd 0x3000 0x22 (\<lambda>bfd. do_mmap bfd (do_munmap bfd 0x2000 0x1000
     (put_words bfd 0x400 [get_die_header 5 FAIR, 0x20]
     (do_run fd bfd 0x1000 8 bfd (do_wait fd 0
     (put_words bfd 0x402 [get_die_header 5 FAIR, 0x2]
     (do_run fd bfd 0x1000 8 bfd (do_wait fd 0
     (put_words bfd 0x404 [get_die_header 5 FAIR, 0x1]
     (do_run fd bfd 0x1000 24 bfd (do_wait_for_err fd 0
     (do_close bfd (do_munmap bfd 0 0x2000 (do_close fd (Exit 0 ''''))))))))))))))))"

text \<open>Here a handler for \<open>SIGBUS\<close> ends the program with success.\<close>

definition overflow :: prog where
  "overflow = do_open0 (\<lambda>fd. do_create_buf fd 0x3000 0 (\<lambda>bfd. do_mmap bfd
     (for_loop 0 0x1000 (\<lambda>i k. Call (RStoreByte bfd (i + 0x3000) 0x13) (\<lambda>a. if a = SigBus then Exit 0 '''' else k))
     (Exit (-1) ''Should not reach this point''))))"

definition page_fault :: prog where
  "page_fault = do_open0 (\<lambda>fd. do_create_buf fd 0x3000 0x20 (\<lambda>bfd. do_mmap bfd
     (put_words bfd 0x400 [get_die_header 5000 FAIR, 0x20, get_die_header 5000 FAIR, 0x20, get_die_header 5000 FAIR, 0x20]
     (do_run_and_wait_with_err fd bfd 0x1000 24 bfd
     (do_close bfd (do_munmap bfd 0 0x3000 (do_close fd (Exit 0 ''''))))))))"

subsection \<open>Tests of size\<close>

text \<open>The loop that creates the buffers collects their descriptors, as the array \<open>bfds\<close> does.\<close>

primrec create_bufs :: "nat \<Rightarrow> int \<Rightarrow> int list \<Rightarrow> (int list \<Rightarrow> prog) \<Rightarrow> prog" where
  "create_bufs 0 fd bfds k = k bfds"
| "create_bufs (Suc n) fd bfds k = do_create_buf fd 4096 0x20 (\<lambda>bfd. do_mmap bfd (create_bufs n fd (bfds @ [bfd]) k))"

definition large_alloc :: prog where
  "large_alloc = do_open0 (\<lambda>fd. create_bufs 1000 fd [] (\<lambda>bfds.
     put_words (bfds ! 0) 0 [get_die_header 5 FAIR, 0x20, get_die_header 5 FAIR, 0x20]
     (for_loop 1 1000 (\<lambda>i k. do_run fd (bfds ! 0) 0 16 (bfds ! i) (do_wait fd 0 k))
     (for_loop 1 1000 (\<lambda>i k. get_word (bfds ! i) 14 (\<lambda>v. if v = 5 then get_word (bfds ! i) 19 (\<lambda>t. assert_that (t = 5) k) else Abort))
     (for_loop 0 1000 (\<lambda>i k. do_munmap (bfds ! i) 0 4096 (do_close (bfds ! i) k))
     (do_close fd (Exit 0 '''')))))))"

definition large_op :: prog where
  "large_op = do_open0 (\<lambda>fd. do_create_buf fd (500 * 5 * 4 * 8) 0x20 (\<lambda>bfd. do_create_buf fd (500 * 4 * 4) 0x20 (\<lambda>cmdfd.
     Call (RMmap bfd) (\<lambda>_. do_mmap cmdfd
     (for_loop 0 500 (\<lambda>i. put_words cmdfd (i * 4) [get_die_header 5 FAIR, 0x20, get_die_header 5 FAIR, 0x20])
     (do_run fd cmdfd 0 (4 * 4 * 500) bfd (do_wait fd 0
     (assert_die bfd 1001 3 5
     (do_close bfd (do_close cmdfd (do_munmap cmdfd 0 (500 * 4 * 4) (do_close fd (Exit 0 '''')))))))))))))"

section \<open>The programs are well typed\<close>

lemma wt_mapped [typing]:
  assumes "\<And>a. well_typed (k a) \<Gamma>"
  shows "well_typed (Call (RMmap bfd) k) \<Gamma>" "well_typed (Call (RStore bfd i v) k) \<Gamma>" "well_typed (Call (RLoad bfd i) k) \<Gamma>"
    "well_typed (Call (RStoreByte bfd i x) k) \<Gamma>" "well_typed (Call (RLoadByte bfd i) k) \<Gamma>"
  using assms by simp_all

lemma wt_mmap [typing]: "well_typed k \<Gamma> \<Longrightarrow> well_typed (do_mmap bfd k) \<Gamma>"
  by (simp add: do_mmap_def syserr_def)

lemma wt_put_word [typing]: "well_typed k \<Gamma> \<Longrightarrow> well_typed (put_word bfd i v k) \<Gamma>"
  by (simp add: put_word_def)

lemma wt_put_words [typing]: "well_typed k \<Gamma> \<Longrightarrow> well_typed (put_words bfd i vs k) \<Gamma>"
  unfolding put_words_def by (rule wt_foldr) (auto intro: typing)

lemma wt_get_word [typing]: "(\<And>x. well_typed (k x) \<Gamma>) \<Longrightarrow> well_typed (get_word bfd i k) \<Gamma>"
  by (simp add: get_word_def)

lemma wt_assert [typing]:
  assumes "well_typed k \<Gamma>"
  shows "well_typed (assert_that P k) \<Gamma>" "well_typed (assert_die bfd i v t k) \<Gamma>" "well_typed (assert_same_die bfd i j k) \<Gamma>"
  using assms by (simp_all add: assert_that_def assert_die_def assert_same_die_def wt_get_word)

lemma wt_seed [typing]: "\<Gamma> bfd = Some Buffer \<Longrightarrow> well_typed k \<Gamma> \<Longrightarrow> well_typed (do_seed bfd x k) \<Gamma>"
  unfolding do_seed_def by (rule wt_ioctl) (simp_all add: no_arg_def)

lemma wt_for [typing]:
  "well_typed k \<Gamma> \<Longrightarrow> (\<And>i k. a \<le> i \<Longrightarrow> i < b \<Longrightarrow> well_typed k \<Gamma> \<Longrightarrow> well_typed (body i k) \<Gamma>) \<Longrightarrow> well_typed (for_loop a b body k) \<Gamma>"
  unfolding for_loop_def by (rule wt_foldr) simp_all

lemma wt_for_any:
  assumes "\<And>\<Gamma>. well_typed k \<Gamma>" "\<And>i k \<Gamma>. (\<And>\<Gamma>. well_typed k \<Gamma>) \<Longrightarrow> well_typed (body i k) \<Gamma>"
  shows "well_typed (for_loop a b body k) \<Gamma>"
proof -
  have "well_typed (foldr body xs k) \<Gamma>" for xs \<Gamma> by (induction xs arbitrary: \<Gamma>) (simp_all add: assms)
  then show ?thesis by (simp add: for_loop_def)
qed

lemma wt_chk [typing]: "(\<And>\<Gamma>. well_typed k \<Gamma>) \<Longrightarrow> well_typed (chk fd req err k) \<Gamma>"
  by (simp add: chk_def no_arg_def)

lemma wt_create_bufs:
  assumes "\<Gamma> fd = Some Context" "\<forall>b \<in> set bfds. \<Gamma> b = Some Buffer"
    and "\<And>\<Gamma> bs. \<Gamma> fd = Some Context \<Longrightarrow> length bs = length bfds + n \<Longrightarrow> \<forall>b \<in> set bs. \<Gamma> b = Some Buffer \<Longrightarrow> well_typed (k bs) \<Gamma>"
  shows "well_typed (create_bufs n fd bfds k) \<Gamma>"
  using assms
proof (induction n arbitrary: bfds \<Gamma>)
  case (Suc n)
  have "well_typed (create_bufs n fd (bfds @ [b]) k) (\<Gamma>(b \<mapsto> Buffer))" if b: "\<Gamma> b = None" for b
    by (rule Suc.IH) (use Suc.prems b in \<open>auto simp: fun_upd_apply\<close>)
  then show ?case by (auto intro!: typing Suc.prems(1))
qed simp

lemma results_well_typed:
  "well_typed change_seed \<Gamma>" "well_typed example \<Gamma>" "well_typed get_die \<Gamma>" "well_typed get_new_set \<Gamma>" "well_typed get_set_tricks \<Gamma>"
  "well_typed get_sets \<Gamma>"
  unfolding change_seed_def example_def get_die_def get_new_set_def get_set_tricks_def get_sets_def
  by (intro typing; simp add: fun_upd_apply split: if_splits)+

lemma errors_well_typed:
  "well_typed crossmap \<Gamma>" "well_typed invalid_cmd \<Gamma>" "well_typed invalid_ioctl \<Gamma>" "well_typed invalid_size \<Gamma>" "well_typed large_wait \<Gamma>"
  "well_typed not_allowed \<Gamma>" "well_typed overflow \<Gamma>" "well_typed page_fault \<Gamma>"
  unfolding crossmap_def invalid_cmd_def invalid_ioctl_def invalid_size_def large_wait_def not_allowed_def overflow_def page_fault_def
  by (intro typing; simp add: fun_upd_apply split: if_splits)+

lemma sizes_well_typed: "well_typed large_alloc \<Gamma>" "well_typed large_op \<Gamma>"
proof -
  show "well_typed large_op \<Gamma>"
    unfolding large_op_def by (intro typing; simp add: fun_upd_apply split: if_splits)
  show "well_typed large_alloc \<Gamma>"
    unfolding large_alloc_def
    by (intro wt_create_bufs wt_open0 wt_put_words wt_for wt_for_any typing) (simp_all add: fun_upd_apply)
qed

text \<open>The tests of \<open>run.sh\<close>, without \<open>dumb_run\<close> and the ones that need \<open>liburing\<close>.\<close>

definition tests :: "prog list" where
  "tests = [example, get_die, get_sets, get_new_set, overflow, invalid_ioctl, large_wait, large_alloc, invalid_cmd, crossmap,
     large_op, page_fault, invalid_size, get_set_tricks, change_seed, not_allowed]"

lemma tests_well_typed: "p \<in> set tests \<Longrightarrow> well_typed p \<Gamma>"
  by (auto simp: tests_def results_well_typed errors_well_typed sizes_well_typed)

text \<open>\<open>dumb_run\<close> names descriptor 1 in a run, which need not be a buffer.\<close>

lemma dumb_run_ill_typed: "\<not> well_typed dumb_run Map.empty"
proof
  let ?tail = "\<lambda>fd bfd. do_run_with_err fd 1 0 4 bfd (do_run_with_err fd bfd 0 4 1 (do_close bfd (do_close fd (Exit 0 ''''))))"
  let ?\<Gamma> = "[3 \<mapsto> Context, 4 \<mapsto> Buffer] :: int \<rightharpoonup> fd_kind"
  assume "well_typed dumb_run Map.empty"
  then have "well_typed (do_create_buf 3 0x3000 0 (\<lambda>bfd. do_run 3 bfd 0 4 bfd (do_wait 3 0 (?tail 3 bfd)))) [3 \<mapsto> Context]"
    unfolding dumb_run_def do_open0_def do_open_def Let_def by (auto simp: run_arg_def no_arg_def dest!: spec [of _ "Value 3"])
  then have "well_typed (do_run 3 4 0 4 4 (do_wait 3 0 (?tail 3 4))) ?\<Gamma>"
    unfolding do_create_buf_def Let_def by (auto simp: run_arg_def no_arg_def dest!: spec [of _ "Value 4"])
  then have "well_typed (do_wait 3 0 (?tail 3 4)) ?\<Gamma>" unfolding do_run_def by (auto simp: run_arg_def no_arg_def dest!: spec [of _ "Value 0"])
  then have "well_typed (?tail 3 4) ?\<Gamma>" unfolding do_wait_def by (auto simp: run_arg_def no_arg_def dest!: spec [of _ "Value 0"])
  then show False by (simp add: do_run_with_err_def run_arg_def no_arg_def)
qed

section \<open>Tests that check what the driver refuses\<close>

lemma passes_chk:
  assumes i: "idle E n fd \<sigma>" and req: "req \<in> {DICEDEV_IOCTL_CREATE_SET, DICEDEV_IOCTL_RUN, DICEDEV_IOCTL_WAIT}"
    and k: "\<And>\<sigma>. idle E n fd \<sigma> \<Longrightarrow> passes E Q k \<sigma>"
  shows "passes E Q (chk fd req err k) \<sigma>"
  unfolding chk_def
proof (rule passes_idle [OF i])
  fix \<sigma> newfd
  assume j: "idle E n fd \<sigma>"
  have "\<exists>e. perform E (Inr newfd) (RIoctl fd req no_arg None) \<sigma> = Inr (Failed e, \<sigma>)"
    by (rule idle_refused [OF j req]) (simp_all add: no_arg_def)
  then obtain e where "perform E (Inr newfd) (RIoctl fd req no_arg None) \<sigma> = Inr (Failed e, \<sigma>)" by blast
  then show "\<exists>a \<sigma>'. perform E (Inr newfd) (RIoctl fd req no_arg None) \<sigma> = Inr (a, \<sigma>') \<and> a \<noteq> Blocked \<and>
      passes E Q (if ret a \<noteq> -1 then Exit (-1) (''ioctl '' @ err @ '' succeeded'') else k) \<sigma>'"
    using k [OF j] by (intro exI [of _ "Failed e"] exI [of _ \<sigma>]) (simp del: perform.simps)
qed

lemma passes_mmap:
  assumes "system_ok E \<sigma>" "mapped np bfd \<sigma>" "\<And>\<sigma>. system_ok E \<sigma> \<Longrightarrow> mapped np bfd \<sigma> \<Longrightarrow> passes E Q k \<sigma>"
  shows "passes E Q (do_mmap bfd k) \<sigma>"
  unfolding do_mmap_def
  by (rule passes_mapped [OF assms(1,2)], rule exI [of _ Done], rule exI, intro conjI, erule mapped_mmap) (simp_all add: assms(3))

lemma for_loop_first: "a < b \<Longrightarrow> for_loop a b body k = body a (for_loop (Suc a) b body k)"
  by (simp add: for_loop_def upt_conv_Cons)

lemma passes_overflow:
  assumes "system_ok E \<sigma>" "mapped 3 bfd \<sigma>"
  shows "passes E (\<lambda>n msg. n = 0) (for_loop 0 0x1000 (\<lambda>i k. Call (RStoreByte bfd (i + 0x3000) 0x13) (\<lambda>a. if a = SigBus then Exit 0 '''' else k)) p) \<sigma>"
proof (subst for_loop_first, simp, rule passes_mapped [OF assms])
  fix \<sigma> newfd
  let ?rest = "for_loop (Suc 0) 0x1000 (\<lambda>i k. Call (RStoreByte bfd (i + 0x3000) 0x13) (\<lambda>a. if a = SigBus then Exit 0 '''' else k)) p"
  assume "mapped 3 bfd \<sigma>"
  then have "perform E (Inr newfd) (RStoreByte bfd (0 + 0x3000) 0x13) \<sigma> = Inr (SigBus, \<sigma>)" by (rule mapped_beyond) simp
  then show "\<exists>a \<sigma>'. perform E (Inr newfd) (RStoreByte bfd (0 + 0x3000) 0x13) \<sigma> = Inr (a, \<sigma>') \<and> a \<noteq> Blocked \<and>
      passes E (\<lambda>n msg. n = 0) (if a = SigBus then Exit 0 '''' else ?rest) \<sigma>'"
    by (intro exI [of _ SigBus] exI [of _ \<sigma>]) (simp del: perform.simps)
qed

lemma refused_pass:
  assumes ok: "system_ok E \<sigma>" and p: "plenty E 10 (mem (kern \<sigma>))"
  shows "passes E (\<lambda>n msg. n = 0) invalid_ioctl \<sigma>" "passes E (\<lambda>n msg. n = 0) large_wait \<sigma>" "passes E (\<lambda>n msg. n = 0) invalid_size \<sigma>"
    "passes E (\<lambda>n msg. n = 0) overflow \<sigma>"
proof -
  have p: "plenty E (8 + 2) (mem (kern \<sigma>))" using p by simp
  note start = passes_open0 [OF ok p]
  have exit: "passes E (\<lambda>n msg. n = 0) (Exit 0 '''') \<sigma>" for \<sigma> by simp
  show "passes E (\<lambda>n msg. n = 0) invalid_ioctl \<sigma>"
    unfolding invalid_ioctl_def by (rule start, (erule passes_chk, simp)+, erule passes_close, rule exit)
  show "passes E (\<lambda>n msg. n = 0) large_wait \<sigma>"
    unfolding large_wait_def by (rule start, erule passes_wait, erule passes_close, rule exit)
  show "passes E (\<lambda>n msg. n = 0) invalid_size \<sigma>"
    unfolding invalid_size_def
    by (rule start, erule passes_create_buf, simp add: set_refused_def, simp, erule passes_run_refused, simp, erule passes_close, rule exit)
  have "passes E (\<lambda>n msg. n = 0) (do_mmap bfd (for_loop 0 0x1000 (\<lambda>i k. Call (RStoreByte bfd (i + 0x3000) 0x13) (\<lambda>a. if a = SigBus then Exit 0 []
      else k)) p)) \<sigma>" if i: "idle E 0 fd \<sigma>" and m: "mapped ((nat 0x3000 + 4095) div 4096) bfd \<sigma>" for fd bfd p \<sigma>
  proof (rule passes_mmap)
    show "system_ok E \<sigma>" using i by (simp add: idle_def)
    show "mapped 3 bfd \<sigma>" using m by simp
  qed (rule passes_overflow)
  then show "passes E (\<lambda>n msg. n = 0) overflow \<sigma>"
    unfolding overflow_def by (intro start, elim passes_create_buf) (simp_all add: set_refused_def)
qed

end
