(* ===== verification/Dicedev_Progress.thy ===== *)
theory Dicedev_Progress
  imports Dicedev_Frame
begin

text \<open>
  The worker thread makes progress: when the device answers its fences and no more than 16 buffers exist, every
  task is finished after a bounded number of turns, whatever else goes on.
\<close>

section \<open>The work that is left\<close>

definition needs_slot :: "kstate \<Rightarrow> ptr \<Rightarrow> bool" where
  "needs_slot s tp = (case Option.bind (tasks s tp) (\<lambda>t. buffs s (t_buff_out t)) of
     None \<Rightarrow> True | Some bf \<Rightarrow> binded_slot bf = DICEDEV_BUFFER_NO_SLOT)"

text \<open>
  The turns that the tasks need at most: to be chosen, to be bound, to be run, for the fence to be reached, and to be
  finished. Finishing a task may take the slot of the next one away.
\<close>

definition turns_left :: "wt_state \<Rightarrow> dicedev_device \<Rightarrow> kstate \<Rightarrow> nat" where
  "turns_left w dv s = 6 * length (pending_tasks dv) +
     (case next_task w of None \<Rightarrow> 0 | Some tp \<Rightarrow> if needs_slot s tp then 5 else 4) +
     (case running_task dv of None \<Rightarrow> 0 | Some _ \<Rightarrow> if fence_state dv = DICEDEV_FENCE_STATE_REACHED then 2 else 3)"

lemma turns_live: "turns_left w dv s \<le> 6 * length (live w dv)" "turns_left w dv s = 0 \<longleftrightarrow> live w dv = []"
  by (auto simp: turns_left_def live_def split: option.splits)

text \<open>The thread is neither parked nor told to stop.\<close>

definition awake :: "dicedev_device \<Rightarrow> bool" where
  "awake dv \<longleftrightarrow> \<not> should_stop (wt_thread dv) \<and> \<not> should_park (wt_thread dv)"

text \<open>The next task waits for a slot, and none is free.\<close>

definition starved :: "wt_state \<Rightarrow> dicedev_device \<Rightarrow> kstate \<Rightarrow> bool" where
  "starved w dv s \<longleftrightarrow> (\<exists>tp t bf. next_task w = Some tp \<and> tasks s tp = Some t \<and> buffs s (t_buff_out t) = Some bf \<and>
     binded_slot bf = DICEDEV_BUFFER_NO_SLOT \<and> free_slots dv = 0)"

section \<open>Turns of the worker\<close>

definition fewer_turns :: "wt_state \<Rightarrow> dicedev_device \<Rightarrow> kstate \<Rightarrow> wt_state \<Rightarrow> kstate \<Rightarrow> bool" where
  "fewer_turns w dv s w' s' \<longleftrightarrow> (\<exists>dv'. devs s' (wt_dev w) = Some dv' \<and> wt_thread dv' = wt_thread dv \<and> turns_left w' dv' s' < turns_left w dv s)"

lemma finish_turn:
  assumes inv: "dev_inv E w dv s" and r: "running_task dv = Some tp" "fence_state dv = DICEDEV_FENCE_STATE_REACHED"
    and h: "wt_handle E WT_EVENT_TASK_FINISH w s = Inr (w', s')"
  shows "fewer_turns w dv s w' s'"
proof -
  let ?d = "wt_dev w" and ?l = "opt_list (next_task w) @ pending_tasks dv"
  have b: "base_inv E ?d dv s (tp # ?l)" and d: "devs s ?d = Some dv" using inv r(1) by (simp_all add: dev_inv_def base_inv_def live_def)
  obtain s1 dv1 where s1: "task_destroy E tp s = Inr s1" "base_inv E ?d dv1 s1 ?l" "same_queue dv dv1"
    using destroy_base [OF b, of tp] by auto
  have d1: "devs s1 ?d = Some dv1" "\<not> dev_failed dv1" using s1(2) by (simp_all add: base_inv_def)
  have "w' = w" "s' = s1\<lparr>devs := (devs s1)(?d \<mapsto> dv1\<lparr>fence_state := DICEDEV_FENCE_STATE_NONE, running_task := None\<rparr>)\<rparr>"
    using h d d1 r(1) s1(1) by (auto simp: wt_handle_def)
  then show ?thesis using s1(3) r by (auto simp: fewer_turns_def turns_left_def same_queue_def split: option.splits)
qed

lemma next_turn:
  assumes inv: "dev_inv E w dv s" and n: "next_task w = None" "pending_tasks dv = tp # tps"
    and h: "wt_handle E WT_EVENT_TASK_GET_NEXT w s = Inr (w', s')"
  shows "fewer_turns w dv s w' s'"
proof -
  let ?d = "wt_dev w" and ?dv = "dv\<lparr>pending_tasks := tps\<rparr>"
  let ?s = "s\<lparr>devs := (devs s)(wt_dev w \<mapsto> ?dv)\<rparr>" and ?r = "opt_list (running_task dv)"
  have b: "base_inv E ?d dv s (?r @ tp # tps)" and d: "devs s ?d = Some dv" "\<not> slock dv"
    using inv n by (simp_all add: dev_inv_def live_def base_inv_def)
  have "task_linked ?d s tp" using b by (simp add: base_inv_def)
  then obtain t cx where t: "tasks s tp = Some t" "ctxs s (t_ctx t) = Some cx" by (rule task_linkedE) blast
  note take = take_next_run [OF d n(2)]
  show ?thesis
  proof (cases "ctx_failed cx")
    case False
    then have "w' = w\<lparr>next_task := Some tp\<rparr>" "s' = ?s" using h t by (simp_all add: wt_handle_def take)
    then show ?thesis using n by (auto simp: fewer_turns_def turns_left_def)
  next
    case True
    have "base_inv E ?d ?dv ?s (?r @ tp # tps)"
      by (rule base_inv_dev [OF b]) (use b in \<open>auto simp: base_inv_def\<close>)
    then obtain s1 dv1 where s1: "task_destroy E tp ?s = Inr s1" "base_inv E ?d dv1 s1 (remove1 tp (?r @ tp # tps))" "same_queue ?dv dv1"
      using destroy_base [of E ?d ?dv ?s "?r @ tp # tps" tp] by auto
    then have "w' = w" "s' = s1" "devs s1 ?d = Some dv1" using h t True by (simp_all add: wt_handle_def take base_inv_def)
    then show ?thesis using s1(3) n by (auto simp: fewer_turns_def turns_left_def same_queue_def)
  qed
qed

lemma bind_turn:
  assumes inv: "dev_inv E w dv s" and n: "next_task w = Some tp" "running_task dv = None" and t: "tasks s tp = Some t"
    "buffs s (t_buff_out t) = Some bf" "binded_slot bf = -1" "0 < free_slots dv"
    and h: "wt_handle E WT_EVENT_TASK_BIND_SLOT w s = Inr (w', s')"
  shows "fewer_turns w dv s w' s'"
proof -
  let ?d = "wt_dev w"
  have b: "base_inv E ?d dv s (live w dv)" and d: "devs s ?d = Some dv" "\<not> slock dv"
    using inv by (simp_all add: dev_inv_def base_inv_def)
  have "task_linked ?d s tp" using b n by (simp add: base_inv_def live_def)
  then obtain pt where bf: "buff_dev bf = ?d" "pts s (buff_pt bf) = Some pt" using t(1,2) by (auto elim: task_linkedE)
  obtain s1 s2 dv' bf' where s1: "bind_free_slot E ?d (t_buff_out t) (s\<lparr>devs := (devs s)(?d \<mapsto> dv\<lparr>slock := True\<rparr>)\<rparr>) = Inr s1"
      "bindR (dicedev_buffer_init_reader (t_buff_out t) s1) (spin_unlock_irqrestore ?d) = Inr s2"
      "base_inv E ?d dv' s2 (live w dv)" "same_queue dv dv'" "tasks s2 = tasks s" "buffs s2 (t_buff_out t) = Some bf'" "binded_slot bf' \<noteq> -1"
    using bind_base [OF b t(2) bf t(3,4)] by blast
  have "w' = w" "s' = s2" using h d n t(1) s1(1,2) by (auto simp: wt_handle_def)
  moreover have "needs_slot s tp" "\<not> needs_slot s2 tp" using t s1(5-7) by (simp_all add: needs_slot_def)
  ultimately show ?thesis using s1(3,4) n by (auto simp: fewer_turns_def turns_left_def same_queue_def base_inv_def)
qed

lemma run_turn:
  assumes inv: "dev_inv E w dv s" and n: "next_task w = Some tp" "running_task dv = None"
    and t: "tasks s tp = Some t" "buffs s (t_buff_out t) = Some bf" "binded_slot bf \<noteq> -1"
    and h: "wt_handle E WT_EVENT_TASK_RUN w s = Inr (w', s')"
  shows "fewer_turns w dv s w' s'"
proof -
  have b: "base_inv E (wt_dev w) dv s (live w dv)" "task_sound s tp" "tp \<in> set (live w dv)" using inv n by (simp_all add: dev_inv_def live_def)
  obtain dv' where "w' = w\<lparr>next_task := None\<rparr>" "base_inv E (wt_dev w) dv' s' (live w dv)"
      "pending_tasks dv' = pending_tasks dv" "running_task dv' = Some tp" "fence_state dv' = DICEDEV_FENCE_STATE_WAITING" "wt_thread dv' = wt_thread dv"
    using run_base [OF b(1,3,2) t refl n(1)] h by auto
  then show ?thesis using n by (auto simp: fewer_turns_def turns_left_def base_inv_def)
qed

text \<open>An iteration of the thread that does nothing leaves no work that it could do.\<close>

lemma worker_turn:
  assumes inv: "dev_inv E w dv s" and r: "wt_fn_step E w s = Inr (w', s')"
  obtains (less) "fewer_turns w dv s w' s'" | (idle) ev where "w' = w" "s' = s" "wt_get_event w s = Inr (ev, s)" "ev \<in> {WT_NO_EVENT, WT_PARK, WT_STOP}"
  using inv
proof (cases rule: get_eventE)
  case (idle ev)
  then have "w' = w" "s' = s" using r by (auto simp: wt_fn_step_def wt_handle_def)
  then show thesis using that(2) idle by blast
next
  case (finish tp)
  then show thesis using r that(1) finish_turn [OF inv] by (simp add: wt_fn_step_def)
next
  case (nxt tp tps)
  then show thesis using r that(1) next_turn [OF inv] by (simp add: wt_fn_step_def)
next
  case (bind tp t bf)
  then show thesis using r that(1) bind_turn [OF inv bind(2-7)] by (simp add: wt_fn_step_def)
next
  case (run tp t bf)
  then show thesis using r that(1) run_turn [OF inv run(2-6)] by (simp add: wt_fn_step_def)
qed

lemma idle_starved:
  assumes inv: "dev_inv E w dv s" and w: "awake dv" "live w dv \<noteq> []" "running_task dv = None \<or> fence_state dv = DICEDEV_FENCE_STATE_REACHED"
    and ev: "wt_get_event w s = Inr (ev, s)" "ev \<in> {WT_NO_EVENT, WT_PARK, WT_STOP}"
  shows "starved w dv s"
proof -
  have d: "devs s (wt_dev w) = Some dv" "\<not> slock dv" and r: "running_task dv = None \<longleftrightarrow> fence_state dv = DICEDEV_FENCE_STATE_NONE"
    using inv by (auto simp: dev_inv_def base_inv_def)
  have f: "fence_state dv = DICEDEV_FENCE_STATE_NONE" using w(1,3) r ev d by (auto simp: wt_get_event_def awake_def)
  show ?thesis
  proof (cases "next_task w")
    case None
    then have "pending_tasks dv \<noteq> []" using w(2) f r by (simp add: live_def)
    then show ?thesis using None ev d f w(1) by (auto simp: wt_get_event_def awake_def)
  next
    case (Some tp)
    then have "task_linked (wt_dev w) s tp" using inv by (simp add: dev_inv_def base_inv_def live_def)
    then obtain t bf where t: "tasks s tp = Some t" "buffs s (t_buff_out t) = Some bf" by (rule task_linkedE) blast
    have "wt_get_event w s = Inr (if binded_slot bf \<noteq> -1 then WT_EVENT_TASK_RUN else if free_slots dv > 0 then WT_EVENT_TASK_BIND_SLOT else WT_NO_EVENT, s)"
      using w(1) d f Some t by (simp add: wt_get_event_def awake_def)
    then show ?thesis using ev Some t by (auto simp: starved_def word_neq_0_conv [symmetric] split: if_splits)
  qed
qed

text \<open>A starved worker waits as long as the device is idle: the bound on the buffers below is needed.\<close>

lemma starved_waits:
  assumes inv: "dev_inv E w dv s" and w: "awake dv" "running_task dv = None" "starved w dv s"
  shows "wt_fn_step E w s = Inr (w, s)"
proof -
  have "devs s (wt_dev w) = Some dv" "\<not> slock dv" "fence_state dv = DICEDEV_FENCE_STATE_NONE"
    using inv w(2) by (auto simp: dev_inv_def base_inv_def)
  then show ?thesis using w(1,3) by (auto simp: starved_def awake_def wt_fn_step_def wt_get_event_def wt_handle_def)
qed

section \<open>Slots\<close>

lemma enough_slots:
  assumes ok: "slots_ok d s" and d: "devs s d = Some dv" and few: "finite (dom (buffs s))" "card (dom (buffs s)) \<le> 16"
    and b: "buffs s b = Some bf" "binded_slot bf = -1"
  shows "free_slots dv \<noteq> 0"
proof
  assume "free_slots dv = 0"
  then have "\<exists>x. buff_slots dv ! i = Some x" if "i < 16" for i using slots_ok_free_slots [OF ok d] that by fastforce
  then obtain f where f: "\<And>i. i < 16 \<Longrightarrow> buff_slots dv ! i = Some (f i)" by metis
  have fb: "\<exists>xf. buffs s (f i) = Some xf \<and> binded_slot xf = int i" if "i < 16" for i using slots_ok_entry [OF ok d that f [OF that]] by blast
  have "i = j" if "i < 16" "j < 16" "f i = f j" for i j using fb [OF that(1)] fb [OF that(2)] that(3) by auto
  then have "inj_on f {..<16}" by (auto intro: inj_onI)
  moreover have "b \<noteq> f i" if "i < 16" for i using fb [OF that] b by auto
  then have "b \<notin> f ` {..<16}" by blast
  ultimately have "card (insert b (f ` {..<16})) = 17" by (simp add: card_image)
  moreover have "insert b (f ` {..<16}) \<subseteq> dom (buffs s)" using fb b by auto
  then have "card (insert b (f ` {..<16})) \<le> card (dom (buffs s))" by (rule card_mono [OF few(1)])
  ultimately show False using few(2) by simp
qed

section \<open>Turns of the system\<close>

definition turn :: "system \<Rightarrow> event" where
  "turn \<sigma> = (case devs (kern \<sigma>) (wt_dev (thread \<sigma>)) of None \<Rightarrow> Worker
     | Some dv \<Rightarrow> if running_task dv \<noteq> None \<and> fence_state dv \<noteq> DICEDEV_FENCE_STATE_REACHED then Interrupt else Worker)"

definition work :: "system \<Rightarrow> nat" where
  "work \<sigma> = (case devs (kern \<sigma>) (wt_dev (thread \<sigma>)) of None \<Rightarrow> 0 | Some dv \<Rightarrow> turns_left (thread \<sigma>) dv (kern \<sigma>))"

definition serving :: "system \<Rightarrow> bool" where
  "serving \<sigma> \<longleftrightarrow> card (dom (buffs (kern \<sigma>))) \<le> 16 \<and>
     (case devs (kern \<sigma>) (wt_dev (thread \<sigma>)) of None \<Rightarrow> False | Some dv \<Rightarrow> awake dv)"

text \<open>An interrupt tells that the fence has been reached.\<close>

definition answers :: "env \<Rightarrow> bool" where
  "answers E \<longleftrightarrow> (\<forall>h. bit (ioread E h DICEDEV_INTR) 0 \<and> bit (ioread E h DICEDEV_INTR_ENABLE) 0)"

lemma answers_fence: "answers E \<Longrightarrow> isr_fence E dv"
proof -
  assume a: "answers E"
  then have "bit (isr_status E dv AND DICEDEV_INTR_FENCE_WAIT) 0" by (simp add: answers_def isr_status_def Let_def bit_and_iff)
  then show ?thesis unfolding isr_fence_def by (metis bit_0_eq bot_apply bot_bool_def)
qed

lemma ids_dom: "dom (buff_ids s) = dom (buffs s)"
  by (auto simp: buff_ids_def)

lemma worker_work:
  assumes ok: "system_ok E \<sigma>" and sv: "serving \<sigma>" and r: "handle E Worker \<sigma> = Inr (a, \<sigma>')"
  shows "serving \<sigma>'" "work \<sigma>' \<le> work \<sigma>" "turn \<sigma> = Worker \<Longrightarrow> work \<sigma> \<noteq> 0 \<Longrightarrow> work \<sigma>' < work \<sigma>"
proof -
  obtain dv where i: "sys_inv E (thread \<sigma>) dv (kern \<sigma>)" using system_okE [OF ok] by metis
  then have inv: "dev_inv E (thread \<sigma>) dv (kern \<sigma>)" and d: "devs (kern \<sigma>) (wt_dev (thread \<sigma>)) = Some dv" using sys_inv_dev [OF i] by (simp_all add: sys_inv_def)
  have aw: "awake dv" and few: "card (dom (buffs (kern \<sigma>))) \<le> 16" using sv d by (simp_all add: serving_def)
  obtain w' s' where w: "wt_fn_step E (thread \<sigma>) (kern \<sigma>) = Inr (w', s')" "\<sigma>' = (with_kern s' \<sigma>)\<lparr>thread := w'\<rparr>" using r by auto
  have \<sigma>': "kern \<sigma>' = s'" "thread \<sigma>' = w'" by (simp_all add: w(2) with_kern_def)
  have wd: "wt_dev w' = wt_dev (thread \<sigma>)" using wt_fn_step_ok [OF inv] w(1) by (auto simp: step_ok_def)
  have "dom (buffs s') = dom (buffs (kern \<sigma>))" using worker_undisturbed [OF ok r] ids_dom unfolding undisturbed_def \<sigma>' by metis
  then have few': "card (dom (buffs s')) \<le> 16" using few by simp
  have "dom (buffs (kern \<sigma>)) \<subseteq> {..<next_ptr (mem (kern \<sigma>))}" using heap_below(3) [OF ok_heap [OF ok]] by (simp add: ids_dom)
  then have fin: "finite (dom (buffs (kern \<sigma>)))" by (rule finite_subset) simp
  have "serving \<sigma>' \<and> work \<sigma>' \<le> work \<sigma> \<and> (turn \<sigma> = Worker \<longrightarrow> work \<sigma> \<noteq> 0 \<longrightarrow> work \<sigma>' < work \<sigma>)"
    using inv w(1)
  proof (cases rule: worker_turn)
    case less
    then obtain dv' where "devs s' (wt_dev (thread \<sigma>)) = Some dv'" "wt_thread dv' = wt_thread dv" "turns_left w' dv' s' < turns_left (thread \<sigma>) dv (kern \<sigma>)"
      unfolding fewer_turns_def by blast
    then show ?thesis
      using aw few' d wd by (simp add: serving_def work_def \<sigma>' awake_def)
  next
    case (idle ev)
    have "work \<sigma> = 0" if t: "turn \<sigma> = Worker"
    proof (rule ccontr)
      assume "work \<sigma> \<noteq> 0"
      then have "live (thread \<sigma>) dv \<noteq> []" using turns_live(2) d by (simp add: work_def)
      moreover have "running_task dv = None \<or> fence_state dv = DICEDEV_FENCE_STATE_REACHED" using t d by (simp add: turn_def split: if_splits)
      ultimately have "starved (thread \<sigma>) dv (kern \<sigma>)" using idle_starved [OF inv aw _ _ idle(3,4)] by blast
      moreover have "slots_ok (wt_dev (thread \<sigma>)) (kern \<sigma>)" using inv by (simp add: dev_inv_def base_inv_def)
      ultimately show False using enough_slots [OF _ d fin few] unfolding starved_def by auto
    qed
    then show ?thesis
      using sv d idle(1,2) few' by (simp add: serving_def work_def \<sigma>')
  qed
  then show "serving \<sigma>'" "work \<sigma>' \<le> work \<sigma>" "turn \<sigma> = Worker \<Longrightarrow> work \<sigma> \<noteq> 0 \<Longrightarrow> work \<sigma>' < work \<sigma>" by blast+
qed

lemma interrupt_work:
  assumes ok: "system_ok E \<sigma>" and sv: "serving \<sigma>" and r: "handle E Interrupt \<sigma> = Inr (a, \<sigma>')"
  shows "serving \<sigma>'" "work \<sigma>' \<le> work \<sigma>" "answers E \<Longrightarrow> turn \<sigma> = Interrupt \<Longrightarrow> work \<sigma>' < work \<sigma>"
proof -
  obtain dv where i: "sys_inv E (thread \<sigma>) dv (kern \<sigma>)" using system_okE [OF ok] by metis
  have d: "devs (kern \<sigma>) (wt_dev (thread \<sigma>)) = Some dv" "\<not> slock dv" using sys_inv_dev [OF i] by simp_all
  obtain b s' where s': "dicedev_isr E (wt_dev (thread \<sigma>)) (kern \<sigma>) = Inr (b, s')" "\<sigma>' = with_kern s' \<sigma>" using r by auto
  have k: "buffs s' = buffs (kern \<sigma>) \<and> tasks s' = tasks (kern \<sigma>) \<and> devs s' (wt_dev (thread \<sigma>)) = Some (isr_dev E dv)"
  proof (cases "running_task dv")
    case None
    then show ?thesis using s'(1) isr_idle_run [OF d None, of E] by (auto split: if_splits)
  next
    case (Some tp)
    have "task_linked (wt_dev (thread \<sigma>)) (kern \<sigma>) tp" using i Some by (simp add: sys_inv_def dev_inv_def base_inv_def live_def)
    then obtain t cx where t: "tasks (kern \<sigma>) tp = Some t" "ctxs (kern \<sigma>) (t_ctx t) = Some cx" by (rule task_linkedE) blast
    show ?thesis using s'(1) isr_run [OF d Some t, of E] by auto
  qed
  have q: "pending_tasks (isr_dev E dv) = pending_tasks dv" "running_task (isr_dev E dv) = running_task dv" "wt_thread (isr_dev E dv) = wt_thread dv"
      "fence_state (isr_dev E dv) = (if isr_fence E dv then DICEDEV_FENCE_STATE_REACHED else fence_state dv)"
    by (simp_all add: isr_dev_def Let_def)
  have n: "needs_slot s' = needs_slot (kern \<sigma>)" using k by (simp add: needs_slot_def fun_eq_iff)
  show "serving \<sigma>'" using sv d k q(3) by (simp add: serving_def s'(2) awake_def)
  show "work \<sigma>' \<le> work \<sigma>" using d k n q by (auto simp: work_def turns_left_def s'(2) split: option.splits)
  show "work \<sigma>' < work \<sigma>" if e: "answers E" "turn \<sigma> = Interrupt"
    using d k n q answers_fence [OF e(1)] e(2) by (auto simp: work_def turns_left_def s'(2) turn_def split: if_splits option.splits)
qed

lemma device_work:
  assumes "handle E (Device b i ws) \<sigma> = Inr (a, \<sigma>')" "serving \<sigma>"
  shows "serving \<sigma>'" "work \<sigma>' = work \<sigma>"
proof -
  have "touch b i (\<lambda>q _. Inr (Done, with_kern (page_written q ws (kern \<sigma>)) \<sigma>)) \<sigma> = Inr (a, \<sigma>')" using assms(1) by simp
  then have "serving \<sigma>' \<and> work \<sigma>' = work \<sigma>"
    by (rule touch_write) (use assms(2) in \<open>simp_all add: serving_def work_def turns_left_def needs_slot_def split: option.splits\<close>)
  then show "serving \<sigma>'" "work \<sigma>' = work \<sigma>" by simp_all
qed

section \<open>Runs\<close>

text \<open>
  \<open>rounds E n \<sigma> \<sigma>'\<close>: the worker, the device and its interrupts lead from \<open>\<sigma>\<close> to \<open>\<sigma>'\<close>, and \<open>n\<close> of the
  events were the turn of the worker, or of the interrupt that it waits for.
\<close>

inductive rounds :: "env \<Rightarrow> nat \<Rightarrow> system \<Rightarrow> system \<Rightarrow> bool" for E where
  none: "rounds E 0 \<sigma> \<sigma>"
| turn: "rounds E n \<sigma> \<sigma>' \<Longrightarrow> work \<sigma>' \<noteq> 0 \<Longrightarrow> handle E (turn \<sigma>') \<sigma>' = Inr (a, \<sigma>'') \<Longrightarrow> rounds E (Suc n) \<sigma> \<sigma>''"
| other: "rounds E n \<sigma> \<sigma>' \<Longrightarrow> is_background ev \<Longrightarrow> ev \<notin> {Suspend, Resume} \<Longrightarrow> enabled ev \<sigma>' \<Longrightarrow> handle E ev \<sigma>' = Inr (a, \<sigma>'') \<Longrightarrow>
    rounds E n \<sigma> \<sigma>''"

lemma turn_event: "turn \<sigma> = Worker \<or> turn \<sigma> = Interrupt"
  by (simp add: turn_def split: option.split)

lemma event_work:
  assumes ok: "system_ok E \<sigma>" "serving \<sigma>" and ev: "is_background ev" "ev \<notin> {Suspend, Resume}" "enabled ev \<sigma>" and r: "handle E ev \<sigma> = Inr (a, \<sigma>')"
  shows "system_ok E \<sigma>' \<and> serving \<sigma>' \<and> work \<sigma>' \<le> work \<sigma>"
proof -
  have "serving \<sigma>' \<and> work \<sigma>' \<le> work \<sigma>"
  proof (cases ev)
    case Worker
    then show ?thesis using worker_work [OF ok] r by (simp del: handle.simps)
  next
    case Interrupt
    then show ?thesis using interrupt_work [OF ok] r by (simp del: handle.simps)
  next
    case (Device b i ws)
    then show ?thesis using device_work ok(2) r by (metis order_refl)
  qed (use ev in simp_all)
  then show ?thesis using background_step [OF ok(1) ev(1,3) r] by simp
qed

lemma turn_work:
  assumes ok: "system_ok E \<sigma>" "serving \<sigma>" "answers E" "work \<sigma> \<noteq> 0" and r: "handle E (turn \<sigma>) \<sigma> = Inr (a, \<sigma>')"
  shows "system_ok E \<sigma>' \<and> serving \<sigma>' \<and> work \<sigma>' < work \<sigma>"
proof -
  have "system_ok E \<sigma>' \<and> serving \<sigma>' \<and> work \<sigma>' \<le> work \<sigma>"
    by (rule event_work [OF ok(1,2) _ _ _ r]) (use turn_event [of \<sigma>] in auto)
  moreover have "work \<sigma>' < work \<sigma>"
    using turn_event [of \<sigma>] r worker_work(3) [OF ok(1,2)] interrupt_work(3) [OF ok(1,2)] ok(3,4) by (auto simp del: handle.simps)
  ultimately show ?thesis by simp
qed

text \<open>The turn can be taken: the only fault is the one of a command that is cut off.\<close>

lemma turn_runs:
  assumes ok: "system_ok E \<sigma>" "work \<sigma> \<noteq> 0"
  shows "handle E (turn \<sigma>) \<sigma> = Inl OOB \<or> (\<exists>a \<sigma>'. handle E (turn \<sigma>) \<sigma> = Inr (a, \<sigma>'))"
proof -
  have "enabled (turn \<sigma>) \<sigma>" using turn_event [of \<sigma>] by auto
  from handle_fine [OF ok(1) this] show ?thesis
    by (cases "handle E (turn \<sigma>) \<sigma>") (use turn_event [of \<sigma>] in \<open>auto simp: turn_def simp del: handle.simps split: option.splits if_splits\<close>)
qed

lemma rounds_work:
  assumes "rounds E n \<sigma> \<sigma>'" "system_ok E \<sigma>" "serving \<sigma>" "answers E"
  shows "system_ok E \<sigma>' \<and> serving \<sigma>' \<and> work \<sigma>' + n \<le> work \<sigma>"
  using assms
proof (induction rule: rounds.induct)
  case (turn n \<sigma> \<sigma>' a \<sigma>'')
  then show ?case using turn_work [of E \<sigma>' a \<sigma>''] by fastforce
next
  case (other n \<sigma> \<sigma>' ev a \<sigma>'')
  then show ?case using event_work [of E \<sigma>' ev a \<sigma>''] by fastforce
qed simp

lemma done_counts:
  assumes ok: "system_ok E \<sigma>" "work \<sigma> = 0" and c: "ctxs (kern \<sigma>) c = Some cx"
  shows "task_count cx = 0"
proof -
  obtain dv where i: "sys_inv E (thread \<sigma>) dv (kern \<sigma>)" using system_okE [OF ok(1)] by metis
  then have "live (thread \<sigma>) dv = []" using ok(2) sys_inv_dev [OF i] turns_live(2) by (simp add: work_def)
  then have "counted (wt_dev (thread \<sigma>)) (kern \<sigma>) []" using i by (simp add: sys_inv_def dev_inv_def base_inv_def)
  moreover have "context_sound (wt_dev (thread \<sigma>)) (kern \<sigma>) c" using i by (simp add: sys_inv_def heap_inv_def)
  then have "ctx_dev cx = wt_dev (thread \<sigma>)" using c by (simp add: context_sound_def ctx_ids_def)
  ultimately show ?thesis using c by (simp add: counted_def tasks_of_def)
qed


definition write_demo :: "event list" where
  "write_demo = [Open 3, Ioctl 3 (Inr 4) DICEDEV_IOCTL_CREATE_SET (create_arg 4096) None, Write 4 (Some (\<lambda>_. 0)) 4]"

lemma write_demo_run:
  "\<exists>\<sigma> dv. trace env1 write_demo first = Some \<sigma> \<and> serving \<sigma> \<and> devs (kern \<sigma>) (wt_dev (thread \<sigma>)) = Some dv \<and>
     length (live (thread \<sigma>) dv) = 1 \<and> work \<sigma> = 6 \<and> turn \<sigma> = Worker \<and> (\<exists>a \<sigma>'. handle env1 Worker \<sigma> = Inr (a, \<sigma>'))"
  by (simp add: write_demo_def first_defs system_defs dicedev_buffer_write_def file_buff_def modify_ctx_def dicedev_wt_add_task_def new_write_def zero_buffer_def serving_def awake_def
    live_def work_def turn_def turns_left_def needs_slot_def wt_fn_step_def wt_get_event_def wt_handle_def wt_take_next_def del: bindR_eq_Inr)


end
